(* ===== verification/Pixiu_Prelude.thy ===== *)
theory Pixiu_Prelude
  imports Main "HOL-Library.Word" "HOL-Library.AList"
begin

text \<open>
  Shared vocabulary of the development: the few operations of Go's standard library that the
  gateway's own code is written with (\<open>strings.Split\<close>, \<open>strings.TrimLeft\<close>, \<open>strings.Cut\<close>,
  \<open>strings.HasPrefix\<close>, \<open>strconv.Itoa\<close>, \<open>strconv.Atoi\<close>, 64-bit integer wrap-around), and the
  generic lemmas on lists, options and words that the component theories use.

  A Go string is a sequence of bytes and so is a HOL \<open>string\<close>. Slices are lists, Go maps are HOL
  maps or finite maps, \<open>nil\<close> is \<open>None\<close>, and an error or a panic is a value of a sum type.
\<close>

named_theorems go_strings \<open>equations of the Go string operations\<close>

subsection \<open>strings.Split, strings.Join, strings.TrimLeft, strings.Cut\<close>

fun split_char :: "char \<Rightarrow> string \<Rightarrow> string list" where
  "split_char c [] = [[]]"
| "split_char c (x # xs) =
     (if x = c then [] # split_char c xs
      else (x # hd (split_char c xs)) # tl (split_char c xs))"

fun join_char :: "char \<Rightarrow> string list \<Rightarrow> string" where
  "join_char c [] = []"
| "join_char c [p] = p"
| "join_char c (p # q # ps) = p @ c # join_char c (q # ps)"

definition trim_left :: "char \<Rightarrow> string \<Rightarrow> string" where
  "trim_left c s = dropWhile (\<lambda>x. x = c) s"

text \<open>\<open>strings.Cut(s, sep)\<close> for a one-byte separator, of which the callers keep the first part.\<close>

definition cut_before :: "char \<Rightarrow> string \<Rightarrow> string" where
  "cut_before c s = takeWhile (\<lambda>x. x \<noteq> c) s"

definition has_prefix :: "string \<Rightarrow> string \<Rightarrow> bool" where
  "has_prefix s p \<longleftrightarrow> take (length p) s = p"

definition has_suffix :: "string \<Rightarrow> string \<Rightarrow> bool" where
  "has_suffix s p \<longleftrightarrow> has_prefix (rev s) (rev p)"

text \<open>\<open>strings.TrimPrefix\<close>.\<close>

definition trim_prefix :: "string \<Rightarrow> string \<Rightarrow> string" where
  "trim_prefix s p = (if has_prefix s p then drop (length p) s else s)"

lemma split_char_not_Nil [simp]: "split_char c s \<noteq> []"
  by (cases s) auto

lemma split_char_Cons_neq:
  "x \<noteq> c \<Longrightarrow> split_char c (x # xs) = (x # hd (split_char c xs)) # tl (split_char c xs)"
  by simp

lemma join_char_Cons: "ps \<noteq> [] \<Longrightarrow> join_char c (p # ps) = p @ c # join_char c ps"
  by (cases ps) auto

lemma join_split_char [simp]: "join_char c (split_char c s) = s"
proof (induction s)
  case Nil
  then show ?case by simp
next
  case (Cons x xs)
  obtain p ps where ps: "split_char c xs = p # ps"
    by (cases "split_char c xs") auto
  show ?case
  proof (cases "x = c")
    case True
    with Cons ps show ?thesis by (simp add: join_char_Cons)
  next
    case False
    with Cons ps show ?thesis by (cases ps) auto
  qed
qed

lemma split_char_no_sep: "p \<in> set (split_char c s) \<Longrightarrow> c \<notin> set p"
proof (induction s arbitrary: p)
  case Nil
  then show ?case by simp
next
  case (Cons x xs)
  obtain q qs where qs: "split_char c xs = q # qs"
    by (cases "split_char c xs") auto
  with Cons.IH have "c \<notin> set q" and "\<And>r. r \<in> set qs \<Longrightarrow> c \<notin> set r"
    by auto
  with Cons.prems qs show ?case by (auto split: if_splits)
qed

lemma split_char_free: "c \<notin> set s \<Longrightarrow> split_char c s = [s]"
  by (induction s) auto

lemma split_char_append:
  "c \<notin> set p \<Longrightarrow> split_char c (p @ c # s) = p # split_char c s"
  by (induction p) auto

lemma split_join_char:
  assumes "ps \<noteq> []" and "\<forall>p \<in> set ps. c \<notin> set p"
  shows "split_char c (join_char c ps) = ps"
  using assms
proof (induction ps)
  case Nil
  then show ?case by simp
next
  case (Cons p ps)
  show ?case
  proof (cases ps)
    case Nil
    with Cons.prems show ?thesis by (simp add: split_char_free)
  next
    case (Cons q qs)
    with Cons.IH Cons.prems show ?thesis
      by (simp add: split_char_append)
  qed
qed

lemma join_char_inj:
  assumes "ps \<noteq> []" and "qs \<noteq> []"
    and "\<forall>p \<in> set ps. c \<notin> set p" and "\<forall>q \<in> set qs. c \<notin> set q"
    and "join_char c ps = join_char c qs"
  shows "ps = qs"
  using assms split_join_char [of ps c] split_join_char [of qs c] by metis

lemma has_prefix_append [simp]: "has_prefix (p @ s) p"
  by (simp add: has_prefix_def)

lemma has_prefix_iff: "has_prefix s p \<longleftrightarrow> (\<exists>t. s = p @ t)"
  unfolding has_prefix_def by (metis append_eq_conv_conj append_take_drop_id)

lemma has_suffix_iff: "has_suffix s p \<longleftrightarrow> (\<exists>t. s = t @ p)"
  unfolding has_suffix_def has_prefix_iff
  by (metis rev_append rev_rev_ident)

lemmas go_string_defs = trim_left_def cut_before_def has_prefix_def has_suffix_def trim_prefix_def

subsection \<open>Decimal numbers: the verb d of fmt.Sprintf and strconv.Atoi\<close>

definition digit_char :: "nat \<Rightarrow> char" where
  "digit_char d = char_of (48 + d :: nat)"

definition char_digit :: "char \<Rightarrow> nat" where
  "char_digit c = of_char c - 48"

definition is_digit :: "char \<Rightarrow> bool" where
  "is_digit c \<longleftrightarrow> 48 \<le> (of_char c :: nat) \<and> (of_char c :: nat) \<le> 57"

fun show_nat :: "nat \<Rightarrow> string" where
  "show_nat n =
     (if n < 10 then [digit_char n] else show_nat (n div 10) @ [digit_char (n mod 10)])"

declare show_nat.simps [simp del]

definition show_int :: "int \<Rightarrow> string" where
  "show_int i = (if i < 0 then CHR ''-'' # show_nat (nat (- i)) else show_nat (nat i))"

definition read_nat :: "string \<Rightarrow> nat" where
  "read_nat s = foldl (\<lambda>a c. a * 10 + char_digit c) 0 s"

lemma char_digit_digit_char [simp]: "d < 10 \<Longrightarrow> char_digit (digit_char d) = d"
  by (simp add: char_digit_def digit_char_def)

lemma is_digit_digit_char [simp]: "d < 10 \<Longrightarrow> is_digit (digit_char d)"
  by (simp add: is_digit_def digit_char_def)

lemma read_show_nat [simp]: "read_nat (show_nat n) = n"
proof (induction n rule: show_nat.induct)
  case (1 n)
  show ?case
  proof (cases "n < 10")
    case True
    then show ?thesis by (subst show_nat.simps) (simp add: read_nat_def)
  next
    case False
    with 1 show ?thesis
      by (subst show_nat.simps) (simp add: read_nat_def)
  qed
qed

lemma show_nat_inj [simp]: "show_nat m = show_nat n \<longleftrightarrow> m = n"
  by (metis read_show_nat)

lemma show_nat_digits: "list_all is_digit (show_nat n)"
proof (induction n rule: show_nat.induct)
  case (1 n)
  then show ?case by (subst show_nat.simps) auto
qed

lemma show_nat_not_Nil [simp]: "show_nat n \<noteq> []"
  by (subst show_nat.simps) simp

lemma is_digit_not_minus: "is_digit c \<Longrightarrow> c \<noteq> CHR ''-'' \<and> c \<noteq> CHR ''+''"
  by (auto simp: is_digit_def)

lemma show_nat_no_sign: "show_nat n \<noteq> CHR ''-'' # s" "show_nat n \<noteq> CHR ''+'' # s"
  using show_nat_digits [of n] is_digit_not_minus by fastforce+

lemma show_int_inj [simp]: "show_int i = show_int j \<longleftrightarrow> i = j"
  by (auto simp: show_int_def show_nat_no_sign show_nat_no_sign [symmetric])

text \<open>The range of Go's \<open>int\<close> on a 64-bit platform, and the wrap-around of its arithmetic.\<close>

definition in_int64 :: "int \<Rightarrow> bool" where
  "in_int64 i \<longleftrightarrow> - (2 ^ 63) \<le> i \<and> i < 2 ^ 63"

definition wrap64 :: "int \<Rightarrow> int" where
  "wrap64 i = sint (word_of_int i :: 64 word)"

lemma wrap64_id [simp]: "in_int64 i \<Longrightarrow> wrap64 i = i"
  by (simp add: wrap64_def in_int64_def signed_of_int signed_take_bit_int_eq_self)

lemma in_int64_wrap64: "in_int64 (wrap64 i)"
  using sint_greater_eq [of "word_of_int i :: 64 word"] sint_less [of "word_of_int i :: 64 word"]
  by (simp add: wrap64_def in_int64_def)

text \<open>\<open>strconv.Atoi\<close>: an optional sign and at least one decimal digit, in the range of \<open>int\<close>.\<close>

definition atoi :: "string \<Rightarrow> int option" where
  "atoi s =
     (let (neg, ds) = (case s of [] \<Rightarrow> (False, [])
            | c # cs \<Rightarrow> if c = CHR ''-'' then (True, cs) else if c = CHR ''+'' then (False, cs)
                       else (False, s));
          v = (if neg then - int (read_nat ds) else int (read_nat ds))
      in if ds \<noteq> [] \<and> list_all is_digit ds \<and> in_int64 v then Some v else None)"

lemma atoi_in_int64: "atoi s = Some v \<Longrightarrow> in_int64 v"
  by (auto simp: atoi_def Let_def split: prod.splits if_splits)

lemma atoi_show_int: "in_int64 i \<Longrightarrow> atoi (show_int i) = Some i"
proof (cases "i < 0")
  case True
  assume "in_int64 i"
  with True show ?thesis
    using show_nat_digits [of "nat (- i)"] by (simp add: atoi_def show_int_def)
next
  case False
  assume i: "in_int64 i"
  obtain c cs where c: "show_nat (nat i) = c # cs"
    by (cases "show_nat (nat i)") auto
  with show_nat_digits [of "nat i"] have "is_digit c" by simp
  with is_digit_not_minus have "c \<noteq> CHR ''-''" "c \<noteq> CHR ''+''" by auto
  with i c False show_nat_digits [of "nat i"] read_show_nat [of "nat i"] show ?thesis
    by (simp add: atoi_def show_int_def)
qed

subsection \<open>Lists and options\<close>

text \<open>The first defined result of a function along a list: a Go loop with an early return.\<close>

fun first_some :: "('a \<Rightarrow> 'b option) \<Rightarrow> 'a list \<Rightarrow> 'b option" where
  "first_some f [] = None"
| "first_some f (x # xs) = (case f x of None \<Rightarrow> first_some f xs | Some y \<Rightarrow> Some y)"

lemma first_some_append:
  "first_some f (xs @ ys) = (case first_some f xs of None \<Rightarrow> first_some f ys | Some y \<Rightarrow> Some y)"
  by (induction xs) (auto split: option.splits)

lemma first_some_map: "first_some f (map g xs) = first_some (\<lambda>x. f (g x)) xs"
  by (induction xs) (auto split: option.splits)

lemma first_some_None: "first_some f xs = None \<longleftrightarrow> (\<forall>x \<in> set xs. f x = None)"
  by (induction xs) (auto split: option.splits)

lemma first_some_SomeD: "first_some f xs = Some y \<Longrightarrow> \<exists>x \<in> set xs. f x = Some y"
  by (induction xs) (auto split: option.splits)

lemma first_some_split:
  "first_some f xs = Some y \<Longrightarrow>
     \<exists>before x after. xs = before @ x # after \<and> f x = Some y \<and> (\<forall>z \<in> set before. f z = None)"
proof (induction xs)
  case (Cons x xs)
  show ?case
  proof (cases "f x")
    case None
    with Cons obtain before z after where "xs = before @ z # after" "f z = Some y"
      "\<forall>w \<in> set before. f w = None" by auto
    with None have "x # xs = (x # before) @ z # after \<and> f z = Some y
        \<and> (\<forall>w \<in> set (x # before). f w = None)" by auto
    then show ?thesis by blast
  next
    case (Some z)
    with Cons.prems show ?thesis by (auto intro!: exI [of _ "[]"])
  qed
qed simp

lemma first_some_cong:
  "(\<And>x. x \<in> set xs \<Longrightarrow> f x = g x) \<Longrightarrow> first_some f xs = first_some g xs"
  by (induction xs) (auto split: option.splits)

lemma first_some_find: "first_some (\<lambda>x. if P x then Some (f x) else None) xs = map_option f (find P xs)"
  by (induction xs) auto

lemma first_some_filter:
  "first_some f (filter P xs) = first_some (\<lambda>x. if P x then f x else None) xs"
  by (induction xs) (auto split: option.splits)

text \<open>The non-nil elements of a slice of pointers, in order.\<close>

definition somes :: "'a option list \<Rightarrow> 'a list" where
  "somes xs = List.map_filter id xs"

lemma somes_simps [simp]:
  "somes [] = []" "somes (None # xs) = somes xs" "somes (Some x # xs) = x # somes xs"
  by (simp_all add: somes_def List.map_filter_def)

lemma somes_append [simp]: "somes (xs @ ys) = somes xs @ somes ys"
  by (simp add: somes_def List.map_filter_def)

lemma set_somes [simp]: "set (somes xs) = {x. Some x \<in> set xs}"
  by (force simp: somes_def List.map_filter_def)

lemma somes_map_Some [simp]: "somes (map Some xs) = xs"
  by (induction xs) auto

text \<open>\<open>strings.ToLower\<close> on ASCII.\<close>

definition lower :: "string \<Rightarrow> string" where
  "lower s = map (\<lambda>c. let n = of_char c :: nat in if 65 \<le> n \<and> n \<le> 90 then char_of (n + 32) else c) s"

section \<open>Durations\<close>

text \<open>
  \<open>time.ParseDuration\<close>: a signed sequence of decimal numbers with units, in nanoseconds, refused
  when it leaves the 64-bit range. The fraction of a number is computed exactly here, where Go
  rounds it through a \<open>float64\<close>.
\<close>

definition duration_units :: "(string \<times> nat) list" where
  "duration_units = [(''ns'', 1), (''us'', 10 ^ 3), ([CHR 0xC2, CHR 0xB5, CHR ''s''], 10 ^ 3),
     ([CHR 0xCE, CHR 0xBC, CHR ''s''], 10 ^ 3), (''ms'', 10 ^ 6), (''s'', 10 ^ 9),
     (''m'', 60 * 10 ^ 9), (''h'', 3600 * 10 ^ 9)]"

definition digits_value :: "string \<Rightarrow> nat" where
  "digits_value ds = foldl (\<lambda>n c. 10 * n + char_digit c) 0 ds"

text \<open>One number with its unit: the value in nanoseconds and the rest of the text.\<close>

definition parse_duration_item :: "string \<Rightarrow> (nat \<times> string) option" where
  "parse_duration_item s =
     (let whole = takeWhile is_digit s;
          s1 = dropWhile is_digit s;
          frac = (if has_prefix s1 ''.'' then takeWhile is_digit (tl s1) else '''');
          s2 = (if has_prefix s1 ''.'' then dropWhile is_digit (tl s1) else s1);
          u = takeWhile (\<lambda>c. \<not> (c = CHR ''.'' \<or> is_digit c)) s2;
          rest = dropWhile (\<lambda>c. \<not> (c = CHR ''.'' \<or> is_digit c)) s2
      in if whole = '''' \<and> frac = '''' then None
         else
           (case map_of duration_units u of
              None \<Rightarrow> None
            | Some unit \<Rightarrow>
                (let v = digits_value whole * unit
                           + digits_value frac * unit div 10 ^ length frac
                 in if v > 2 ^ 63 then None else Some (v, rest))))"

text \<open>Units are not empty, so every number consumes text.\<close>

lemma parse_duration_item_shorter:
  assumes "parse_duration_item s = Some (v, rest)"
  shows "length rest < length s"
proof -
  define s1 where "s1 = dropWhile is_digit s"
  define s2 where "s2 = (if has_prefix s1 ''.'' then dropWhile is_digit (tl s1) else s1)"
  let ?P = "\<lambda>c. \<not> (c = CHR ''.'' \<or> is_digit c)"
  have le: "length s2 \<le> length s"
    unfolding s2_def s1_def
    using length_dropWhile_le [of is_digit s] length_dropWhile_le [of is_digit "tl (dropWhile is_digit s)"]
    by auto
  have u: "map_of duration_units (takeWhile ?P s2) \<noteq> None" and rest: "rest = dropWhile ?P s2"
    using assms unfolding parse_duration_item_def Let_def s2_def s1_def
    by (auto split: if_splits option.splits)
  from u have "takeWhile ?P s2 \<noteq> ''''" by (auto simp: duration_units_def)
  then have "0 < length (takeWhile ?P s2)" by simp
  moreover have "length (takeWhile ?P s2) + length (dropWhile ?P s2) = length s2"
    unfolding length_append [symmetric] takeWhile_dropWhile_id ..
  ultimately have "length (dropWhile ?P s2) < length s2" by linarith
  with le rest show ?thesis by simp
qed

function parse_duration_items :: "nat \<Rightarrow> string \<Rightarrow> nat option" where
  "parse_duration_items d s =
     (if s = '''' then Some d
      else
        (case parse_duration_item s of
           None \<Rightarrow> None
         | Some (v, rest) \<Rightarrow>
             if d + v > 2 ^ 63 then None else parse_duration_items (d + v) rest))"
  by pat_completeness auto
termination
  by (relation "measure (\<lambda>(d, s). length s)") (auto dest: parse_duration_item_shorter)

declare parse_duration_items.simps [simp del]

definition ParseDuration :: "string \<Rightarrow> int option" where
  "ParseDuration orig =
     (let neg = has_prefix orig ''-'';
          s = (if has_prefix orig ''-'' \<or> has_prefix orig ''+'' then tl orig else orig)
      in if s = ''0'' then Some 0
         else if s = '''' then None
         else
           (case parse_duration_items 0 s of
              None \<Rightarrow> None
            | Some d \<Rightarrow> if neg then Some (- int d) else if d > 2 ^ 63 - 1 then None else Some (int d)))"

section \<open>Association lists\<close>

lemma update_fresh [simp]: "k \<notin> fst ` set xs \<Longrightarrow> AList.update k v xs = xs @ [(k, v)]"
  by (induction xs) auto

section \<open>Search\<close>

lemma find_filter: "find P (filter Q xs) = find (\<lambda>x. Q x \<and> P x) xs"
  by (induction xs) auto

end
