(* ===== verification/Pixiu_Endpoints.thy ===== *)
theory Pixiu_Endpoints
  imports Complex_Main Pixiu_Prelude "HOL-Library.Word"
begin

text \<open>
  The upstream data of \<open>pkg/model/cluster.go\<close>, \<open>base.go\<close>, \<open>llm.go\<close>, \<open>retry.go\<close>, \<open>health.go\<close> and
  \<open>lb.go\<close>: socket addresses, endpoints, cluster configurations, their deep copies
  (\<open>pkg/common/copyutil\<close>) and the runtime identity of an endpoint. SHA-256, which Go takes from its
  standard library, is written out over 32-bit words.

  A Go map with string keys is an association list with distinct keys, and nil is the empty list;
  a nil-able pointer is an option. A consistent hash held by a configuration is a value of the type
  parameter \<open>'h\<close>.
\<close>

unbundle bit_operations_syntax

section \<open>SHA-256\<close>

definition rotr32 :: "nat \<Rightarrow> 32 word \<Rightarrow> 32 word" where
  "rotr32 n x = (drop_bit n x) OR (push_bit (32 - n) x)"

definition big_sigma0 :: "32 word \<Rightarrow> 32 word" where
  "big_sigma0 x = rotr32 2 x XOR rotr32 13 x XOR rotr32 22 x"

definition big_sigma1 :: "32 word \<Rightarrow> 32 word" where
  "big_sigma1 x = rotr32 6 x XOR rotr32 11 x XOR rotr32 25 x"

definition small_sigma0 :: "32 word \<Rightarrow> 32 word" where
  "small_sigma0 x = rotr32 7 x XOR rotr32 18 x XOR drop_bit 3 x"

definition small_sigma1 :: "32 word \<Rightarrow> 32 word" where
  "small_sigma1 x = rotr32 17 x XOR rotr32 19 x XOR drop_bit 10 x"

text \<open>
  The constants of SHA-256: the first 32 bits of the fractional part of the cube root of each of the
  first 64 primes, and of the square root of each of the first eight. A root is found bit by bit.
\<close>

definition primes_below :: "int \<Rightarrow> int list" where
  "primes_below n = filter (\<lambda>p. \<forall>d \<in> set [2..p - 1]. p mod d \<noteq> 0) [2..n - 1]"

fun root_floor :: "nat \<Rightarrow> int \<Rightarrow> nat \<Rightarrow> int \<Rightarrow> int" where
  "root_floor k n 0 r = r"
| "root_floor k n (Suc b) r = root_floor k n b (if (r + 2 ^ b) ^ k \<le> n then r + 2 ^ b else r)"

definition root_fraction :: "nat \<Rightarrow> int \<Rightarrow> 32 word" where
  "root_fraction k p = word_of_int (root_floor k (p * 2 ^ (32 * k)) 40 0)"

definition sha_k :: "32 word list" where
  "sha_k = map (root_fraction 3) (primes_below 312)"

definition sha_init :: "32 word list" where
  "sha_init = map (root_fraction 2) (primes_below 20)"

text \<open>Bytes as 8-bit words; four of them, big endian, make a word.\<close>

fun be_words :: "8 word list \<Rightarrow> 32 word list" where
  "be_words (a # b # c # d # bs) =
     (push_bit 24 (ucast a) OR push_bit 16 (ucast b) OR push_bit 8 (ucast c) OR ucast d)
       # be_words bs"
| "be_words _ = []"

definition be_bytes :: "nat \<Rightarrow> nat \<Rightarrow> 8 word list" where
  "be_bytes n k = map (\<lambda>i. word_of_nat (k div 256 ^ (n - 1 - i))) [0..<n]"

definition sha_pad :: "8 word list \<Rightarrow> 8 word list" where
  "sha_pad msg = msg @ [0x80] @ replicate ((119 - length msg mod 64) mod 64) 0
     @ be_bytes 8 (8 * length msg)"

text \<open>The message schedule, newest word first.\<close>

fun sha_extend :: "nat \<Rightarrow> 32 word list \<Rightarrow> 32 word list" where
  "sha_extend 0 ws = ws"
| "sha_extend (Suc n) ws =
     sha_extend n
       ((small_sigma1 (ws ! 1) + ws ! 6 + small_sigma0 (ws ! 14) + ws ! 15) # ws)"

definition sha_round :: "32 word \<times> 32 word \<Rightarrow> 32 word list \<Rightarrow> 32 word list" where
  "sha_round kw st =
     (let a = st ! 0; b = st ! 1; c = st ! 2; d = st ! 3;
          e = st ! 4; f = st ! 5; g = st ! 6; h = st ! 7;
          t1 = h + big_sigma1 e + ((e AND f) XOR (NOT e AND g)) + fst kw + snd kw;
          t2 = big_sigma0 a + ((a AND b) XOR (a AND c) XOR (b AND c))
      in [t1 + t2, a, b, c, d + t1, e, f, g])"

definition sha_block :: "32 word list \<Rightarrow> 32 word list \<Rightarrow> 32 word list" where
  "sha_block st block =
     map2 (+) st (fold sha_round (zip sha_k (rev (sha_extend 48 (rev block)))) st)"

fun sha_blocks :: "nat \<Rightarrow> 32 word list \<Rightarrow> 32 word list \<Rightarrow> 32 word list" where
  "sha_blocks 0 ws st = st"
| "sha_blocks (Suc n) ws st = sha_blocks n (drop 16 ws) (sha_block st (take 16 ws))"

definition string_bytes :: "string \<Rightarrow> 8 word list" where
  "string_bytes s = map (\<lambda>c. word_of_nat (of_char c)) s"

definition sha256 :: "string \<Rightarrow> 8 word list" where
  "sha256 s =
     (let ws = be_words (sha_pad (string_bytes s))
      in concat (map (\<lambda>w. be_bytes 4 (unat w)) (sha_blocks (length ws div 16) ws sha_init)))"

text \<open>The verb \<open>%x\<close> on a byte slice.\<close>

definition hex_digit :: "nat \<Rightarrow> char" where
  "hex_digit d = (if d < 10 then char_of (48 + d) else char_of (87 + d))"

definition hex_bytes :: "8 word list \<Rightarrow> string" where
  "hex_bytes bs = concat (map (\<lambda>b. [hex_digit (unat b div 16), hex_digit (unat b mod 16)]) bs)"

section \<open>JSON-like values and copies\<close>

text \<open>
  The dynamic types that \<open>CloneJSONLike\<close> distinguishes; \<open>JNumber\<close> is a \<open>float64\<close>. A map lists its
  entries.
\<close>

datatype json =
    JNull
  | JBool bool
  | JInt int
  | JNumber rat
  | JString string
  | JMap "(string \<times> json) list"
  | JList "json list"
  | JStrings "string list"
  | JInts "int list"
  | JInt64s "int list"
  | JNumbers "rat list"
  | JBools "bool list"
  | JStringMap "(string \<times> string) list"

definition CloneStringSlice :: "string list \<Rightarrow> string list" where
  "CloneStringSlice vs = map (\<lambda>v. v) vs"

definition CloneStringMap :: "(string \<times> string) list \<Rightarrow> (string \<times> string) list" where
  "CloneStringMap vs = map (\<lambda>(k, v). (k, v)) vs"

fun CloneJSONLike :: "json \<Rightarrow> json" where
  "CloneJSONLike (JMap m) = JMap (map (\<lambda>(k, item). (k, CloneJSONLike item)) m)"
| "CloneJSONLike (JList xs) = JList (map CloneJSONLike xs)"
| "CloneJSONLike (JStrings xs) = JStrings (CloneStringSlice xs)"
| "CloneJSONLike (JStringMap m) = JStringMap (CloneStringMap m)"
| "CloneJSONLike v = v"

definition CloneStringAnyMap :: "(string \<times> json) list \<Rightarrow> (string \<times> json) list" where
  "CloneStringAnyMap vs = (case CloneJSONLike (JMap vs) of JMap m \<Rightarrow> m | _ \<Rightarrow> [])"

section \<open>Addresses and endpoints\<close>

record SocketAddress =
  sa_Address :: string
  sa_Port :: int
  ResolverName :: string
  Domains :: "string list"
  CertsDir :: string

definition GetAddress :: "SocketAddress \<Rightarrow> string" where
  "GetAddress a =
     (case Domains a of d # _ \<Rightarrow> d | [] \<Rightarrow> sa_Address a @ '':'' @ show_int (sa_Port a))"

definition SocketAddress_Equal :: "SocketAddress \<Rightarrow> SocketAddress \<Rightarrow> bool" where
  "SocketAddress_Equal a b =
     (if (Domains a \<noteq> []) \<noteq> (Domains b \<noteq> []) then False
      else if Domains a \<noteq> [] then hd (Domains a) = hd (Domains b)
      else sa_Address a = sa_Address b \<and> sa_Port a = sa_Port b)"

record RetryPolicy =
  rp_Name :: string
  rp_Config :: "(string \<times> json) list"

record LLMMeta =
  Provider :: string
  APIKey :: string
  llm_RetryPolicy :: RetryPolicy
  Fallback :: bool
  HealthCheckInterval :: int

record Endpoint =
  ep_ID :: string
  ep_Name :: string
  ep_Address :: SocketAddress
  ep_Metadata :: "(string \<times> string) list"
  UnHealthy :: bool
  ep_LLMMeta :: "LLMMeta option"

definition GetHost :: "Endpoint \<Rightarrow> string" where
  "GetHost e = sa_Address (ep_Address e) @ '':'' @ show_int (sa_Port (ep_Address e))"

definition cloneSocketAddress :: "SocketAddress \<Rightarrow> SocketAddress" where
  "cloneSocketAddress address =
     (if Domains address \<noteq> [] then address\<lparr>Domains := [] @ Domains address\<rparr> else address)"

definition cloneMetadata :: "(string \<times> string) list \<Rightarrow> (string \<times> string) list" where
  "cloneMetadata metadata = CloneStringMap metadata"

definition cloneLLMMeta :: "LLMMeta option \<Rightarrow> LLMMeta option" where
  "cloneLLMMeta meta =
     (case meta of
        None \<Rightarrow> None
      | Some m \<Rightarrow> Some (m\<lparr>llm_RetryPolicy := (llm_RetryPolicy m)\<lparr>rp_Config :=
          CloneStringAnyMap (rp_Config (llm_RetryPolicy m))\<rparr>\<rparr>))"

definition CloneEndpoint :: "Endpoint option \<Rightarrow> Endpoint option" where
  "CloneEndpoint endpoint =
     (case endpoint of
        None \<Rightarrow> None
      | Some e \<Rightarrow> Some (e\<lparr>ep_Address := cloneSocketAddress (ep_Address e),
          ep_Metadata := cloneMetadata (ep_Metadata e), ep_LLMMeta := cloneLLMMeta (ep_LLMMeta e)\<rparr>))"

definition CloneEndpoints :: "Endpoint option list \<Rightarrow> Endpoint option list" where
  "CloneEndpoints endpoints = map CloneEndpoint endpoints"

section \<open>Endpoint identities\<close>

definition endpointIDMaterialField :: "string \<Rightarrow> string \<Rightarrow> string" where
  "endpointIDMaterialField name v =
     name @ '':'' @ show_nat (length v) @ '':'' @ v @ [CHR 0x0A]"

definition endpointIDMaterial :: "string \<Rightarrow> Endpoint option \<Rightarrow> string" where
  "endpointIDMaterial clusterName endpoint =
     (let address = (case endpoint of None \<Rightarrow> '''' | Some e \<Rightarrow> GetAddress (ep_Address e));
          meta = Option.bind endpoint ep_LLMMeta;
          provider = (case meta of None \<Rightarrow> '''' | Some m \<Rightarrow> Provider m);
          apiKey = (case meta of None \<Rightarrow> '''' | Some m \<Rightarrow> APIKey m)
      in endpointIDMaterialField ''cluster'' clusterName
         @ endpointIDMaterialField ''address'' address
         @ endpointIDMaterialField ''llm_provider'' provider
         @ endpointIDMaterialField ''llm_api_key'' apiKey)"

definition generatedEndpointIDPrefix :: string where
  "generatedEndpointIDPrefix = ''pixiu-generated-endpoint-''"

definition GenerateEndpointID :: "string \<Rightarrow> Endpoint option \<Rightarrow> string" where
  "GenerateEndpointID clusterName endpoint =
     generatedEndpointIDPrefix @ hex_bytes (take 8 (sha256 (endpointIDMaterial clusterName endpoint)))"

definition suffixed :: "string \<Rightarrow> nat \<Rightarrow> string" where
  "suffixed baseID n = baseID @ ''-'' @ show_nat n"

text \<open>The unbounded loop over suffixes ends: distinct suffixes give distinct candidates.\<close>

definition taken_from :: "string \<Rightarrow> string list \<Rightarrow> nat \<Rightarrow> nat set" where
  "taken_from baseID taken n = {m. n \<le> m \<and> suffixed baseID m \<in> set taken}"

lemma suffixed_inj: "suffixed baseID m = suffixed baseID n \<longleftrightarrow> m = n"
  using show_nat_inj [of m n] by (auto simp: suffixed_def)

lemma finite_taken_from: "finite (taken_from baseID taken n)"
proof -
  have "inj_on (suffixed baseID) (taken_from baseID taken n)"
    by (auto intro: inj_onI simp: suffixed_inj)
  moreover have "suffixed baseID ` taken_from baseID taken n \<subseteq> set taken"
    by (auto simp: taken_from_def)
  ultimately show ?thesis
    using finite_subset finite_imageD List.finite_set by metis
qed

function next_suffix :: "string \<Rightarrow> string list \<Rightarrow> nat \<Rightarrow> string" where
  "next_suffix baseID taken suffix =
     (let candidate = suffixed baseID suffix
      in if candidate \<notin> set taken then candidate else next_suffix baseID taken (suffix + 1))"
  by pat_completeness auto
termination
proof (relation "measure (\<lambda>(b, taken, n). card (taken_from b taken n))")
  fix b taken n candidate
  assume "candidate = suffixed b n" and "\<not> candidate \<notin> set taken"
  then have "taken_from b taken n = insert n (taken_from b taken (n + 1))"
    by (auto simp: taken_from_def)
  moreover have "n \<notin> taken_from b taken (n + 1)" by (simp add: taken_from_def)
  ultimately show "((b, taken, n + 1), b, taken, n) \<in> measure (\<lambda>(b, taken, n). card (taken_from b taken n))"
    using finite_taken_from [of b taken "n + 1"] by simp
qed simp

declare next_suffix.simps [simp del]

definition StableUniqueEndpointID :: "string \<Rightarrow> Endpoint option \<Rightarrow> string list \<Rightarrow> string" where
  "StableUniqueEndpointID clusterName endpoint taken =
     (let baseID = (case endpoint of None \<Rightarrow> '''' | Some e \<Rightarrow> ep_ID e);
          baseID = (if baseID = '''' then GenerateEndpointID clusterName endpoint else baseID)
      in if baseID \<notin> set taken then baseID else next_suffix baseID taken 2)"

section \<open>Cluster configurations\<close>

record HealthCheckConfig =
  hc_Protocol :: string
  TimeoutConfig :: string
  IntervalConfig :: string
  InitialDelaySeconds :: string
  HealthyThreshold :: "32 word"
  UnhealthyThreshold :: "32 word"
  hc_ServiceName :: string
  SessionConfig :: "(string \<times> json) list"
  CommonCallbacks :: "string list"

record 'h ConsistentHash =
  ReplicaNum :: int
  MaxVnodeNum :: int
  MaglevTableSize :: int
  ch_Hash :: "'h option"

text \<open>Only the service name of the unused \<open>EdsClusterConfig\<close> is kept.\<close>

record 'h ClusterConfig =
  cc_Name :: string
  TypeStr :: string
  cc_Type :: int
  eds_ServiceName :: string
  LbStr :: string
  cc_ConsistentHash :: "'h ConsistentHash"
  HealthChecks :: "HealthCheckConfig list"
  Endpoints :: "Endpoint option list"
  PrePickEndpointIndex :: "32 word"
  ConfigID :: "64 word"

text \<open>\<open>ConsistentHashInitMap\<close>: the factories that the balancer packages register.\<close>

type_synonym 'h factories =
  "string \<Rightarrow> ('h ConsistentHash \<Rightarrow> Endpoint option list \<Rightarrow> 'h) option"

text \<open>A nil endpoint is dereferenced when only healthy ones are asked for.\<close>

fun GetEndpoint_loop :: "bool \<Rightarrow> Endpoint option list \<Rightarrow> Endpoint option list option" where
  "GetEndpoint_loop mustHealth [] = Some []"
| "GetEndpoint_loop mustHealth (e # es) =
     (if \<not> mustHealth then map_option ((#) e) (GetEndpoint_loop mustHealth es)
      else
        (case e of
           None \<Rightarrow> None
         | Some ep \<Rightarrow>
             if \<not> UnHealthy ep then map_option ((#) e) (GetEndpoint_loop mustHealth es)
             else GetEndpoint_loop mustHealth es))"

definition GetEndpoint :: "bool \<Rightarrow> 'h ClusterConfig \<Rightarrow> Endpoint option list option" where
  "GetEndpoint mustHealth c = GetEndpoint_loop mustHealth (Endpoints c)"

definition HasConsistentHashFactory :: "'h factories \<Rightarrow> 'h ClusterConfig \<Rightarrow> bool" where
  "HasConsistentHashFactory fs c \<longleftrightarrow> fs (LbStr c) \<noteq> None"

definition CreateConsistentHash :: "'h factories \<Rightarrow> 'h ClusterConfig \<Rightarrow> 'h ClusterConfig" where
  "CreateConsistentHash fs c =
     (case fs (LbStr c) of
        Some newConsistentHash \<Rightarrow>
          c\<lparr>cc_ConsistentHash := (cc_ConsistentHash c)\<lparr>ch_Hash :=
             Some (newConsistentHash (cc_ConsistentHash c) (Endpoints c))\<rparr>\<rparr>
      | None \<Rightarrow> c)"

definition EnsureConsistentHash :: "'h factories \<Rightarrow> 'h ClusterConfig \<Rightarrow> 'h ClusterConfig" where
  "EnsureConsistentHash fs c =
     (if ch_Hash (cc_ConsistentHash c) = None then CreateConsistentHash fs c else c)"

definition cloneHealthCheck :: "HealthCheckConfig \<Rightarrow> HealthCheckConfig" where
  "cloneHealthCheck hc = hc\<lparr>CommonCallbacks := [] @ CommonCallbacks hc,
     SessionConfig := CloneStringAnyMap (SessionConfig hc)\<rparr>"

definition cloneHealthChecks :: "HealthCheckConfig list \<Rightarrow> HealthCheckConfig list" where
  "cloneHealthChecks checks = map cloneHealthCheck checks"

definition CloneClusterConfig :: "'h factories \<Rightarrow> 'h ClusterConfig option \<Rightarrow> 'h ClusterConfig option" where
  "CloneClusterConfig fs c =
     (case c of
        None \<Rightarrow> None
      | Some c \<Rightarrow>
          (let clone = c\<lparr>Endpoints := CloneEndpoints (Endpoints c),
                         HealthChecks := cloneHealthChecks (HealthChecks c)\<rparr>
           in Some (if HasConsistentHashFactory fs c
                    then clone\<lparr>cc_ConsistentHash := (cc_ConsistentHash clone)\<lparr>ch_Hash := None\<rparr>\<rparr>
                    else clone)))"

section \<open>Lemmas\<close>

subsection \<open>Copies\<close>

lemma CloneStringSlice_id [simp]: "CloneStringSlice vs = vs"
  by (simp add: CloneStringSlice_def)

lemma CloneStringMap_id [simp]: "CloneStringMap m = m"
  by (induction m) (auto simp: CloneStringMap_def)

lemma CloneJSONLike_id [simp]: "CloneJSONLike v = v"
proof (induction v)
  case (JMap m)
  have "map (\<lambda>(k, item). (k, CloneJSONLike item)) m = m"
    using JMap by (intro map_idI) fastforce
  then show ?case by simp
next
  case (JList xs)
  then have "map CloneJSONLike xs = xs" by (intro map_idI)
  then show ?case by simp
qed simp_all

lemma CloneStringAnyMap_id [simp]: "CloneStringAnyMap m = m"
  by (simp add: CloneStringAnyMap_def del: CloneJSONLike.simps)

lemma CloneEndpoint_id [simp]: "CloneEndpoint e = e"
  by (cases e)
    (auto simp: CloneEndpoint_def cloneSocketAddress_def cloneMetadata_def cloneLLMMeta_def
      split: option.splits)

lemma CloneEndpoints_id [simp]: "CloneEndpoints es = es"
  by (simp add: CloneEndpoints_def map_idI)

lemma cloneHealthChecks_id [simp]: "cloneHealthChecks cs = cs"
  by (simp add: cloneHealthChecks_def cloneHealthCheck_def map_idI)

lemma CloneClusterConfig_Some:
  "CloneClusterConfig fs (Some c) =
     Some (if HasConsistentHashFactory fs c
       then c\<lparr>cc_ConsistentHash := (cc_ConsistentHash c)\<lparr>ch_Hash := None\<rparr>\<rparr> else c)"
  by (simp add: CloneClusterConfig_def)

subsection \<open>Addresses\<close>

lemma SocketAddress_Equal_refl [simp]: "SocketAddress_Equal a a"
  by (simp add: SocketAddress_Equal_def)

lemma SocketAddress_Equal_sym: "SocketAddress_Equal a b \<Longrightarrow> SocketAddress_Equal b a"
  by (auto simp: SocketAddress_Equal_def split: if_splits)

lemma SocketAddress_Equal_trans:
  "SocketAddress_Equal a b \<Longrightarrow> SocketAddress_Equal b c \<Longrightarrow> SocketAddress_Equal a c"
  by (auto simp: SocketAddress_Equal_def split: if_splits)

lemma SocketAddress_Equal_address: "SocketAddress_Equal a b \<Longrightarrow> GetAddress a = GetAddress b"
  by (auto simp: SocketAddress_Equal_def GetAddress_def split: if_splits list.splits)

subsection \<open>Identities\<close>

lemma next_suffix_fresh:
  "next_suffix baseID taken n \<notin> set taken
   \<and> (\<exists>k \<ge> n. next_suffix baseID taken n = suffixed baseID k
        \<and> (\<forall>j. n \<le> j \<and> j < k \<longrightarrow> suffixed baseID j \<in> set taken))"
proof (induction baseID taken n rule: next_suffix.induct)
  case (1 baseID taken n)
  show ?case
  proof (cases "suffixed baseID n \<in> set taken")
    case True
    with 1 have fresh: "next_suffix baseID taken (n + 1) \<notin> set taken"
      and "\<exists>k \<ge> n + 1. next_suffix baseID taken (n + 1) = suffixed baseID k
        \<and> (\<forall>j. n + 1 \<le> j \<and> j < k \<longrightarrow> suffixed baseID j \<in> set taken)"
      by (simp_all add: Let_def)
    then obtain k where k: "k \<ge> n + 1" "next_suffix baseID taken (n + 1) = suffixed baseID k"
      "\<forall>j. n + 1 \<le> j \<and> j < k \<longrightarrow> suffixed baseID j \<in> set taken" by blast
    have "\<forall>j. n \<le> j \<and> j < k \<longrightarrow> suffixed baseID j \<in> set taken"
      using k(3) True by (metis Suc_eq_plus1 Suc_leI le_neq_implies_less)
    with True fresh k show ?thesis
      by (subst (1 2) next_suffix.simps) (auto simp: Let_def intro!: exI [of _ k])
  next
    case False
    then show ?thesis
      by (subst (1 2) next_suffix.simps) (auto simp: Let_def intro!: exI [of _ n])
  qed
qed

lemma StableUniqueEndpointID_fresh: "StableUniqueEndpointID clusterName e taken \<notin> set taken"
  using next_suffix_fresh by (auto simp: StableUniqueEndpointID_def Let_def)

text \<open>The ID an endpoint asks for, before collisions are resolved.\<close>

definition base_id :: "string \<Rightarrow> Endpoint option \<Rightarrow> string" where
  "base_id clusterName e = (case e of None \<Rightarrow> GenerateEndpointID clusterName e
     | Some ep \<Rightarrow> if ep_ID ep = '''' then GenerateEndpointID clusterName e else ep_ID ep)"

lemma StableUniqueEndpointID_base:
  "StableUniqueEndpointID clusterName e taken =
     (if base_id clusterName e \<notin> set taken then base_id clusterName e
      else next_suffix (base_id clusterName e) taken 2)"
  by (auto simp: StableUniqueEndpointID_def base_id_def Let_def split: option.splits)

subsection \<open>The hash material\<close>

lemma material_field_inj:
  assumes "endpointIDMaterialField name v @ rest = endpointIDMaterialField name v' @ rest'"
  shows "v = v' \<and> rest = rest'"
proof -
  have free: "CHR '':'' \<notin> set (show_nat n)" for n
    using show_nat_digits [of n] by (auto simp: list_all_iff is_digit_def dest!: bspec)
  have split: "takeWhile (\<lambda>c. c \<noteq> CHR '':'') (show_nat n @ CHR '':'' # s) = show_nat n" for n s
    using free [of n] by (subst takeWhile_append2) auto
  from assms have eq: "show_nat (length v) @ CHR '':'' # v @ CHR 0x0A # rest =
      show_nat (length v') @ CHR '':'' # v' @ CHR 0x0A # rest'"
    by (simp add: endpointIDMaterialField_def)
  then have "show_nat (length v) = show_nat (length v')"
    using split by metis
  then have len: "length v = length v'" using show_nat_inj by blast
  with eq show ?thesis by simp
qed

section \<open>What identities promise\<close>

text \<open>The values that identify an endpoint without an ID of its own.\<close>

definition id_fields :: "string \<Rightarrow> Endpoint option \<Rightarrow> string \<times> string \<times> string \<times> string" where
  "id_fields clusterName e =
     (clusterName, (case e of None \<Rightarrow> '''' | Some ep \<Rightarrow> GetAddress (ep_Address ep)),
      (case Option.bind e ep_LLMMeta of None \<Rightarrow> '''' | Some m \<Rightarrow> Provider m),
      (case Option.bind e ep_LLMMeta of None \<Rightarrow> '''' | Some m \<Rightarrow> APIKey m))"

text \<open>
  C26: the hash material is unambiguous. Two endpoints have the same material exactly when their
  cluster names, formatted addresses, LLM providers and API keys agree, whatever characters these
  contain; and renaming an endpoint does not change its material.
\<close>

theorem endpointIDMaterial_injective:
  "(endpointIDMaterial c e = endpointIDMaterial c' e' \<longleftrightarrow> id_fields c e = id_fields c' e')
   \<and> endpointIDMaterial c (Some (ep\<lparr>ep_Name := name\<rparr>)) = endpointIDMaterial c (Some ep)"
proof -
  define m where "m = (\<lambda>(c, a, p, k). endpointIDMaterialField ''cluster'' c
     @ endpointIDMaterialField ''address'' a @ endpointIDMaterialField ''llm_provider'' p
     @ endpointIDMaterialField ''llm_api_key'' k)"
  have mat: "endpointIDMaterial c e = m (id_fields c e)" for c e
    by (simp add: endpointIDMaterial_def id_fields_def m_def Let_def)
  have "x = y" if eq: "m x = m y" for x y
  proof -
    obtain c a p k where x: "x = (c, a, p, k)" by (cases x)
    obtain c' a' p' k' where y: "y = (c', a', p', k')" by (cases y)
    note 1 = material_field_inj [OF eq [unfolded m_def x y prod.case]]
    note 2 = material_field_inj [OF conjunct2 [OF 1]]
    note 3 = material_field_inj [OF conjunct2 [OF 2]]
    have "endpointIDMaterialField ''llm_api_key'' k @ [] = endpointIDMaterialField ''llm_api_key'' k' @ []"
      using 3 by simp
    from 1 2 3 material_field_inj [OF this] show ?thesis by (simp add: x y)
  qed
  with mat have "endpointIDMaterial c e = endpointIDMaterial c' e' \<longleftrightarrow> id_fields c e = id_fields c' e'"
    by metis
  moreover have "id_fields c (Some (ep\<lparr>ep_Name := name\<rparr>)) = id_fields c (Some ep)"
    by (simp add: id_fields_def)
  ultimately show ?thesis by (simp add: mat)
qed

text \<open>
  C27: \<open>StableUniqueEndpointID\<close> ends and returns an ID that is not taken: the ID the endpoint asks
  for (its own, or the generated one) if that is free, and otherwise that ID with the smallest
  suffix from \<open>-2\<close> on that is free.
\<close>

theorem StableUniqueEndpointID_spec:
  "StableUniqueEndpointID clusterName e taken \<notin> set taken
   \<and> (StableUniqueEndpointID clusterName e taken = base_id clusterName e
      \<or> (base_id clusterName e \<in> set taken
         \<and> (\<exists>k \<ge> 2. StableUniqueEndpointID clusterName e taken = suffixed (base_id clusterName e) k
              \<and> {suffixed (base_id clusterName e) j | j. 2 \<le> j \<and> j < k} \<subseteq> set taken)))"
  using StableUniqueEndpointID_fresh [of clusterName e taken]
    next_suffix_fresh [of "base_id clusterName e" taken 2]
  by (fastforce simp: StableUniqueEndpointID_base)

section \<open>Small values for examples\<close>

definition plain_endpoint :: "string \<Rightarrow> string \<Rightarrow> int \<Rightarrow> Endpoint" where
  "plain_endpoint i host port =
     \<lparr>ep_ID = i, ep_Name = '''',
      ep_Address = \<lparr>sa_Address = host, sa_Port = port, ResolverName = '''', Domains = [],
        CertsDir = ''''\<rparr>,
      ep_Metadata = [], UnHealthy = False, ep_LLMMeta = None\<rparr>"

definition plain_check :: HealthCheckConfig where
  "plain_check =
     \<lparr>hc_Protocol = '''', TimeoutConfig = '''', IntervalConfig = '''', InitialDelaySeconds = '''',
      HealthyThreshold = 1, UnhealthyThreshold = 1, hc_ServiceName = '''', SessionConfig = [],
      CommonCallbacks = []\<rparr>"

end
