(* ===== verification/Pixiu_Retry.thy ===== *)
theory Pixiu_Retry
  imports Pixiu_Endpoints
begin

text \<open>
  Retry policies: \<open>pkg/cluster/retry\<close> with the policies \<open>noretry\<close>, \<open>countbased\<close> and
  \<open>exponentialbackoff\<close>. \<open>Attempt\<close> says whether one more try is allowed and may first sleep; the time
  slept is part of its result here. Decoding the settings of the backoff policy is done by the
  \<open>mapstructure\<close> package: its \<open>Decode\<close> is the parameter \<open>decode\<close>. A \<open>float64\<close> is a rational.
\<close>

section \<open>Policies\<close>

record NoRetryPolicy =
  firstTime :: bool

definition NoRetry_Attempt :: "NoRetryPolicy \<Rightarrow> bool \<times> NoRetryPolicy" where
  "NoRetry_Attempt n = (if \<not> firstTime n then (True, n\<lparr>firstTime := True\<rparr>) else (False, n))"

definition NoRetry_Reset :: "NoRetryPolicy \<Rightarrow> NoRetryPolicy" where
  "NoRetry_Reset n = n\<lparr>firstTime := False\<rparr>"

definition newNoRetryPolicy :: "(string \<times> json) list \<Rightarrow> NoRetryPolicy" where
  "newNoRetryPolicy config = \<lparr>firstTime = False\<rparr>"

record CountBasedRetry =
  cb_MaxAttempts :: "64 word"
  cb_retryTimes :: "64 word"

definition CountBased_Attempt :: "CountBasedRetry \<Rightarrow> bool \<times> CountBasedRetry" where
  "CountBased_Attempt r =
     (if cb_retryTimes r < cb_MaxAttempts r then (True, r\<lparr>cb_retryTimes := cb_retryTimes r + 1\<rparr>)
      else (False, r))"

definition CountBased_Reset :: "CountBasedRetry \<Rightarrow> CountBasedRetry" where
  "CountBased_Reset r = r\<lparr>cb_retryTimes := 0\<rparr>"

text \<open>
  The conversion \<open>int(v)\<close> of a \<open>float64\<close> truncates; a value outside the range of \<open>int\<close> converts to
  some other value, so the comparison refuses it.
\<close>

definition float_int :: "rat \<Rightarrow> int option" where
  "float_int v = (if of_int \<lfloor>v\<rfloor> = v \<and> in_int64 \<lfloor>v\<rfloor> then Some \<lfloor>v\<rfloor> else None)"

definition retry_times :: "json \<Rightarrow> string + int" where
  "retry_times timesValue =
     (case timesValue of
        JInt v \<Rightarrow> Inr v
      | JNumber v \<Rightarrow>
          (case float_int v of
             None \<Rightarrow> Inl ''invalid float value for times, must be a whole number''
           | Some n \<Rightarrow> Inr n)
      | JString v \<Rightarrow>
          (case atoi v of
             None \<Rightarrow> Inl ''could not parse string value for times''
           | Some n \<Rightarrow> Inr n)
      | _ \<Rightarrow> Inl ''invalid type for times, expected a number or a numeric string'')"

definition newCountBasedRetry :: "(string \<times> json) list \<Rightarrow> string + CountBasedRetry" where
  "newCountBasedRetry config =
     (let timesValue = (case map_of config ''times'' of None \<Rightarrow> JInt 2 | Some v \<Rightarrow> v)
      in case retry_times timesValue of
           Inl e \<Rightarrow> Inl e
         | Inr n \<Rightarrow>
             if n < 0 then Inl ''value for times cannot be negative''
             else Inr \<lparr>cb_MaxAttempts = word_of_int n + 1, cb_retryTimes = 0\<rparr>)"

record ExponentialBackoffRetry =
  eb_MaxAttempts :: "64 word"
  InitialInterval :: int
  MaxInterval :: int
  Multiplier :: rat
  eb_retryTimes :: "64 word"

record ExponentialBackoffConfig =
  Times :: "64 word"
  cfg_InitialInterval :: string
  cfg_MaxInterval :: string
  cfg_Multiplier :: rat

text \<open>The wait before a retry; the jitter is the number of milliseconds drawn below 100.\<close>

definition backoff_wait :: "ExponentialBackoffRetry \<Rightarrow> nat \<Rightarrow> int" where
  "backoff_wait e jitter =
     (if eb_retryTimes e > 0 then
        (let backoff = of_int (InitialInterval e) * Multiplier e ^ (unat (eb_retryTimes e) - 1);
             m = min backoff (of_int (MaxInterval e));
             cappedBackoff = (if m < 0 then \<lceil>m\<rceil> else \<lfloor>m\<rfloor>)
         in cappedBackoff + int jitter * 10 ^ 6)
      else 0)"

definition Exponential_Attempt ::
    "nat \<Rightarrow> ExponentialBackoffRetry \<Rightarrow> bool \<times> int \<times> ExponentialBackoffRetry" where
  "Exponential_Attempt jitter e =
     (if eb_retryTimes e \<ge> eb_MaxAttempts e then (False, 0, e)
      else (True, backoff_wait e jitter, e\<lparr>eb_retryTimes := eb_retryTimes e + 1\<rparr>))"

definition Exponential_Reset :: "ExponentialBackoffRetry \<Rightarrow> ExponentialBackoffRetry" where
  "Exponential_Reset e = e\<lparr>eb_retryTimes := 0\<rparr>"

definition default_backoff :: ExponentialBackoffConfig where
  "default_backoff = \<lparr>Times = 2, cfg_InitialInterval = ''100ms'', cfg_MaxInterval = ''5s'',
     cfg_Multiplier = 2\<rparr>"

definition newExponentialBackoffRetry ::
    "((string \<times> json) list \<Rightarrow> ExponentialBackoffConfig \<Rightarrow> string + ExponentialBackoffConfig)
     \<Rightarrow> (string \<times> json) list \<Rightarrow> string + ExponentialBackoffRetry" where
  "newExponentialBackoffRetry decode config =
     (case decode config default_backoff of
        Inl e \<Rightarrow> Inl (''failed to decode exponential backoff config: '' @ e)
      | Inr cfg \<Rightarrow>
          (case ParseDuration (cfg_InitialInterval cfg) of
             None \<Rightarrow> Inl ''invalid initialInterval''
           | Some initial \<Rightarrow>
               (case ParseDuration (cfg_MaxInterval cfg) of
                  None \<Rightarrow> Inl ''invalid maxInterval''
                | Some duration \<Rightarrow>
                    Inr \<lparr>eb_MaxAttempts = Times cfg + 1, InitialInterval = initial,
                      MaxInterval = duration, Multiplier = cfg_Multiplier cfg,
                      eb_retryTimes = 0\<rparr>)))"

section \<open>The registry\<close>

datatype retry_policy =
    NoRetry NoRetryPolicy
  | CountBased CountBasedRetry
  | Exponential ExponentialBackoffRetry

text \<open>A policy's \<open>Attempt\<close> and \<open>Reset\<close> through the interface, with the jitter it would draw.\<close>

fun Attempt :: "nat \<Rightarrow> retry_policy \<Rightarrow> bool \<times> retry_policy" where
  "Attempt jitter (NoRetry n) = (let (ok, n) = NoRetry_Attempt n in (ok, NoRetry n))"
| "Attempt jitter (CountBased r) = (let (ok, r) = CountBased_Attempt r in (ok, CountBased r))"
| "Attempt jitter (Exponential e) =
     (let (ok, wait, e) = Exponential_Attempt jitter e in (ok, Exponential e))"

fun Reset :: "retry_policy \<Rightarrow> retry_policy" where
  "Reset (NoRetry n) = NoRetry (NoRetry_Reset n)"
| "Reset (CountBased r) = CountBased (CountBased_Reset r)"
| "Reset (Exponential e) = Exponential (Exponential_Reset e)"

type_synonym factory = "(string \<times> json) list \<Rightarrow> string + retry_policy"
type_synonym registry = "(string \<times> factory) list"

definition RegisterRetryPolicy :: "string \<Rightarrow> factory \<Rightarrow> registry \<Rightarrow> registry" where
  "RegisterRetryPolicy name factory reg = (lower name, factory) # reg"

definition map_result :: "('a \<Rightarrow> 'b) \<Rightarrow> 'e + 'a \<Rightarrow> 'e + 'b" where
  "map_result f r = (case r of Inl e \<Rightarrow> Inl e | Inr x \<Rightarrow> Inr (f x))"

text \<open>The registry after the packages' \<open>init\<close> functions.\<close>

definition retryPolicyRegistry ::
    "((string \<times> json) list \<Rightarrow> ExponentialBackoffConfig \<Rightarrow> string + ExponentialBackoffConfig)
     \<Rightarrow> registry" where
  "retryPolicyRegistry decode =
     RegisterRetryPolicy ''NoRetry'' (\<lambda>c. Inr (NoRetry (newNoRetryPolicy c)))
       (RegisterRetryPolicy ''CountBased'' (\<lambda>c. map_result CountBased (newCountBasedRetry c))
         (RegisterRetryPolicy ''ExponentialBackoff''
            (\<lambda>c. map_result Exponential (newExponentialBackoffRetry decode c)) []))"

text \<open>An endpoint without LLM metadata is a nil dereference, here \<open>None\<close>.\<close>

definition GetRetryPolicy :: "registry \<Rightarrow> Endpoint \<Rightarrow> (string + retry_policy) option" where
  "GetRetryPolicy reg endpoint =
     (case ep_LLMMeta endpoint of
        None \<Rightarrow> None
      | Some meta \<Rightarrow>
          Some (case map_of reg (lower (rp_Name (llm_RetryPolicy meta))) of
             None \<Rightarrow> Inl (''unknown retry policy type '' @ rp_Name (llm_RetryPolicy meta)
                          @ '' specified for endpoint '' @ ep_ID endpoint)
           | Some factory \<Rightarrow> factory (rp_Config (llm_RetryPolicy meta))))"

section \<open>The contract of a retry policy\<close>

text \<open>The answers of a policy to a sequence of attempts.\<close>

fun attempts :: "('j \<Rightarrow> 'p \<Rightarrow> bool \<times> 'p) \<Rightarrow> 'j list \<Rightarrow> 'p \<Rightarrow> bool list \<times> 'p" where
  "attempts att [] p = ([], p)"
| "attempts att (j # js) p =
     (let (ok, p) = att j p; (oks, p) = attempts att js p in (ok # oks, p))"

text \<open>
  What the callers of \<open>RetryPolicy\<close> rely on: a policy grants the attempts left to it and no more,
  and \<open>Reset\<close> gives it its whole budget again.
\<close>

locale retry_contract =
  fixes att :: "'j \<Rightarrow> 'p \<Rightarrow> bool \<times> 'p" and reset :: "'p \<Rightarrow> 'p"
    and budget remaining :: "'p \<Rightarrow> nat" and good :: "'p \<Rightarrow> bool"
  assumes granted: "good p \<Longrightarrow> 0 < remaining p \<Longrightarrow> fst (att j p)
      \<and> good (snd (att j p)) \<and> budget (snd (att j p)) = budget p
      \<and> remaining (snd (att j p)) = remaining p - 1"
    and refused: "good p \<Longrightarrow> remaining p = 0 \<Longrightarrow> att j p = (False, p)"
    and reset_law: "good p \<Longrightarrow> good (reset p) \<and> budget (reset p) = budget p
      \<and> remaining (reset p) = budget p"
begin

lemma attempts_budget:
  assumes "good p"
  shows "fst (attempts att js p) =
      replicate (min (length js) (remaining p)) True
      @ replicate (length js - remaining p) False"
    and "good (snd (attempts att js p)) \<and> budget (snd (attempts att js p)) = budget p"
  using assms
proof (induction js arbitrary: p)
  case Nil
  {
    case 1
    then show ?case by simp
  next
    case 2
    then show ?case by simp
  }
next
  case (Cons j js)
  have un: "attempts att (j # js) p = (fst (att j p) # fst (attempts att js (snd (att j p))),
      snd (attempts att js (snd (att j p))))" for p
    by (simp add: case_prod_beta Let_def)
  {
    case 1
    show ?case
    proof (cases "remaining p")
      case 0
      with 1 Cons.IH(1) [of p] show ?thesis by (simp add: un refused del: attempts.simps)
    next
      case (Suc n)
      with 1 granted [of p j] Cons.IH(1) [of "snd (att j p)"] show ?thesis
        by (simp add: un del: attempts.simps)
    qed
  next
    case 2
    show ?case
    proof (cases "remaining p")
      case 0
      with 2 Cons.IH(2) [of p] show ?thesis by (simp add: un refused del: attempts.simps)
    next
      case (Suc n)
      with 2 granted [of p j] Cons.IH(2) [of "snd (att j p)"] show ?thesis
        by (simp add: un del: attempts.simps)
    qed
  }
qed

lemma attempts_after_reset:
  assumes "good p"
  shows "fst (attempts att js (reset (snd (attempts att js' p)))) =
      replicate (min (length js) (budget p)) True @ replicate (length js - budget p) False"
  using attempts_budget(2) [OF assms, of js'] reset_law attempts_budget(1) by simp

end

definition policy_budget :: "retry_policy \<Rightarrow> nat" where
  "policy_budget p = (case p of NoRetry _ \<Rightarrow> 1 | CountBased r \<Rightarrow> unat (cb_MaxAttempts r)
     | Exponential e \<Rightarrow> unat (eb_MaxAttempts e))"

definition policy_left :: "retry_policy \<Rightarrow> nat" where
  "policy_left p = (case p of NoRetry n \<Rightarrow> if firstTime n then 0 else 1
     | CountBased r \<Rightarrow> unat (cb_MaxAttempts r) - unat (cb_retryTimes r)
     | Exponential e \<Rightarrow> unat (eb_MaxAttempts e) - unat (eb_retryTimes e))"

lemma below_max:
  fixes k m :: "64 word"
  assumes "k < m"
  shows "unat (k + 1) = Suc (unat k)"
  using assms unsigned_less [of m, where ?'a = nat]
  by (simp add: unat_word_ariths word_less_nat_alt)

interpretation policies: retry_contract Attempt Reset policy_budget policy_left "\<lambda>p. True"
proof
  fix p :: retry_policy and j
  assume left: "0 < policy_left p"
  show "fst (Attempt j p) \<and> True \<and> policy_budget (snd (Attempt j p)) = policy_budget p
      \<and> policy_left (snd (Attempt j p)) = policy_left p - 1"
  proof (cases p)
    case (NoRetry n)
    with left show ?thesis
      by (auto simp: NoRetry_Attempt_def policy_budget_def policy_left_def split: if_splits)
  next
    case (CountBased r)
    with left have "cb_retryTimes r < cb_MaxAttempts r"
      by (simp add: policy_left_def word_less_nat_alt)
    with CountBased below_max [OF this] show ?thesis
      by (simp add: CountBased_Attempt_def policy_budget_def policy_left_def)
  next
    case (Exponential e)
    with left have "eb_retryTimes e < eb_MaxAttempts e"
      by (simp add: policy_left_def word_less_nat_alt)
    with Exponential below_max [OF this] show ?thesis
      by (simp add: Exponential_Attempt_def policy_budget_def policy_left_def)
  qed
next
  fix p :: retry_policy and j
  assume "policy_left p = 0"
  then show "Attempt j p = (False, p)"
    by (cases p) (auto simp: NoRetry_Attempt_def CountBased_Attempt_def Exponential_Attempt_def
        policy_left_def word_less_nat_alt word_le_nat_alt split: if_splits)
next
  fix p :: retry_policy
  show "True \<and> policy_budget (Reset p) = policy_budget p \<and> policy_left (Reset p) = policy_budget p"
    by (cases p) (simp_all add: NoRetry_Reset_def CountBased_Reset_def Exponential_Reset_def
        policy_budget_def policy_left_def)
qed

lemma fresh_policy_left:
  assumes "GetRetryPolicy (retryPolicyRegistry decode) ep = Some (Inr p)"
  shows "policy_left p = policy_budget p"
proof -
  obtain meta :: LLMMeta and factory where "map_of (retryPolicyRegistry decode)
      (lower (rp_Name (llm_RetryPolicy meta))) = Some factory"
    "factory (rp_Config (llm_RetryPolicy meta)) = Inr p"
    using assms by (auto simp: GetRetryPolicy_def split: option.splits)
  then show ?thesis
    by (auto simp: retryPolicyRegistry_def RegisterRetryPolicy_def map_result_def policy_left_def
        policy_budget_def newNoRetryPolicy_def newCountBasedRetry_def newExponentialBackoffRetry_def
        Let_def split: if_splits sum.splits option.splits)
qed

text \<open>
  C24: a policy grants exactly its budget. A policy made by \<open>GetRetryPolicy\<close> answers any sequence of
  attempts with true as long as its budget lasts and with false from then on, whatever jitter is
  drawn; after \<open>Reset\<close>, at any point, it does so again from the start. The budget is one for
  \<open>NoRetry\<close> and \<open>MaxAttempts\<close> for the others.
\<close>

theorem retry_budget:
  assumes "GetRetryPolicy (retryPolicyRegistry decode) ep = Some (Inr p)"
  shows "fst (attempts Attempt js p) =
      replicate (min (length js) (policy_budget p)) True
      @ replicate (length js - policy_budget p) False
    \<and> fst (attempts Attempt js' (Reset (snd (attempts Attempt js p)))) =
      replicate (min (length js') (policy_budget p)) True
      @ replicate (length js' - policy_budget p) False"
  using policies.attempts_budget(1) [where p = p and js = js]
    policies.attempts_after_reset [where p = p and js = js' and js' = js]
    fresh_policy_left [OF assms] by simp

definition sample_llm :: "string \<Rightarrow> (string \<times> json) list \<Rightarrow> Endpoint" where
  "sample_llm policy config = \<lparr>ep_ID = ''e'', ep_Name = '''', ep_Address = \<lparr>sa_Address = ''h'',
     sa_Port = 80, ResolverName = '''', Domains = [], CertsDir = ''''\<rparr>, ep_Metadata = [],
     UnHealthy = False, ep_LLMMeta = Some \<lparr>Provider = ''p'', APIKey = ''k'',
       llm_RetryPolicy = \<lparr>rp_Name = policy, rp_Config = config\<rparr>, Fallback = False,
       HealthCheckInterval = 5000\<rparr>\<rparr>"

lemma lower_names:
  "lower ''NoRetry'' = ''noretry''" "lower ''CountBased'' = ''countbased''"
  "lower ''ExponentialBackoff'' = ''exponentialbackoff''" "lower ''countBASED'' = ''countbased''"
  by (simp_all add: lower_def char_of_def bit_iff_odd)

theorem retry_budget_witness:
  "\<exists>p. GetRetryPolicy (retryPolicyRegistry (\<lambda>c d. Inr d)) (sample_llm ''countBASED'' [(''times'', JInt 1)])
       = Some (Inr p)
     \<and> fst (attempts Attempt [0, 0, 0] p) = [True, True, False]"
proof -
  let ?p = "CountBased \<lparr>cb_MaxAttempts = 2, cb_retryTimes = 0\<rparr>"
  have g: "GetRetryPolicy (retryPolicyRegistry (\<lambda>c d. Inr d)) (sample_llm ''countBASED'' [(''times'', JInt 1)])
      = Some (Inr ?p)"
    by (simp add: GetRetryPolicy_def sample_llm_def retryPolicyRegistry_def RegisterRetryPolicy_def
        lower_names map_result_def newCountBasedRetry_def retry_times_def Let_def)
  have "policy_budget ?p = 2" by (simp add: policy_budget_def)
  then have "fst (attempts Attempt [0, 0, 0] ?p) = [True, True, False]"
    using retry_budget [OF g, of "[0, 0, 0]" "[]"] by (simp add: numeral_2_eq_2)
  with g show ?thesis by blast
qed

text \<open>
  The configured number of retries. \<open>newCountBasedRetry\<close> refuses a negative, fractional or
  unreadable \<open>times\<close>, and otherwise makes a policy whose budget is one more than \<open>times\<close> (three when
  the setting is absent); the addition does not wrap.
\<close>

theorem newCountBasedRetry_budget:
  "newCountBasedRetry config =
     (case retry_times (case map_of config ''times'' of None \<Rightarrow> JInt 2 | Some v \<Rightarrow> v) of
        Inl e \<Rightarrow> Inl e
      | Inr n \<Rightarrow> if n < 0 then Inl ''value for times cannot be negative''
          else Inr \<lparr>cb_MaxAttempts = word_of_int (n + 1), cb_retryTimes = 0\<rparr>)
   \<and> (0 \<le> n \<and> in_int64 n \<longrightarrow> uint (word_of_int (n + 1) :: 64 word) = n + 1)"
proof (intro conjI impI)
  assume "0 \<le> n \<and> in_int64 n"
  then show "uint (word_of_int (n + 1) :: 64 word) = n + 1"
    by (subst uint_word_of_int_eq) (simp add: take_bit_eq_mod in_int64_def)
qed (simp add: newCountBasedRetry_def split: sum.splits)

theorem newCountBasedRetry_budget_witness:
  "newCountBasedRetry [(''times'', JString ''4'')] = Inr \<lparr>cb_MaxAttempts = 5, cb_retryTimes = 0\<rparr>
   \<and> uint (word_of_int (4 + 1) :: 64 word) = 5"
proof -
  have t: "retry_times (JString ''4'') = Inr 4" by code_simp
  have r: "0 \<le> (4 :: int) \<and> in_int64 4" by (simp add: in_int64_def)
  show ?thesis
    using newCountBasedRetry_budget [of "[(''times'', JString ''4'')]" 4] t r by simp
qed



end
