(* ===== verification/Pixiu_HealthCheck.thy ===== *)
theory Pixiu_HealthCheck
  imports Pixiu_Endpoints "HOL-Library.AList"
begin

text \<open>
  Active health checking: \<open>pkg/cluster/healthcheck\<close>. A checker holds one session per network
  address; a session turns the results of its probes into health events after a number of equal
  results in a row. Whether a probe succeeds is decided by the network and is an input of the model;
  the address it dials is modelled. The map of sessions is an association list.

  The endpoints of the checker's cluster configuration are a list of options; an endpoint pointer
  that comes from this list is given by its position, any other pointer by \<open>None\<close>.
\<close>

section \<open>Addresses\<close>

text \<open>\<open>net.SplitHostPort\<close> and \<open>net.JoinHostPort\<close>.\<close>

datatype addr_error = MissingPort | TooManyColons | BadBracket

definition last_index :: "char \<Rightarrow> string \<Rightarrow> nat option" where
  "last_index c s = (if c \<in> set s then Some (length s - 1 - length (takeWhile (\<lambda>x. x \<noteq> c) (rev s)))
     else None)"

definition first_index :: "char \<Rightarrow> string \<Rightarrow> nat option" where
  "first_index c s = (if c \<in> set s then Some (length (takeWhile (\<lambda>x. x \<noteq> c) s)) else None)"

definition SplitHostPort :: "string \<Rightarrow> addr_error + string \<times> string" where
  "SplitHostPort hostport =
     (case last_index (CHR '':'') hostport of
        None \<Rightarrow> Inl MissingPort
      | Some i \<Rightarrow>
          (let finish = (\<lambda>host j k.
                 if CHR ''['' \<in> set (drop j hostport) \<or> CHR '']'' \<in> set (drop k hostport)
                 then Inl BadBracket else Inr (host, drop (i + 1) hostport))
           in if has_prefix hostport ''['' then
                (case first_index (CHR '']'') hostport of
                   None \<Rightarrow> Inl BadBracket
                 | Some e \<Rightarrow>
                     if e + 1 = length hostport then Inl MissingPort
                     else if e + 1 = i then finish (take (e - 1) (drop 1 hostport)) 1 (e + 1)
                     else if hostport ! (e + 1) = CHR '':'' then Inl TooManyColons
                     else Inl MissingPort)
              else
                (let host = take i hostport
                 in if CHR '':'' \<in> set host then Inl TooManyColons else finish host 0 0)))"

definition JoinHostPort :: "string \<Rightarrow> string \<Rightarrow> string" where
  "JoinHostPort host port =
     (if CHR '':'' \<in> set host then ''['' @ host @ '']:'' @ port else host @ '':'' @ port)"

definition trim_brackets :: "string \<Rightarrow> string" where
  "trim_brackets s =
     (let b = (\<lambda>c. c = CHR ''['' \<or> c = CHR '']'')
      in rev (dropWhile b (rev (dropWhile b s))))"

definition normalizeAddress :: "string \<Rightarrow> string \<Rightarrow> addr_error + string" where
  "normalizeAddress address port =
     (if port = '''' then
        (case SplitHostPort address of Inl e \<Rightarrow> Inl e | Inr _ \<Rightarrow> Inr address)
      else
        (case SplitHostPort address of
           Inl MissingPort \<Rightarrow> Inr (JoinHostPort (trim_brackets address) port)
         | Inl e \<Rightarrow> Inl e
         | Inr (host, existingPort) \<Rightarrow>
             if existingPort \<noteq> port then Inr (JoinHostPort host port) else Inr address))"

datatype probe_kind = TCPChecker | HTTPChecker | HTTPSChecker

text \<open>
  A probe connects to the normalised address; \<open>dial\<close> says whether the connection succeeds within
  the timeout.
\<close>

definition CheckTcpConn :: "(string \<Rightarrow> int \<Rightarrow> bool) \<Rightarrow> string \<Rightarrow> string \<Rightarrow> int \<Rightarrow> bool" where
  "CheckTcpConn dial address port tmo =
     (case normalizeAddress address port of
        Inl _ \<Rightarrow> False
      | Inr a \<Rightarrow> dial a tmo)"

definition CheckHealth :: "(string \<Rightarrow> int \<Rightarrow> bool) \<Rightarrow> probe_kind \<Rightarrow> string \<Rightarrow> int \<Rightarrow> bool" where
  "CheckHealth dial kind address tmo =
     (case kind of
        TCPChecker \<Rightarrow> CheckTcpConn dial address '''' tmo
      | HTTPChecker \<Rightarrow> CheckTcpConn dial address ''80'' tmo
      | HTTPSChecker \<Rightarrow> CheckTcpConn dial address ''443'' tmo)"

section \<open>Sessions\<close>

record EndpointChecker =
  ec_endpoint :: "nat option"
  ec_endpointID :: string
  endpointAddr :: string
  ec_checker :: probe_kind
  checkID :: "64 word"
  ec_stopped :: bool
  checkTimer :: bool
  checkTimeout :: bool
  unHealthCount :: "32 word"
  healthCount :: "32 word"

record HealthChecker =
  checkers :: "(string \<times> EndpointChecker) list"
  hc_sessionConfig :: "(string \<times> json) list"
  hc_timeout :: int
  intervalBase :: int
  healthyThreshold :: "32 word"
  initialDelay :: int
  hc_endpoints :: "Endpoint option list"
  unhealthyThreshold :: "32 word"
  hc_protocol :: string
  hasCallback :: bool

definition CreateHealthCheckWithCallback ::
    "Endpoint option list \<Rightarrow> HealthCheckConfig \<Rightarrow> bool \<Rightarrow> HealthChecker" where
  "CreateHealthCheckWithCallback eps cfg callback =
     (let second = 10 ^ 9
      in \<lparr>checkers = [],
          hc_sessionConfig = SessionConfig cfg,
          hc_timeout = (case ParseDuration (TimeoutConfig cfg) of None \<Rightarrow> second | Some d \<Rightarrow> d),
          intervalBase =
            (case ParseDuration (IntervalConfig cfg) of None \<Rightarrow> 3 * second | Some d \<Rightarrow> d),
          healthyThreshold = (if HealthyThreshold cfg = 0 then 5 else HealthyThreshold cfg),
          initialDelay =
            (case atoi (InitialDelaySeconds cfg) of None \<Rightarrow> 5 * second | Some n \<Rightarrow> wrap64 (n * second)),
          hc_endpoints = eps,
          unhealthyThreshold = (if UnhealthyThreshold cfg = 0 then 5 else UnhealthyThreshold cfg),
          hc_protocol = hc_Protocol cfg,
          hasCallback = callback\<rparr>)"

definition CreateHealthCheck :: "Endpoint option list \<Rightarrow> HealthCheckConfig \<Rightarrow> HealthChecker" where
  "CreateHealthCheck eps cfg = CreateHealthCheckWithCallback eps cfg False"

definition newChecker :: "nat option \<Rightarrow> Endpoint \<Rightarrow> HealthChecker \<Rightarrow> EndpointChecker" where
  "newChecker ptr endpoint hc =
     \<lparr>ec_endpoint = ptr, ec_endpointID = ep_ID endpoint,
      endpointAddr = GetAddress (ep_Address endpoint),
      ec_checker =
        (let p = lower (hc_protocol hc)
         in if p = ''tcp'' then TCPChecker else if p = ''http'' then HTTPChecker
            else if p = ''https'' then HTTPSChecker else TCPChecker),
      checkID = 0, ec_stopped = False, checkTimer = False, checkTimeout = False,
      unHealthCount = 0, healthCount = 0\<rparr>"

text \<open>
  The start of a session's goroutine arms the first check and prepares the first check number; its
  end, after \<open>Stop\<close> closed the channel, disarms the timers. \<open>checkTimer\<close> says whether the timer of
  the next probe is pending, \<open>checkTimeout\<close> whether the field of that name is set.
\<close>

definition checker_Start :: "EndpointChecker \<Rightarrow> EndpointChecker" where
  "checker_Start c = c\<lparr>checkTimer := True, checkID := checkID c + 1\<rparr>"

definition checker_Stop :: "EndpointChecker \<Rightarrow> EndpointChecker" where
  "checker_Stop c = c\<lparr>ec_stopped := True, checkTimer := False\<rparr>"

definition startCheck :: "nat option \<Rightarrow> Endpoint option \<Rightarrow> HealthChecker \<Rightarrow> HealthChecker" where
  "startCheck ptr endpoint hc =
     (case endpoint of
        None \<Rightarrow> hc
      | Some e \<Rightarrow>
          (let addr = GetAddress (ep_Address e)
           in if map_of (checkers hc) addr = None
              then hc\<lparr>checkers := AList.update addr (checker_Start (newChecker ptr e hc)) (checkers hc)\<rparr>
              else hc))"

definition hasOtherEndpointWithAddress ::
    "nat option \<Rightarrow> Endpoint \<Rightarrow> string \<Rightarrow> HealthChecker \<Rightarrow> bool" where
  "hasOtherEndpointWithAddress ptr endpoint addr hc \<longleftrightarrow>
     (\<exists>i < length (hc_endpoints hc).
        case hc_endpoints hc ! i of
          None \<Rightarrow> False
        | Some candidate \<Rightarrow>
            Some i \<noteq> ptr
            \<and> \<not> (ep_ID endpoint \<noteq> '''' \<and> ep_ID candidate = ep_ID endpoint)
            \<and> GetAddress (ep_Address candidate) = addr)"

text \<open>\<open>stopCheck\<close> returns the sessions it ended as well.\<close>

definition stopCheck ::
    "nat option \<Rightarrow> Endpoint option \<Rightarrow> HealthChecker \<Rightarrow> EndpointChecker list \<times> HealthChecker" where
  "stopCheck ptr endpoint hc =
     (case endpoint of
        None \<Rightarrow> ([], hc)
      | Some e \<Rightarrow>
          (let addr = GetAddress (ep_Address e)
           in if hasOtherEndpointWithAddress ptr e addr hc then ([], hc)
              else
                (case map_of (checkers hc) addr of
                   None \<Rightarrow> ([], hc)
                 | Some c \<Rightarrow>
                     ([checker_Stop c], hc\<lparr>checkers := AList.delete addr (checkers hc)\<rparr>))))"

definition StartOne :: "nat option \<Rightarrow> Endpoint option \<Rightarrow> HealthChecker \<Rightarrow> HealthChecker" where
  "StartOne ptr endpoint hc = startCheck ptr endpoint hc"

definition StopOne ::
    "nat option \<Rightarrow> Endpoint option \<Rightarrow> HealthChecker \<Rightarrow> EndpointChecker list \<times> HealthChecker" where
  "StopOne ptr endpoint hc = stopCheck ptr endpoint hc"

fun start_all :: "nat \<Rightarrow> Endpoint option list \<Rightarrow> HealthChecker \<Rightarrow> HealthChecker" where
  "start_all i [] hc = hc"
| "start_all i (e # es) hc = start_all (i + 1) es (startCheck (Some i) e hc)"

definition checker_StartAll :: "HealthChecker \<Rightarrow> HealthChecker" where
  "checker_StartAll hc = start_all 0 (hc_endpoints hc) hc"

definition checker_StopAll :: "HealthChecker \<Rightarrow> EndpointChecker list \<times> HealthChecker" where
  "checker_StopAll hc = (map (checker_Stop \<circ> snd) (checkers hc), hc\<lparr>checkers := []\<rparr>)"

section \<open>Probe results\<close>

record EndpointHealthEvent =
  ev_EndpointID :: string
  ev_EndpointAddress :: string
  ev_Healthy :: bool

definition handleHealth :: "EndpointChecker \<Rightarrow> EndpointChecker \<times> bool option" where
  "handleHealth c = (c\<lparr>healthCount := 0, unHealthCount := 0\<rparr>, Some True)"

definition handleUnHealth :: "EndpointChecker \<Rightarrow> EndpointChecker \<times> bool option" where
  "handleUnHealth c = (c\<lparr>healthCount := 0, unHealthCount := 0\<rparr>, Some False)"

text \<open>The second component is the health the session emits, if any.\<close>

definition HandleSuccess :: "HealthChecker \<Rightarrow> EndpointChecker \<Rightarrow> EndpointChecker \<times> bool option" where
  "HandleSuccess hc c =
     (let c = c\<lparr>unHealthCount := 0, healthCount := healthCount c + 1\<rparr>
      in if healthCount c \<ge> healthyThreshold hc then handleHealth c else (c, None))"

definition HandleFailure :: "HealthChecker \<Rightarrow> EndpointChecker \<Rightarrow> EndpointChecker \<times> bool option" where
  "HandleFailure hc c =
     (let c = c\<lparr>healthCount := 0, unHealthCount := unHealthCount c + 1\<rparr>
      in if unHealthCount c \<ge> unhealthyThreshold hc then handleUnHealth c else (c, None))"

definition HandleTimeout :: "HealthChecker \<Rightarrow> EndpointChecker \<Rightarrow> EndpointChecker \<times> bool option" where
  "HandleTimeout hc c = HandleFailure hc c"

text \<open>
  The receiving half of the session loop: a response with the number of the current check, any
  other response, or a timeout. Each turn of the loop takes the next check number.
\<close>

datatype signal = Response "64 word" bool | TimedOut

definition checker_turn ::
    "HealthChecker \<Rightarrow> signal \<Rightarrow> EndpointChecker \<Rightarrow> EndpointChecker \<times> bool option" where
  "checker_turn hc sig c =
     (let (c, emitted) =
        (case sig of
           Response i healthy \<Rightarrow>
             if i = checkID c then
               (let c = c\<lparr>checkTimeout := False\<rparr>;
                    (c, emitted) = (if healthy then HandleSuccess hc c else HandleFailure hc c)
                in (c\<lparr>checkTimer := True\<rparr>, emitted))
             else (c, None)
         | TimedOut \<Rightarrow>
             (let (c, emitted) = HandleFailure hc c in (c\<lparr>checkTimer := True\<rparr>, emitted)))
      in (c\<lparr>checkID := checkID c + 1\<rparr>, emitted))"

text \<open>\<open>OnCheck\<close> starts a probe that will answer under the current number.\<close>

definition OnCheck :: "EndpointChecker \<Rightarrow> EndpointChecker \<times> 64 word" where
  "OnCheck c = (c\<lparr>checkTimer := False, checkTimeout := True\<rparr>, checkID c)"

definition setEndpointAddressHealth ::
    "string \<Rightarrow> bool \<Rightarrow> HealthChecker \<Rightarrow> bool \<times> HealthChecker" where
  "setEndpointAddressHealth addr healthy hc =
     (let hit = (\<lambda>e. GetAddress (ep_Address e) = addr)
      in (\<exists>e \<in> set (somes (hc_endpoints hc)). hit e,
          hc\<lparr>hc_endpoints := map (map_option (\<lambda>e.
             if hit e then e\<lparr>UnHealthy := \<not> healthy\<rparr> else e)) (hc_endpoints hc)\<rparr>))"

text \<open>
  \<open>emitHealth\<close>: the event for the callback, or without one the change of the configuration.
\<close>

definition emitHealth ::
    "EndpointChecker \<Rightarrow> bool \<Rightarrow> HealthChecker \<Rightarrow> EndpointHealthEvent option \<times> HealthChecker" where
  "emitHealth c healthy hc =
     (if \<not> hasCallback hc then
        (let (updated, hc') = setEndpointAddressHealth (endpointAddr c) healthy hc
         in (None,
             if updated then hc'
             else (case ec_endpoint c of
                     None \<Rightarrow> hc'
                   | Some i \<Rightarrow> hc'\<lparr>hc_endpoints := (hc_endpoints hc')[i :=
                       map_option (\<lambda>e. e\<lparr>UnHealthy := \<not> healthy\<rparr>) (hc_endpoints hc' ! i)]\<rparr>)))
      else
        (Some \<lparr>ev_EndpointID = ec_endpointID c, ev_EndpointAddress = endpointAddr c,
           ev_Healthy = healthy\<rparr>, hc))"

section \<open>What probing promises\<close>

subsection \<open>Thresholds\<close>

text \<open>The events a session emits for a sequence of probe results.\<close>

fun probe_run :: "HealthChecker \<Rightarrow> bool list \<Rightarrow> EndpointChecker \<Rightarrow> bool option list" where
  "probe_run hc [] c = []"
| "probe_run hc (b # bs) c =
     (let (c, emitted) = (if b then HandleSuccess hc c else HandleFailure hc c)
      in emitted # probe_run hc bs c)"

text \<open>
  The reference: count the length of the current run of equal results, without ever resetting or
  wrapping; an event is due when the length is a multiple of the threshold.
\<close>

fun run_events :: "nat \<Rightarrow> nat \<Rightarrow> bool \<Rightarrow> nat \<Rightarrow> bool list \<Rightarrow> bool option list" where
  "run_events up down prev n [] = []"
| "run_events up down prev n (b # bs) =
     (let n = (if b = prev then n + 1 else 1)
      in (if (if b then up else down) dvd n then Some b else None) # run_events up down b n bs)"

definition counts :: "HealthChecker \<Rightarrow> bool \<Rightarrow> nat \<Rightarrow> EndpointChecker \<Rightarrow> bool" where
  "counts hc prev n c \<longleftrightarrow>
     (if prev then unat (healthCount c) = n mod unat (healthyThreshold hc) \<and> unHealthCount c = 0
      else unat (unHealthCount c) = n mod unat (unhealthyThreshold hc) \<and> healthCount c = 0)"

text \<open>One step of a counter below its threshold.\<close>

lemma counter_step:
  fixes k th :: "32 word"
  assumes "th \<noteq> 0" and "unat k = n mod unat th"
  shows "k + 1 \<ge> th \<longleftrightarrow> unat th dvd n + 1"
    and "\<not> k + 1 \<ge> th \<Longrightarrow> unat (k + 1) = (n + 1) mod unat th"
proof -
  have pos: "0 < unat th" using assms(1) by (simp add: unat_gt_0)
  have lt: "unat k < unat th" using assms(2) pos by simp
  have bound: "unat th < 2 ^ 32" using unsigned_less [of th, where ?'a = nat] by simp
  have suc: "unat (k + 1) = n mod unat th + 1"
    using lt bound assms(2) by (simp add: unat_word_ariths)
  have dvd: "unat th dvd n + 1 \<longleftrightarrow> n mod unat th + 1 = unat th"
    using pos by (metis Suc_eq_plus1 dvd_eq_mod_eq_0 mod_Suc nat.distinct(1))
  show iff: "k + 1 \<ge> th \<longleftrightarrow> unat th dvd n + 1"
    using suc dvd lt assms(2) by (simp add: word_le_nat_alt) linarith
  show "\<not> k + 1 \<ge> th \<Longrightarrow> unat (k + 1) = (n + 1) mod unat th"
    using suc dvd iff by (simp add: mod_Suc)
qed

lemma probe_step:
  assumes "healthyThreshold hc \<noteq> 0" and "unhealthyThreshold hc \<noteq> 0" and "counts hc prev n c"
    and m_def: "m = (if b = prev then n + 1 else 1)"
  shows "\<exists>c'. (if b then HandleSuccess hc c else HandleFailure hc c) =
      (c', if (if b then unat (healthyThreshold hc) else unat (unhealthyThreshold hc)) dvd m
           then Some b else None)
    \<and> counts hc b m c'"
proof (cases b)
  case True
  have k: "unat (healthCount c) = (m - 1) mod unat (healthyThreshold hc)"
    using assms(3) True by (auto simp: counts_def m_def split: if_splits)
  have m: "m - 1 + 1 = m" by (simp add: m_def)
  from counter_step [OF assms(1) k] True show ?thesis
    unfolding m by (auto simp: HandleSuccess_def handleHealth_def counts_def Let_def dvd_eq_mod_eq_0)
next
  case False
  have k: "unat (unHealthCount c) = (m - 1) mod unat (unhealthyThreshold hc)"
    using assms(3) False by (auto simp: counts_def m_def split: if_splits)
  have m: "m - 1 + 1 = m" by (simp add: m_def)
  from counter_step [OF assms(2) k] False show ?thesis
    unfolding m by (auto simp: HandleFailure_def handleUnHealth_def counts_def Let_def dvd_eq_mod_eq_0)
qed

lemma probe_run_events:
  assumes "healthyThreshold hc \<noteq> 0" and "unhealthyThreshold hc \<noteq> 0" and "counts hc prev n c"
  shows "probe_run hc bs c =
    run_events (unat (healthyThreshold hc)) (unat (unhealthyThreshold hc)) prev n bs"
  using assms(3)
proof (induction bs arbitrary: prev n c)
  case Nil
  then show ?case by simp
next
  case (Cons b bs)
  obtain c' where "(if b then HandleSuccess hc c else HandleFailure hc c) =
      (c', if (if b then unat (healthyThreshold hc) else unat (unhealthyThreshold hc))
             dvd (if b = prev then n + 1 else 1) then Some b else None)"
    and "counts hc b (if b = prev then n + 1 else 1) c'"
    using probe_step [OF assms(1,2) Cons.prems refl, of b] by blast
  with Cons.IH [of b "if b = prev then n + 1 else 1" c'] show ?case
    by (simp add: Let_def)
qed

text \<open>
  C20: health flips only after a full run. A session made from any configuration, fed any sequence of
  probe results, emits an event exactly when the length of the current run of equal results is a
  multiple of the configured threshold (five when none is configured): its 32-bit counters, which
  are reset on every event, compute this without wrapping.
\<close>

theorem health_threshold:
  "probe_run (CreateHealthCheckWithCallback eps cfg callback) bs
       (newChecker ptr e (CreateHealthCheckWithCallback eps cfg callback)) =
     run_events (if HealthyThreshold cfg = 0 then 5 else unat (HealthyThreshold cfg))
       (if UnhealthyThreshold cfg = 0 then 5 else unat (UnhealthyThreshold cfg)) True 0 bs"
proof -
  let ?hc = "CreateHealthCheckWithCallback eps cfg callback"
  have "healthyThreshold ?hc \<noteq> 0" "unhealthyThreshold ?hc \<noteq> 0"
    "unat (healthyThreshold ?hc) = (if HealthyThreshold cfg = 0 then 5 else unat (HealthyThreshold cfg))"
    "unat (unhealthyThreshold ?hc) =
       (if UnhealthyThreshold cfg = 0 then 5 else unat (UnhealthyThreshold cfg))"
    by (simp_all add: CreateHealthCheckWithCallback_def Let_def)
  moreover have "counts ?hc True 0 (newChecker ptr e ?hc)"
    by (simp add: counts_def newChecker_def)
  ultimately show ?thesis
    using probe_run_events [of ?hc True 0 "newChecker ptr e ?hc" bs] by simp
qed

subsection \<open>Late answers\<close>

fun checker_turns ::
    "HealthChecker \<Rightarrow> signal list \<Rightarrow> EndpointChecker \<Rightarrow> EndpointChecker \<times> bool option list" where
  "checker_turns hc [] c = (c, [])"
| "checker_turns hc (s # ss) c =
     (let (c, e) = checker_turn hc s c; (c, es) = checker_turns hc ss c in (c, e # es))"

lemma checkID_handlers [simp]:
  "checkID (fst (HandleSuccess hc c)) = checkID c" "checkID (fst (HandleFailure hc c)) = checkID c"
  by (simp_all add: HandleSuccess_def HandleFailure_def handleHealth_def handleUnHealth_def Let_def)

lemma checkID_turn: "checkID (fst (checker_turn hc s c)) = checkID c + 1"
  by (cases s) (simp_all add: checker_turn_def Let_def case_prod_beta)

lemma checkID_turns: "checkID (fst (checker_turns hc ss c)) = checkID c + of_nat (length ss)"
  by (induction ss arbitrary: c) (simp_all add: checkID_turn case_prod_beta Let_def)



subsection \<open>Sessions and endpoints\<close>

abbreviation address_of :: "Endpoint \<Rightarrow> string" where
  "address_of e \<equiv> GetAddress (ep_Address e)"

text \<open>One running session for every address of the configuration, and none besides.\<close>

definition sessions_match :: "HealthChecker \<Rightarrow> bool" where
  "sessions_match hc \<longleftrightarrow>
     distinct (map fst (checkers hc))
     \<and> set (map fst (checkers hc)) = address_of ` set (somes (hc_endpoints hc))
     \<and> (\<forall>(addr, c) \<in> set (checkers hc). endpointAddr c = addr \<and> \<not> ec_stopped c \<and> checkTimer c)"

definition running :: "HealthChecker \<Rightarrow> bool" where
  "running hc \<longleftrightarrow> distinct (map fst (checkers hc))
     \<and> (\<forall>(addr, c) \<in> set (checkers hc). endpointAddr c = addr \<and> \<not> ec_stopped c \<and> checkTimer c)"

lemma new_session [simp]:
  "endpointAddr (checker_Start (newChecker ptr e hc)) = address_of e"
  "\<not> ec_stopped (checker_Start (newChecker ptr e hc))"
  "checkTimer (checker_Start (newChecker ptr e hc))"
  by (simp_all add: checker_Start_def newChecker_def)

lemma startCheck_endpoints [simp]: "hc_endpoints (startCheck ptr oe hc) = hc_endpoints hc"
  by (simp add: startCheck_def Let_def split: option.split)

lemma startCheck_running: "running hc \<Longrightarrow> running (startCheck ptr oe hc)"
  by (auto simp: running_def startCheck_def Let_def map_of_eq_None_iff update_fresh split: option.split)

lemma startCheck_addresses:
  "set (map fst (checkers (startCheck ptr oe hc))) =
     set (map fst (checkers hc)) \<union> address_of ` set_option oe"
  by (auto simp: startCheck_def Let_def map_of_eq_None_iff update_fresh image_iff split: option.split)

lemma start_all_endpoints [simp]: "hc_endpoints (start_all i es hc) = hc_endpoints hc"
  by (induction i es hc rule: start_all.induct) simp_all

lemma start_all_running: "running hc \<Longrightarrow> running (start_all i es hc)"
  by (induction i es hc rule: start_all.induct) (simp_all add: startCheck_running)

lemma start_all_addresses:
  "set (map fst (checkers (start_all i es hc))) =
     set (map fst (checkers hc)) \<union> address_of ` set (somes es)"
proof (induction i es hc rule: start_all.induct)
  case (1 i hc)
  then show ?case by simp
next
  case (2 i e es hc)
  then show ?case
    using startCheck_addresses [of "Some i" e hc] by (cases e) (auto simp: somes_def)
qed

lemma sessions_match_running:
  "sessions_match hc \<longleftrightarrow>
     running hc \<and> set (map fst (checkers hc)) = address_of ` set (somes (hc_endpoints hc))"
  by (auto simp: sessions_match_def running_def)

text \<open>The endpoints left when the one at a position goes.\<close>

definition without :: "nat \<Rightarrow> 'a list \<Rightarrow> 'a list" where
  "without i xs = take i xs @ drop (i + 1) xs"

lemma set_without: "set (without i xs) = {xs ! j |j. j < length xs \<and> j \<noteq> i}"
proof -
  have "set (take i xs) = {xs ! j |j. j < length xs \<and> j < i}"
    by (auto simp: in_set_conv_nth) (blast, metis nth_take)
  moreover have "set (drop (Suc i) xs) = {xs ! j |j. j < length xs \<and> i < j}"
  proof (intro equalityI subsetI)
    fix x assume "x \<in> {xs ! j |j. j < length xs \<and> i < j}"
    then obtain j where "j < length xs" "i < j" "x = xs ! j" by auto
    then show "x \<in> set (drop (Suc i) xs)"
      by (auto simp: in_set_conv_nth intro!: exI [of _ "j - Suc i"])
  next
    fix x assume "x \<in> set (drop (Suc i) xs)"
    then obtain k where "k < length xs - Suc i" "x = xs ! (Suc i + k)"
      by (auto simp: in_set_conv_nth)
    then show "x \<in> {xs ! j |j. j < length xs \<and> i < j}"
      by (intro CollectI exI [of _ "Suc i + k"]) simp
  qed
  ultimately show ?thesis
    unfolding without_def set_append neq_iff Suc_eq_plus1 by (simp only:) blast
qed

text \<open>
  The endpoint a session is stopped for is known by its place in the configuration, or by an identity
  of its own.
\<close>

definition names_slot :: "nat option \<Rightarrow> Endpoint \<Rightarrow> nat \<Rightarrow> bool" where
  "names_slot ptr e i \<longleftrightarrow> ptr = Some i \<or> ptr = None \<and> ep_ID e \<noteq> ''''"

lemma hasOther_addresses:
  assumes "\<And>j c. j < length (hc_endpoints hc) \<Longrightarrow> hc_endpoints hc ! j = Some c \<Longrightarrow>
      ep_ID c = ep_ID e \<Longrightarrow> j = i"
    and "hc_endpoints hc ! i = Some e" and "names_slot ptr e i"
  shows "hasOtherEndpointWithAddress ptr e addr hc \<longleftrightarrow>
    addr \<in> address_of ` set (somes (without i (hc_endpoints hc)))"
proof -
  have "hasOtherEndpointWithAddress ptr e addr hc \<longleftrightarrow>
      (\<exists>j < length (hc_endpoints hc). j \<noteq> i \<and>
         (\<exists>c. hc_endpoints hc ! j = Some c \<and> address_of c = addr))"
    unfolding hasOtherEndpointWithAddress_def
    by (rule ex_cong1) (use assms in \<open>auto simp: names_slot_def split: option.split\<close>)
  then show ?thesis by (force simp: set_without)
qed

lemma sessions_started:
  "sessions_match (checker_StartAll (CreateHealthCheckWithCallback eps cfg callback))"
proof -
  let ?hc = "CreateHealthCheckWithCallback eps cfg callback"
  have "running ?hc" "checkers ?hc = []"
    by (simp_all add: CreateHealthCheckWithCallback_def Let_def running_def)
  then show ?thesis
    unfolding sessions_match_running checker_StartAll_def
    using start_all_addresses [of 0 "hc_endpoints ?hc" ?hc] by (simp add: start_all_running)
qed

lemma sessions_StartOne:
  assumes "sessions_match hc"
  shows "sessions_match (StartOne ptr new (hc\<lparr>hc_endpoints := hc_endpoints hc @ [new]\<rparr>))"
proof -
  let ?hc = "hc\<lparr>hc_endpoints := hc_endpoints hc @ [new]\<rparr>"
  have "running ?hc" using assms by (simp add: sessions_match_running running_def)
  moreover have "set (map fst (checkers (startCheck ptr new ?hc))) =
      address_of ` set (somes (hc_endpoints ?hc))"
    using assms startCheck_addresses [of ptr new ?hc]
    by (cases new) (auto simp: sessions_match_running simp del: set_somes)
  ultimately show ?thesis
    by (simp add: sessions_match_running StartOne_def startCheck_running del: set_somes)
qed

lemma set_somes_without:
  assumes "i < length xs" and "xs ! i = Some e"
  shows "set (somes xs) = insert e (set (somes (without i xs)))"
proof -
  have "xs = take i xs @ Some e # drop (i + 1) xs"
    using id_take_nth_drop [OF assms(1)] assms(2) by simp
  then have "somes xs = somes (take i xs) @ e # somes (drop (i + 1) xs)"
    by (metis somes_append somes_simps(3))
  then show ?thesis by (simp add: without_def del: set_somes)
qed

lemma sessions_StopOne:
  assumes match: "sessions_match hc"
    and i: "i < length (hc_endpoints hc)" "hc_endpoints hc ! i = Some e"
    and ids: "\<And>j c. j < length (hc_endpoints hc) \<Longrightarrow> hc_endpoints hc ! j = Some c \<Longrightarrow>
      ep_ID c = ep_ID e \<Longrightarrow> j = i"
    and ptr: "names_slot ptr e i"
    and stop: "StopOne ptr (Some e) hc = (ended, hc')"
  defines "rest \<equiv> address_of ` set (somes (without i (hc_endpoints hc)))"
  shows "sessions_match (hc'\<lparr>hc_endpoints := without i (hc_endpoints hc)\<rparr>)
      \<and> map endpointAddr ended = (if address_of e \<in> rest then [] else [address_of e])
      \<and> list_all ec_stopped ended"
proof -
  have all: "set (map fst (checkers hc)) = insert (address_of e) rest"
    using match set_somes_without [OF i] by (simp add: sessions_match_def rest_def del: set_somes)
  note other = hasOther_addresses [of hc e i ptr "address_of e", OF ids i(2) ptr, folded rest_def]
  show ?thesis
  proof (cases "address_of e \<in> rest")
    case True
    with stop other have "ended = []" "hc' = hc"
      by (simp_all add: StopOne_def stopCheck_def)
    with True all match show ?thesis
      by (simp add: sessions_match_def rest_def insert_absorb del: set_somes)
  next
    case False
    from all obtain c where c: "map_of (checkers hc) (address_of e) = Some c"
      by (metis insertI1 map_of_eq_None_iff not_None_eq set_map)
    with False stop other have *: "ended = [checker_Stop c]"
        "hc' = hc\<lparr>checkers := AList.delete (address_of e) (checkers hc)\<rparr>"
      by (simp_all add: StopOne_def stopCheck_def)
    have "endpointAddr c = address_of e"
      using map_of_SomeD [OF c] match by (auto simp: sessions_match_def)
    then have ended: "map endpointAddr ended = [address_of e]" "list_all ec_stopped ended"
      by (simp_all add: * checker_Stop_def)
    have keys: "map fst (checkers hc') = removeAll (address_of e) (map fst (checkers hc))"
      by (simp add: * delete_keys)
    have sub: "set (checkers hc') \<subseteq> set (checkers hc)"
      by (auto simp: * AList.delete_eq)
    have "set (map fst (checkers hc')) = rest"
      unfolding keys using all False by simp
    moreover have "distinct (map fst (checkers hc'))"
      unfolding keys using match by (simp add: sessions_match_def distinct_removeAll)
    moreover have "\<forall>(addr, c) \<in> set (checkers hc'). endpointAddr c = addr \<and> \<not> ec_stopped c \<and> checkTimer c"
      using sub match by (auto simp: sessions_match_def)
    ultimately show ?thesis
      using ended False by (simp add: sessions_match_def rest_def del: set_somes)
  qed
qed

lemma sessions_StopAll:
  assumes "sessions_match hc" and "checker_StopAll hc = (ended, hc')"
  shows "checkers hc' = [] \<and> list_all ec_stopped ended
      \<and> set (map endpointAddr ended) = address_of ` set (somes (hc_endpoints hc))"
proof -
  have "endpointAddr (snd p) = fst p" if "p \<in> set (checkers hc)" for p
    using assms(1) that by (auto simp: sessions_match_def)
  then have "map endpointAddr ended = map fst (checkers hc)"
    using assms(2) by (auto simp: checker_StopAll_def checker_Stop_def)
  then show ?thesis
    using assms by (auto simp: checker_StopAll_def checker_Stop_def list_all_iff sessions_match_def
        simp del: set_somes)
qed

text \<open>
  C21: sessions follow endpoints. Starting a checker gives exactly one running session for each
  address of the configuration, however many endpoints share it. In such a state \<open>StartOne\<close> for a
  further endpoint, and \<open>StopOne\<close> for an endpoint that then leaves the configuration, lead to such a
  state again; \<open>StopOne\<close> ends a session exactly when the last endpoint with that address leaves.
  \<open>Stop\<close> ends every session.
\<close>

theorem sessions_follow_endpoints:
  assumes "sessions_match hc"
    and "i < length (hc_endpoints hc)" and "hc_endpoints hc ! i = Some e"
    and "\<And>j c. j < length (hc_endpoints hc) \<Longrightarrow> hc_endpoints hc ! j = Some c \<Longrightarrow>
      ep_ID c = ep_ID e \<Longrightarrow> j = i"
  shows "sessions_match (checker_StartAll (CreateHealthCheckWithCallback eps cfg callback))
    \<and> sessions_match (StartOne ptr new (hc\<lparr>hc_endpoints := hc_endpoints hc @ [new]\<rparr>))
    \<and> (let (ended, hc') = StopOne (Some i) (Some e) hc;
           rest = address_of ` set (somes (without i (hc_endpoints hc)))
       in sessions_match (hc'\<lparr>hc_endpoints := without i (hc_endpoints hc)\<rparr>)
          \<and> map endpointAddr ended = (if address_of e \<in> rest then [] else [address_of e])
          \<and> list_all ec_stopped ended)
    \<and> (let (ended, hc') = checker_StopAll hc
       in checkers hc' = [] \<and> list_all ec_stopped ended
          \<and> set (map endpointAddr ended) = address_of ` set (somes (hc_endpoints hc)))"
proof -
  have slot: "names_slot (Some i) e i" by (simp add: names_slot_def)
  show ?thesis
    using sessions_started sessions_StartOne [OF assms(1)]
      sessions_StopOne [OF assms slot prod.collapse [symmetric]]
      sessions_StopAll [OF assms(1) prod.collapse [symmetric]]
    by (simp add: Let_def case_prod_beta)
qed

theorem sessions_follow_endpoints_witness:
  "let hc = checker_StartAll (CreateHealthCheck
        [Some (plain_endpoint ''a'' ''h'' 1), Some (plain_endpoint ''b'' ''h'' 1)] plain_check);
       (ended, hc') = StopOne (Some 0) (Some (plain_endpoint ''a'' ''h'' 1)) hc
   in ended = [] \<and> sessions_match (hc'\<lparr>hc_endpoints := without 0 (hc_endpoints hc)\<rparr>)"
proof -
  let ?a = "plain_endpoint ''a'' ''h'' 1" and ?b = "plain_endpoint ''b'' ''h'' 1"
  define hc where "hc = checker_StartAll (CreateHealthCheck [Some ?a, Some ?b] plain_check)"
  have eps: "hc_endpoints hc = [Some ?a, Some ?b]"
    by (simp add: hc_def checker_StartAll_def CreateHealthCheck_def CreateHealthCheckWithCallback_def Let_def)
  have match: "sessions_match hc" unfolding hc_def CreateHealthCheck_def by (rule sessions_started)
  have ids: "j = 0" if "j < length (hc_endpoints hc)" "hc_endpoints hc ! j = Some c"
      "ep_ID c = ep_ID ?a" for j c
    using that by (auto simp: eps less_Suc_eq plain_endpoint_def)
  have same: "address_of ?a = address_of ?b" by (simp add: plain_endpoint_def)
  have "let (ended, hc') = StopOne (Some 0) (Some ?a) hc
    in ended = [] \<and> sessions_match (hc'\<lparr>hc_endpoints := without 0 (hc_endpoints hc)\<rparr>)"
    using sessions_follow_endpoints [where i = 0 and e = ?a, OF match _ _ ids] same
    by (simp add: eps case_prod_beta Let_def without_def)
  then show ?thesis by (simp add: hc_def Let_def)
qed

subsection \<open>The address that is probed\<close>

lemma last_index_append: "c \<notin> set ys \<Longrightarrow> last_index c (xs @ c # ys) = Some (length xs)"
proof -
  assume "c \<notin> set ys"
  then have "takeWhile (\<lambda>x. x \<noteq> c) (rev ys @ c # rev xs) = rev ys"
    by (metis (mono_tags, lifting) set_rev takeWhile_append2 takeWhile.simps(2) append_Nil2)
  then show ?thesis by (simp add: last_index_def)
qed

lemma first_index_append: "c \<notin> set xs \<Longrightarrow> first_index c (xs @ c # ys) = Some (length xs)"
  by (simp add: first_index_def takeWhile_append2)
    (metis (mono_tags, lifting) append_Nil2 length_append list.size(3) takeWhile.simps(2) takeWhile_append2)

definition no_marks :: "string \<Rightarrow> bool" where
  "no_marks s \<longleftrightarrow> CHR '':'' \<notin> set s \<and> CHR ''['' \<notin> set s \<and> CHR '']'' \<notin> set s"

lemma SplitHostPort_plain:
  "no_marks host \<Longrightarrow> no_marks port \<Longrightarrow> SplitHostPort (host @ '':'' @ port) = Inr (host, port)"
  using last_index_append [of "CHR '':''" port host]
  by (cases host) (auto simp: SplitHostPort_def Let_def no_marks_def has_prefix_def)

lemma SplitHostPort_bracketed:
  assumes "CHR ''['' \<notin> set host" "CHR '']'' \<notin> set host" and "no_marks port"
  shows "SplitHostPort (''['' @ host @ '']:'' @ port) = Inr (host, port)"
proof -
  have "last_index (CHR '':'') (''['' @ host @ '']:'' @ port) = Some (length host + 2)"
    using last_index_append [of "CHR '':''" port "''['' @ host @ '']''"] assms(3)
    by (simp add: no_marks_def)
  moreover have "first_index (CHR '']'') (''['' @ host @ '']:'' @ port) = Some (length host + 1)"
    using first_index_append [of "CHR '']''" "''['' @ host" "'':'' @ port"] assms(2) by simp
  ultimately show ?thesis
    using assms by (simp add: SplitHostPort_def Let_def has_prefix_def no_marks_def)
qed

lemma Split_JoinHostPort:
  assumes "CHR ''['' \<notin> set host" and "CHR '']'' \<notin> set host" and "no_marks port"
  shows "SplitHostPort (JoinHostPort host port) = Inr (host, port)"
  using assms SplitHostPort_plain [of host port] SplitHostPort_bracketed [of host port]
  by (simp add: JoinHostPort_def no_marks_def)

text \<open>
  Normalising sets the port and keeps the host. For every host without brackets (names, IPv4
  and, in brackets, IPv6) an address normalised to a port splits into the same host and that port,
  and normalising it again changes nothing.
\<close>

theorem normalizeAddress_port:
  assumes "CHR ''['' \<notin> set host" and "CHR '']'' \<notin> set host" and "no_marks old" and "no_marks port"
    and "port \<noteq> []"
  shows "\<exists>a. normalizeAddress (JoinHostPort host old) port = Inr a
    \<and> SplitHostPort a = Inr (host, port) \<and> normalizeAddress a port = Inr a"
proof -
  have "normalizeAddress (JoinHostPort host old) port = Inr (JoinHostPort host port)"
    if "no_marks old" for old
    using Split_JoinHostPort [OF assms(1,2) that] assms(5) by (simp add: normalizeAddress_def)
  with assms show ?thesis by (simp add: Split_JoinHostPort)
qed

theorem normalizeAddress_port_witness:
  "\<exists>a. normalizeAddress (JoinHostPort ''::1'' ''8080'') ''80'' = Inr a
     \<and> SplitHostPort a = Inr (''::1'', ''80'') \<and> normalizeAddress a ''80'' = Inr a"
  by (rule normalizeAddress_port) (simp_all add: no_marks_def)

lemma show_int_marks: "no_marks (show_int i)"
proof -
  have "list_all is_digit (show_nat n)" for n by (rule show_nat_digits)
  then have "no_marks (show_nat n)" for n
    by (force simp: no_marks_def list_all_iff is_digit_def)
  then show ?thesis by (simp add: show_int_def no_marks_def)
qed



end
