(* ===== verification/Pixiu_Snapshots.thy ===== *)
theory Pixiu_Snapshots
  imports Pixiu_HealthCheck
begin

text \<open>
  The runtime cluster: \<open>pkg/cluster/cluster.go\<close>. A cluster publishes immutable endpoint snapshots
  through an atomic pointer; a snapshot keeps the endpoints of its configuration with unique
  identities and runtime health, and several indexes over them. The maps of a snapshot are
  association lists; a snapshot's endpoints are never nil. The factories of consistent hashes are
  the parameter \<open>fs\<close>. Publication metrics are left out.
\<close>

section \<open>Endpoint snapshots\<close>

record 'h EndpointSnapshot =
  es_all :: "Endpoint list"
  es_healthy :: "Endpoint list"
  endpointByID :: "(string \<times> Endpoint) list"
  healthyEndpointByID :: "(string \<times> Endpoint) list"
  addressByID :: "(string \<times> string) list"
  healthyByID :: "(string \<times> bool) list"
  healthyByAddress :: "(string \<times> bool) list"
  lbPolicy :: string
  consistentHashOnce :: bool
  es_consistentHash :: "'h option"
  consistentHashConfig :: "'h ConsistentHash"

definition newEndpointSnapshotIndex :: "'h EndpointSnapshot" where
  "newEndpointSnapshotIndex =
     \<lparr>es_all = [], es_healthy = [], endpointByID = [], healthyEndpointByID = [], addressByID = [],
      healthyByID = [], healthyByAddress = [], lbPolicy = '''', consistentHashOnce = False,
      es_consistentHash = None,
      consistentHashConfig = \<lparr>ReplicaNum = 0, MaxVnodeNum = 0, MaglevTableSize = 0, ch_Hash = None\<rparr>\<rparr>"

text \<open>A missing key of \<open>healthyByID\<close> reads as false.\<close>

definition endpointSnapshotHealth ::
    "Endpoint \<Rightarrow> string \<Rightarrow> 'h EndpointSnapshot option \<Rightarrow> bool \<Rightarrow> bool" where
  "endpointSnapshotHealth endpoint address previous inheritRuntimeHealth =
     (let healthy = \<not> UnHealthy endpoint
      in case previous of
           None \<Rightarrow> healthy
         | Some p \<Rightarrow>
             if inheritRuntimeHealth then
               (if map_of (addressByID p) (ep_ID endpoint) = Some address
                then map_of (healthyByID p) (ep_ID endpoint) = Some True
                else
                  (case map_of (healthyByAddress p) address of
                     Some addressHealthy \<Rightarrow> addressHealthy
                   | None \<Rightarrow> healthy))
             else healthy)"

definition addAddressHealth :: "string \<Rightarrow> bool \<Rightarrow> 'h EndpointSnapshot \<Rightarrow> 'h EndpointSnapshot" where
  "addAddressHealth address healthy s =
     (case map_of (healthyByAddress s) address of
        None \<Rightarrow> s\<lparr>healthyByAddress := AList.update address healthy (healthyByAddress s)\<rparr>
      | Some addressHealthy \<Rightarrow>
          s\<lparr>healthyByAddress := AList.update address (addressHealthy \<and> healthy) (healthyByAddress s)\<rparr>)"

definition addEndpoint ::
    "Endpoint \<Rightarrow> string \<Rightarrow> bool \<Rightarrow> 'h EndpointSnapshot \<Rightarrow> 'h EndpointSnapshot" where
  "addEndpoint endpoint address healthy s =
     (let endpoint = endpoint\<lparr>UnHealthy := \<not> healthy\<rparr>;
          s = s\<lparr>es_all := es_all s @ [endpoint],
                endpointByID := AList.update (ep_ID endpoint) endpoint (endpointByID s),
                addressByID := AList.update (ep_ID endpoint) address (addressByID s),
                healthyByID := AList.update (ep_ID endpoint) healthy (healthyByID s)\<rparr>;
          s = addAddressHealth address healthy s
      in if healthy
         then s\<lparr>es_healthy := es_healthy s @ [endpoint],
                healthyEndpointByID := AList.update (ep_ID endpoint) endpoint (healthyEndpointByID s)\<rparr>
         else s)"

fun snapshot_loop ::
    "string \<Rightarrow> 'h EndpointSnapshot option \<Rightarrow> bool \<Rightarrow> Endpoint option list \<Rightarrow> string list
     \<Rightarrow> 'h EndpointSnapshot \<Rightarrow> 'h EndpointSnapshot" where
  "snapshot_loop clusterName previous inh [] endpointIDs s = s"
| "snapshot_loop clusterName previous inh (None # es) endpointIDs s =
     snapshot_loop clusterName previous inh es endpointIDs s"
| "snapshot_loop clusterName previous inh (Some endpoint # es) endpointIDs s =
     (let cp = the (CloneEndpoint (Some endpoint));
          cp = cp\<lparr>ep_ID := StableUniqueEndpointID clusterName (Some cp) endpointIDs\<rparr>;
          address = GetAddress (ep_Address cp);
          healthy = endpointSnapshotHealth cp address previous inh
      in snapshot_loop clusterName previous inh es (ep_ID cp # endpointIDs)
           (addEndpoint cp address healthy s))"

subsection \<open>The cached consistent hash\<close>

definition storeHealthyConsistentHash :: "'h option \<Rightarrow> 'h EndpointSnapshot \<Rightarrow> 'h EndpointSnapshot" where
  "storeHealthyConsistentHash hash s = (if hash = None then s else s\<lparr>es_consistentHash := hash\<rparr>)"

definition rebuildConsistentHash :: "'h factories \<Rightarrow> 'h EndpointSnapshot \<Rightarrow> 'h EndpointSnapshot" where
  "rebuildConsistentHash fs s =
     (if es_healthy s = [] then s
      else
        (case fs (lbPolicy s) of
           None \<Rightarrow> s
         | Some newConsistentHash \<Rightarrow>
             storeHealthyConsistentHash
               (Some (newConsistentHash (consistentHashConfig s) (map Some (es_healthy s)))) s))"

definition cachedHealthyConsistentHash :: "'h EndpointSnapshot option \<Rightarrow> 'h option" where
  "cachedHealthyConsistentHash s = Option.bind s es_consistentHash"

text \<open>\<open>sync.Once\<close>: the function runs on the first call only.\<close>

definition HealthyConsistentHash ::
    "'h factories \<Rightarrow> 'h EndpointSnapshot \<Rightarrow> 'h option \<times> 'h EndpointSnapshot" where
  "HealthyConsistentHash fs s =
     (let s = (if consistentHashOnce s then s
               else (rebuildConsistentHash fs s)\<lparr>consistentHashOnce := True\<rparr>)
      in (cachedHealthyConsistentHash (Some s), s))"

definition seedHealthyConsistentHash :: "'h option \<Rightarrow> 'h EndpointSnapshot \<Rightarrow> 'h EndpointSnapshot" where
  "seedHealthyConsistentHash hash s =
     (if hash = None then s
      else if consistentHashOnce s then s
      else (storeHealthyConsistentHash hash s)\<lparr>consistentHashOnce := True\<rparr>)"

definition sameConsistentHashConfig :: "'h ConsistentHash \<Rightarrow> 'h ConsistentHash \<Rightarrow> bool" where
  "sameConsistentHashConfig a b \<longleftrightarrow>
     ReplicaNum a = ReplicaNum b \<and> MaxVnodeNum a = MaxVnodeNum b
     \<and> MaglevTableSize a = MaglevTableSize b"

definition sameEndpointHostForConsistentHash :: "Endpoint \<Rightarrow> Endpoint \<Rightarrow> bool" where
  "sameEndpointHostForConsistentHash a b \<longleftrightarrow>
     sa_Address (ep_Address a) = sa_Address (ep_Address b)
     \<and> sa_Port (ep_Address a) = sa_Port (ep_Address b)"

definition sameHealthyEndpointsForConsistentHash ::
    "'h EndpointSnapshot \<Rightarrow> 'h EndpointSnapshot \<Rightarrow> bool" where
  "sameHealthyEndpointsForConsistentHash previous s \<longleftrightarrow>
     list_all2 sameEndpointHostForConsistentHash (es_healthy previous) (es_healthy s)"

definition canReuseHealthyConsistentHash ::
    "'h factories \<Rightarrow> 'h EndpointSnapshot option \<Rightarrow> 'h EndpointSnapshot \<Rightarrow> bool" where
  "canReuseHealthyConsistentHash fs previous s =
     (case previous of
        None \<Rightarrow> False
      | Some p \<Rightarrow>
          lbPolicy p = lbPolicy s \<and> fs (lbPolicy s) \<noteq> None
          \<and> sameConsistentHashConfig (consistentHashConfig p) (consistentHashConfig s)
          \<and> sameHealthyEndpointsForConsistentHash p s)"

definition reuseHealthyConsistentHashFrom ::
    "'h factories \<Rightarrow> 'h EndpointSnapshot option \<Rightarrow> 'h EndpointSnapshot \<Rightarrow> 'h EndpointSnapshot" where
  "reuseHealthyConsistentHashFrom fs previous s =
     (if \<not> canReuseHealthyConsistentHash fs previous s then s
      else seedHealthyConsistentHash (cachedHealthyConsistentHash previous) s)"

definition newEndpointSnapshot ::
    "'h factories \<Rightarrow> 'h ClusterConfig option \<Rightarrow> 'h EndpointSnapshot option \<Rightarrow> bool
     \<Rightarrow> 'h EndpointSnapshot" where
  "newEndpointSnapshot fs config previous inheritRuntimeHealth =
     (let clusterName = (case config of None \<Rightarrow> '''' | Some c \<Rightarrow> cc_Name c);
          endpoints = (case config of None \<Rightarrow> [] | Some c \<Rightarrow> Endpoints c);
          snapshot = newEndpointSnapshotIndex;
          snapshot =
            (case config of
               None \<Rightarrow> snapshot
             | Some c \<Rightarrow> snapshot\<lparr>lbPolicy := LbStr c,
                 consistentHashConfig := (cc_ConsistentHash c)\<lparr>ch_Hash := None\<rparr>\<rparr>);
          snapshot = snapshot_loop clusterName previous inheritRuntimeHealth endpoints [] snapshot
      in reuseHealthyConsistentHashFrom fs previous snapshot)"

subsection \<open>Reading a snapshot\<close>

text \<open>A nil snapshot is \<open>None\<close>.\<close>

definition AllEndpoints :: "'h EndpointSnapshot option \<Rightarrow> Endpoint option list" where
  "AllEndpoints s = (case s of None \<Rightarrow> [] | Some s \<Rightarrow> CloneEndpoints (map Some (es_all s)))"

definition EndpointCount :: "'h EndpointSnapshot option \<Rightarrow> nat" where
  "EndpointCount s = (case s of None \<Rightarrow> 0 | Some s \<Rightarrow> length (es_all s))"

definition HealthyEndpoints :: "'h EndpointSnapshot option \<Rightarrow> Endpoint option list" where
  "HealthyEndpoints s = (case s of None \<Rightarrow> [] | Some s \<Rightarrow> CloneEndpoints (map Some (es_healthy s)))"

definition HealthyEndpointCount :: "'h EndpointSnapshot option \<Rightarrow> nat" where
  "HealthyEndpointCount s = (case s of None \<Rightarrow> 0 | Some s \<Rightarrow> length (es_healthy s))"

definition HealthyEndpointsForPick :: "'h EndpointSnapshot option \<Rightarrow> Endpoint list" where
  "HealthyEndpointsForPick s = (case s of None \<Rightarrow> [] | Some s \<Rightarrow> es_healthy s)"

definition AllEndpointsForPick :: "'h EndpointSnapshot option \<Rightarrow> Endpoint list" where
  "AllEndpointsForPick s = (case s of None \<Rightarrow> [] | Some s \<Rightarrow> es_all s)"

definition PickHealthyEndpoint ::
    "(Endpoint list \<Rightarrow> Endpoint option) \<Rightarrow> 'h EndpointSnapshot option \<Rightarrow> Endpoint option" where
  "PickHealthyEndpoint pick s =
     (case s of
        None \<Rightarrow> None
      | Some s \<Rightarrow> if es_healthy s = [] then None else CloneEndpoint (pick (es_healthy s)))"

fun nextEndpointStartIndex :: "string \<Rightarrow> nat \<Rightarrow> Endpoint list \<Rightarrow> nat option" where
  "nextEndpointStartIndex cur i [] = None"
| "nextEndpointStartIndex cur i (e # es) =
     (if ep_ID e = cur then Some (i + 1) else nextEndpointStartIndex cur (i + 1) es)"

fun next_healthy :: "(string \<times> bool) list \<Rightarrow> Endpoint list \<Rightarrow> Endpoint option" where
  "next_healthy health [] = None"
| "next_healthy health (e # es) =
     (if map_of health (ep_ID e) = Some True then CloneEndpoint (Some e) else next_healthy health es)"

definition NextHealthyEndpoint :: "string \<Rightarrow> 'h EndpointSnapshot option \<Rightarrow> Endpoint option" where
  "NextHealthyEndpoint curEndpointID s =
     (case s of
        None \<Rightarrow> None
      | Some s \<Rightarrow>
          (case nextEndpointStartIndex curEndpointID 0 (es_all s) of
             None \<Rightarrow> None
           | Some start \<Rightarrow> next_healthy (healthyByID s) (drop start (es_all s))))"

definition EndpointByID :: "string \<Rightarrow> 'h EndpointSnapshot option \<Rightarrow> Endpoint option" where
  "EndpointByID i s = (case s of None \<Rightarrow> None | Some s \<Rightarrow> CloneEndpoint (map_of (endpointByID s) i))"

definition HealthyEndpointByID :: "string \<Rightarrow> 'h EndpointSnapshot option \<Rightarrow> Endpoint option" where
  "HealthyEndpointByID i s =
     (case s of None \<Rightarrow> None | Some s \<Rightarrow> CloneEndpoint (map_of (healthyEndpointByID s) i))"

definition HealthyEndpointByIDForPick :: "string \<Rightarrow> 'h EndpointSnapshot option \<Rightarrow> Endpoint option" where
  "HealthyEndpointByIDForPick i s =
     (case s of None \<Rightarrow> None | Some s \<Rightarrow> map_of (healthyEndpointByID s) i)"

subsection \<open>Health changes\<close>

text \<open>
  A health change finds no endpoint, changes nothing and returns the snapshot itself, or returns a
  new snapshot.
\<close>

datatype 'h health_change = NotFound | Unchanged | Changed "'h EndpointSnapshot"

fun health_loop ::
    "string list \<Rightarrow> bool \<Rightarrow> (string \<times> string) list \<Rightarrow> (string \<times> bool) list
     \<Rightarrow> 'h EndpointSnapshot \<Rightarrow> 'h EndpointSnapshot" where
  "health_loop endpointIDs healthy addresses [] s = s"
| "health_loop endpointIDs healthy addresses ((i, wasHealthy) # rest) s =
     (let nextHealthy = (if i \<in> set endpointIDs then healthy else wasHealthy);
          s = s\<lparr>healthyByID := AList.update i nextHealthy (healthyByID s)\<rparr>;
          address = (case map_of addresses i of None \<Rightarrow> '''' | Some a \<Rightarrow> a)
      in health_loop endpointIDs healthy addresses rest (addAddressHealth address nextHealthy s))"

fun endpoint_loop ::
    "string list \<Rightarrow> bool \<Rightarrow> Endpoint list \<Rightarrow> 'h EndpointSnapshot \<Rightarrow> 'h EndpointSnapshot" where
  "endpoint_loop endpointIDs healthy [] s = s"
| "endpoint_loop endpointIDs healthy (endpoint # es) s =
     (let i = ep_ID endpoint;
          nextEndpoint =
            (if i \<in> set endpointIDs
             then (the (CloneEndpoint (Some endpoint)))\<lparr>UnHealthy := \<not> healthy\<rparr> else endpoint);
          s = s\<lparr>es_all := es_all s @ [nextEndpoint],
                endpointByID := AList.update i nextEndpoint (endpointByID s)\<rparr>;
          s = (if map_of (healthyByID s) i = Some True
               then s\<lparr>es_healthy := es_healthy s @ [nextEndpoint],
                      healthyEndpointByID := AList.update i nextEndpoint (healthyEndpointByID s)\<rparr>
               else s)
      in endpoint_loop endpointIDs healthy es s)"

definition withEndpointHealthForIDs ::
    "string list \<Rightarrow> bool \<Rightarrow> 'h EndpointSnapshot \<Rightarrow> 'h health_change" where
  "withEndpointHealthForIDs endpointIDs healthy s =
     (if endpointIDs = [] then NotFound
      else if \<forall>i \<in> set endpointIDs. (map_of (healthyByID s) i = Some True) = healthy then Unchanged
      else
        (let nx = newEndpointSnapshotIndex\<lparr>addressByID := addressByID s, lbPolicy := lbPolicy s,
               consistentHashConfig := consistentHashConfig s\<rparr>;
             nx = health_loop endpointIDs healthy (addressByID s) (healthyByID s) nx
         in Changed (endpoint_loop endpointIDs healthy (es_all s) nx)))"

definition withEndpointHealth ::
    "string \<Rightarrow> string \<Rightarrow> bool \<Rightarrow> 'h EndpointSnapshot \<Rightarrow> 'h health_change" where
  "withEndpointHealth endpointID endpointAddress healthy s =
     (if map_of (addressByID s) endpointID \<noteq> Some endpointAddress then NotFound
      else withEndpointHealthForIDs [endpointID] healthy s)"

definition withEndpointAddressHealth ::
    "string \<Rightarrow> bool \<Rightarrow> 'h EndpointSnapshot \<Rightarrow> 'h health_change" where
  "withEndpointAddressHealth endpointAddress healthy s =
     (let endpointIDs = map fst (filter (\<lambda>(i, address). address = endpointAddress) (addressByID s))
      in withEndpointHealthForIDs endpointIDs healthy s)"

section \<open>Runtime clusters\<close>

text \<open>
  The health checker shares the configuration with the cluster, so that its list of endpoints is
  always that of \<open>c_config\<close>. A nil configuration makes the constructor panic, here \<open>None\<close>.
\<close>

record 'h Cluster =
  HealthCheck :: "HealthChecker option"
  c_config :: "'h ClusterConfig"
  c_configID :: "64 word"
  roundRobinCursor :: "32 word"
  acceptHealthEvents :: bool
  c_endpoints :: "'h EndpointSnapshot option"

definition refreshed ::
    "'h factories \<Rightarrow> 'h ClusterConfig \<Rightarrow> 'h EndpointSnapshot option \<Rightarrow> 'h EndpointSnapshot option
     \<Rightarrow> 'h EndpointSnapshot" where
  "refreshed fs config previous current =
     (let source = (if current \<noteq> None then current else previous)
      in newEndpointSnapshot fs (Some config) source (HealthChecks config \<noteq> []))"

definition RefreshEndpointsFrom ::
    "'h factories \<Rightarrow> 'h EndpointSnapshot option \<Rightarrow> 'h Cluster \<Rightarrow> 'h Cluster" where
  "RefreshEndpointsFrom fs previous c =
     c\<lparr>c_endpoints := Some (refreshed fs (c_config c) previous (c_endpoints c))\<rparr>"

definition RefreshEndpoints :: "'h factories \<Rightarrow> 'h Cluster \<Rightarrow> 'h Cluster" where
  "RefreshEndpoints fs c = RefreshEndpointsFrom fs (c_endpoints c) c"

definition NewClusterWithEndpointSnapshot ::
    "'h factories \<Rightarrow> 'h ClusterConfig option \<Rightarrow> 'h EndpointSnapshot option \<Rightarrow> 'h Cluster option" where
  "NewClusterWithEndpointSnapshot fs clusterConfig previous =
     (case clusterConfig of
        None \<Rightarrow> None
      | Some config \<Rightarrow>
          (let c = \<lparr>HealthCheck = None, c_config = config, c_configID = ConfigID config,
                 roundRobinCursor = 0, acceptHealthEvents = True, c_endpoints = None\<rparr>;
               c = RefreshEndpointsFrom fs previous c
           in Some (case HealthChecks config of
                [] \<Rightarrow> c
              | check # _ \<Rightarrow> c\<lparr>HealthCheck := Some (checker_StartAll
                  (CreateHealthCheckWithCallback (Endpoints config) check True))\<rparr>)))"

definition NewCluster :: "'h factories \<Rightarrow> 'h ClusterConfig option \<Rightarrow> 'h Cluster option" where
  "NewCluster fs clusterConfig = NewClusterWithEndpointSnapshot fs clusterConfig None"

definition cluster_Stop :: "'h Cluster \<Rightarrow> 'h Cluster" where
  "cluster_Stop c = c\<lparr>HealthCheck := map_option (snd \<circ> checker_StopAll) (HealthCheck c)\<rparr>"

definition RemoveEndpoint :: "nat option \<Rightarrow> Endpoint option \<Rightarrow> 'h Cluster \<Rightarrow> 'h Cluster" where
  "RemoveEndpoint ptr endpoint c =
     c\<lparr>HealthCheck := map_option (\<lambda>hc. snd (StopOne ptr endpoint hc)) (HealthCheck c)\<rparr>"

definition AddEndpoint :: "nat option \<Rightarrow> Endpoint option \<Rightarrow> 'h Cluster \<Rightarrow> 'h Cluster" where
  "AddEndpoint ptr endpoint c =
     c\<lparr>HealthCheck := map_option (StartOne ptr endpoint) (HealthCheck c)\<rparr>"

text \<open>The answer of a health update and the cluster after publishing its snapshot, if any.\<close>

definition publish :: "'h health_change \<Rightarrow> 'h Cluster \<Rightarrow> bool \<times> 'h Cluster" where
  "publish change c =
     (case change of
        NotFound \<Rightarrow> (False, c)
      | Unchanged \<Rightarrow> (True, c)
      | Changed nx \<Rightarrow> (True, c\<lparr>c_endpoints := Some nx\<rparr>))"

definition UpdateEndpointHealth ::
    "string \<Rightarrow> string \<Rightarrow> bool \<Rightarrow> 'h Cluster \<Rightarrow> bool \<times> 'h Cluster" where
  "UpdateEndpointHealth endpointID endpointAddress healthy c =
     (if \<not> acceptHealthEvents c then (False, c)
      else
        (case c_endpoints c of
           None \<Rightarrow> (False, c)
         | Some current \<Rightarrow> publish (withEndpointHealth endpointID endpointAddress healthy current) c))"

definition UpdateEndpointAddressHealth :: "string \<Rightarrow> bool \<Rightarrow> 'h Cluster \<Rightarrow> bool \<times> 'h Cluster" where
  "UpdateEndpointAddressHealth endpointAddress healthy c =
     (if \<not> acceptHealthEvents c then (False, c)
      else
        (case c_endpoints c of
           None \<Rightarrow> (False, c)
         | Some current \<Rightarrow> publish (withEndpointAddressHealth endpointAddress healthy current) c))"

definition SnapshotForRuntimeReplacement ::
    "'h Cluster \<Rightarrow> 'h EndpointSnapshot option \<times> 'h Cluster" where
  "SnapshotForRuntimeReplacement c =
     (let c = c\<lparr>acceptHealthEvents := False\<rparr> in (c_endpoints c, c))"

definition handleEndpointHealth :: "EndpointHealthEvent \<Rightarrow> 'h Cluster \<Rightarrow> 'h Cluster" where
  "handleEndpointHealth event c =
     snd (UpdateEndpointAddressHealth (ev_EndpointAddress event) (ev_Healthy event) c)"

definition clusterName :: "'h Cluster option \<Rightarrow> string" where
  "clusterName c = (case c of None \<Rightarrow> '''' | Some c \<Rightarrow> cc_Name (c_config c))"

definition SyncConfigEndpoints :: "Endpoint option list \<Rightarrow> 'h Cluster \<Rightarrow> 'h Cluster" where
  "SyncConfigEndpoints endpoints c =
     c\<lparr>c_config := (c_config c)\<lparr>Endpoints := CloneEndpoints endpoints\<rparr>,
       HealthCheck := map_option (\<lambda>hc. hc\<lparr>hc_endpoints := CloneEndpoints endpoints\<rparr>) (HealthCheck c)\<rparr>"

definition ConfigIsIdenticalTo :: "'h ClusterConfig option \<Rightarrow> 'h Cluster option \<Rightarrow> bool" where
  "ConfigIsIdenticalTo cfg c =
     (case (c, cfg) of (Some c, Some cfg) \<Rightarrow> c_configID c = ConfigID cfg | _ \<Rightarrow> False)"

definition CarryOverCursorTo :: "'h Cluster \<Rightarrow> 'h Cluster \<Rightarrow> 'h Cluster" where
  "CarryOverCursorTo target c = target\<lparr>roundRobinCursor := roundRobinCursor c\<rparr>"

section \<open>Invariant of a snapshot\<close>

text \<open>What the endpoints of a snapshot say about an address: healthy when all of them are.\<close>

definition address_health :: "Endpoint list \<Rightarrow> string \<Rightarrow> bool option" where
  "address_health es a =
     (if \<exists>e \<in> set es. address_of e = a
      then Some (\<forall>e \<in> set es. address_of e = a \<longrightarrow> \<not> UnHealthy e) else None)"

definition indexed_by :: "(Endpoint \<Rightarrow> 'b) \<Rightarrow> Endpoint list \<Rightarrow> (string \<times> 'b) list" where
  "indexed_by f es = map (\<lambda>e. (ep_ID e, f e)) es"

definition snapshot_inv :: "'h EndpointSnapshot \<Rightarrow> bool" where
  "snapshot_inv s \<longleftrightarrow>
     distinct (map ep_ID (es_all s))
     \<and> es_healthy s = filter (\<lambda>e. \<not> UnHealthy e) (es_all s)
     \<and> endpointByID s = indexed_by id (es_all s)
     \<and> healthyEndpointByID s = indexed_by id (es_healthy s)
     \<and> addressByID s = indexed_by address_of (es_all s)
     \<and> healthyByID s = indexed_by (\<lambda>e. \<not> UnHealthy e) (es_all s)
     \<and> map_of (healthyByAddress s) = address_health (es_all s)"

lemma address_health_Nil [simp]: "address_health [] = Map.empty"
  by (rule ext) (simp add: address_health_def)

lemma indexed_by_simps [simp]:
  "indexed_by f [] = []" "indexed_by f (es @ es') = indexed_by f es @ indexed_by f es'"
  "indexed_by f (e # es) = (ep_ID e, f e) # indexed_by f es"
  "fst ` set (indexed_by f es) = ep_ID ` set es"
  "map fst (indexed_by f es) = map ep_ID es"
  by (auto simp: indexed_by_def image_iff)

lemma map_of_indexed_by:
  "distinct (map ep_ID es) \<Longrightarrow> e \<in> set es \<Longrightarrow> map_of (indexed_by f es) (ep_ID e) = Some (f e)"
  by (induction es) (force simp: image_iff)+

lemma map_of_indexed_by_None: "map_of (indexed_by f es) i = None \<longleftrightarrow> i \<notin> ep_ID ` set es"
  by (simp add: map_of_eq_None_iff)

lemma map_of_indexed_by_Some:
  "distinct (map ep_ID es) \<Longrightarrow>
     map_of (indexed_by f es) i = Some y \<longleftrightarrow> (\<exists>e \<in> set es. ep_ID e = i \<and> f e = y)"
  by (induction es) (auto simp: image_iff)

lemma inv_lookups:
  assumes "snapshot_inv s"
  shows "map_of (addressByID s) i = Some a \<longleftrightarrow> (\<exists>e \<in> set (es_all s). ep_ID e = i \<and> address_of e = a)"
    and "map_of (healthyByID s) i = Some h \<longleftrightarrow> (\<exists>e \<in> set (es_all s). ep_ID e = i \<and> (\<not> UnHealthy e) = h)"
    and "map_of (healthyByAddress s) = address_health (es_all s)"
proof -
  have d: "distinct (map ep_ID (es_all s))" using assms by (simp add: snapshot_inv_def)
  have "addressByID s = indexed_by address_of (es_all s)"
    "healthyByID s = indexed_by (\<lambda>e. \<not> UnHealthy e) (es_all s)"
    using assms by (simp_all add: snapshot_inv_def)
  then show "map_of (addressByID s) i = Some a \<longleftrightarrow> (\<exists>e \<in> set (es_all s). ep_ID e = i \<and> address_of e = a)"
    "map_of (healthyByID s) i = Some h \<longleftrightarrow> (\<exists>e \<in> set (es_all s). ep_ID e = i \<and> (\<not> UnHealthy e) = h)"
    using map_of_indexed_by_Some [OF d] by (simp_all only:)
qed (use assms in \<open>simp add: snapshot_inv_def\<close>)

lemma address_health_snoc:
  "address_health (es @ [e]) =
     (address_health es)(address_of e \<mapsto> (case address_health es (address_of e) of
        None \<Rightarrow> \<not> UnHealthy e | Some h \<Rightarrow> h \<and> \<not> UnHealthy e))"
  by (rule ext) (auto simp: address_health_def)

lemma addAddressHealth_address:
  "addAddressHealth a h s = s\<lparr>healthyByAddress := healthyByAddress (addAddressHealth a h s)\<rparr>"
  "map_of (healthyByAddress (addAddressHealth a h s)) =
     (map_of (healthyByAddress s))(a \<mapsto>
        (case map_of (healthyByAddress s) a of None \<Rightarrow> h | Some h' \<Rightarrow> h' \<and> h))"
  by (auto simp: addAddressHealth_def update_conv' split: option.splits)

lemma snapshot_inv_index [simp]:
  "snapshot_inv (newEndpointSnapshotIndex\<lparr>lbPolicy := l, consistentHashConfig := h\<rparr>)"
  "snapshot_inv newEndpointSnapshotIndex"
  by (auto simp: snapshot_inv_def newEndpointSnapshotIndex_def address_health_def)

lemma addEndpoint_all: "es_all (addEndpoint e a h s) = es_all s @ [e\<lparr>UnHealthy := \<not> h\<rparr>]"
  by (simp add: addEndpoint_def addAddressHealth_def Let_def split: option.split)

lemma snapshot_inv_addEndpoint:
  assumes "snapshot_inv s" and "ep_ID e \<notin> ep_ID ` set (es_all s)"
  shows "snapshot_inv (addEndpoint e (address_of e) h s)"
proof -
  define s' where "s' = addEndpoint e (address_of e) h s"
  let ?e = "e\<lparr>UnHealthy := \<not> h\<rparr>"
  have fresh: "ep_ID e \<notin> ep_ID ` set (es_healthy s)"
    using assms by (auto simp: snapshot_inv_def)
  have "es_all s' = es_all s @ [?e]" "es_healthy s' = es_healthy s @ (if h then [?e] else [])"
    "endpointByID s' = endpointByID s @ [(ep_ID e, ?e)]"
    "healthyEndpointByID s' = healthyEndpointByID s @ (if h then [(ep_ID e, ?e)] else [])"
    "addressByID s' = addressByID s @ [(ep_ID e, address_of e)]"
    "healthyByID s' = healthyByID s @ [(ep_ID e, h)]"
    "map_of (healthyByAddress s') = (map_of (healthyByAddress s))(address_of e \<mapsto>
        (case map_of (healthyByAddress s) (address_of e) of None \<Rightarrow> h | Some h' \<Rightarrow> h' \<and> h))"
    using assms fresh
    by (auto simp: s'_def addEndpoint_def addAddressHealth_def Let_def snapshot_inv_def update_conv'
        split: option.splits)
  with assms show ?thesis
    by (auto simp: s'_def [symmetric] snapshot_inv_def address_health_snoc cong: option.case_cong)
qed

subsection \<open>New snapshots\<close>

text \<open>The endpoints of a configuration with the identities they get.\<close>

fun identified :: "string \<Rightarrow> string list \<Rightarrow> Endpoint list \<Rightarrow> Endpoint list" where
  "identified cn taken [] = []"
| "identified cn taken (e # es) =
     (let e = e\<lparr>ep_ID := StableUniqueEndpointID cn (Some e) taken\<rparr>
      in e # identified cn (ep_ID e # taken) es)"

lemma addEndpoint_keeps [simp]:
  "lbPolicy (addEndpoint e a h s) = lbPolicy s"
  "consistentHashConfig (addEndpoint e a h s) = consistentHashConfig s"
  "consistentHashOnce (addEndpoint e a h s) = consistentHashOnce s"
  "es_consistentHash (addEndpoint e a h s) = es_consistentHash s"
  by (simp_all add: addEndpoint_def addAddressHealth_def Let_def split: option.split)

lemma snapshot_loop_keeps [simp]:
  "lbPolicy (snapshot_loop cn previous inh es taken s) = lbPolicy s"
  "consistentHashConfig (snapshot_loop cn previous inh es taken s) = consistentHashConfig s"
  "consistentHashOnce (snapshot_loop cn previous inh es taken s) = consistentHashOnce s"
  "es_consistentHash (snapshot_loop cn previous inh es taken s) = es_consistentHash s"
  by (induction cn previous inh es taken s rule: snapshot_loop.induct) (simp_all add: Let_def)

lemma snapshot_loop_spec:
  assumes "snapshot_inv s" and "set taken = ep_ID ` set (es_all s)"
  shows "snapshot_inv (snapshot_loop cn previous inh es taken s)
    \<and> es_all (snapshot_loop cn previous inh es taken s) =
        es_all s @ map (\<lambda>e. e\<lparr>UnHealthy := \<not> endpointSnapshotHealth e (address_of e) previous inh\<rparr>)
          (identified cn taken (somes es))"
  using assms
proof (induction es arbitrary: taken s)
  case Nil
  then show ?case by simp
next
  case (Cons oe es)
  show ?case
  proof (cases oe)
    case None
    with Cons show ?thesis by simp
  next
    case (Some e)
    define e' where "e' = e\<lparr>ep_ID := StableUniqueEndpointID cn (Some e) taken\<rparr>"
    define s' where "s' = addEndpoint e' (address_of e')
      (endpointSnapshotHealth e' (address_of e') previous inh) s"
    have fresh: "ep_ID e' \<notin> ep_ID ` set (es_all s)"
      using StableUniqueEndpointID_fresh [of cn "Some e" taken] Cons.prems(2) by (simp add: e'_def)
    have "snapshot_inv s'" unfolding s'_def
      by (rule snapshot_inv_addEndpoint [OF Cons.prems(1) fresh])
    moreover have "set (ep_ID e' # taken) = ep_ID ` set (es_all s')"
      using Cons.prems(2) by (simp add: s'_def addEndpoint_all)
    moreover have "snapshot_loop cn previous inh (oe # es) taken s =
        snapshot_loop cn previous inh es (ep_ID e' # taken) s'"
      by (simp add: Some Let_def e'_def s'_def)
    moreover have "identified cn taken (somes (oe # es)) = e' # identified cn (ep_ID e' # taken) (somes es)"
      by (simp add: Some Let_def e'_def)
    ultimately show ?thesis
      using Cons.IH [of s' "ep_ID e' # taken"] by (simp add: s'_def addEndpoint_all)
  qed
qed

lemma seed_keeps [simp]:
  "es_all (reuseHealthyConsistentHashFrom fs previous s) = es_all s"
  "es_healthy (reuseHealthyConsistentHashFrom fs previous s) = es_healthy s"
  "lbPolicy (reuseHealthyConsistentHashFrom fs previous s) = lbPolicy s"
  "consistentHashConfig (reuseHealthyConsistentHashFrom fs previous s) = consistentHashConfig s"
  "snapshot_inv (reuseHealthyConsistentHashFrom fs previous s) = snapshot_inv s"
  by (simp_all add: reuseHealthyConsistentHashFrom_def seedHealthyConsistentHash_def
      storeHealthyConsistentHash_def snapshot_inv_def)

text \<open>
  The health an endpoint of a new snapshot should have: that of the same endpoint at the same
  address in the previous snapshot, else that of the address, else the configured one; always the
  configured one without health checks.
\<close>

definition expected_health :: "Endpoint list \<Rightarrow> bool \<Rightarrow> Endpoint \<Rightarrow> bool" where
  "expected_health prev inh e =
     (if \<not> inh then \<not> UnHealthy e
      else if \<exists>q \<in> set prev. ep_ID q = ep_ID e \<and> address_of q = address_of e
      then \<exists>q \<in> set prev. ep_ID q = ep_ID e \<and> \<not> UnHealthy q
      else (case address_health prev (address_of e) of Some h \<Rightarrow> h | None \<Rightarrow> \<not> UnHealthy e))"

definition endpoints_of :: "'h EndpointSnapshot option \<Rightarrow> Endpoint list" where
  "endpoints_of s = (case s of None \<Rightarrow> [] | Some s \<Rightarrow> es_all s)"

lemma endpointSnapshotHealth_expected:
  assumes "pred_option snapshot_inv previous"
  shows "endpointSnapshotHealth e (address_of e) previous inh = expected_health (endpoints_of previous) inh e"
proof (cases previous)
  case None
  then show ?thesis
    by (simp add: endpointSnapshotHealth_def expected_health_def endpoints_of_def address_health_def)
next
  case (Some p)
  with assms have inv: "snapshot_inv p" by simp
  then have "map_of (addressByID p) (ep_ID e) = Some (address_of e) \<longleftrightarrow>
      (\<exists>q \<in> set (es_all p). ep_ID q = ep_ID e \<and> address_of q = address_of e)"
    and "map_of (healthyByID p) (ep_ID e) = Some True \<longleftrightarrow>
      (\<exists>q \<in> set (es_all p). ep_ID q = ep_ID e \<and> \<not> UnHealthy q)"
    and "map_of (healthyByAddress p) = address_health (es_all p)"
    using inv_lookups [OF inv] by simp_all
  then show ?thesis
    by (simp add: Some endpointSnapshotHealth_def expected_health_def endpoints_of_def
        del: map_of_eq_Some_iff) blast
qed

lemma newEndpointSnapshotIndex_all [simp]: "es_all newEndpointSnapshotIndex = []"
  by (simp add: newEndpointSnapshotIndex_def)

lemma new_snapshot_all:
  "es_all (newEndpointSnapshot fs (Some config) previous inh) =
     map (\<lambda>e. e\<lparr>UnHealthy := \<not> endpointSnapshotHealth e (address_of e) previous inh\<rparr>)
       (identified (cc_Name config) [] (somes (Endpoints config)))"
  using snapshot_loop_spec [of "newEndpointSnapshotIndex\<lparr>lbPolicy := LbStr config,
      consistentHashConfig := (cc_ConsistentHash config)\<lparr>ch_Hash := None\<rparr>\<rparr>" "[]" "cc_Name config"
      previous inh "Endpoints config"]
  by (simp add: newEndpointSnapshot_def Let_def)

lemma new_snapshot_inv: "snapshot_inv (newEndpointSnapshot fs config previous inh)"
  by (cases config)
    (simp_all add: newEndpointSnapshot_def Let_def snapshot_loop_spec [THEN conjunct1])

text \<open>
  C28: what a new snapshot holds. Built from any configuration, after any consistent previous
  snapshot, a snapshot holds a copy of every endpoint of the configuration that is not nil, in
  order, under identities that are unique in the snapshot, with its runtime health inherited from
  the previous snapshot as \<open>expected_health\<close> says; and all its indexes (healthy endpoints, endpoints,
  addresses and health by identity, health by address) agree with this list.
\<close>

theorem newEndpointSnapshot_spec:
  assumes "pred_option snapshot_inv previous"
  shows "let s = newEndpointSnapshot fs (Some config) previous inh
    in snapshot_inv s
       \<and> es_all s = map (\<lambda>e. e\<lparr>UnHealthy := \<not> expected_health (endpoints_of previous) inh e\<rparr>)
           (identified (cc_Name config) [] (somes (Endpoints config)))"
  by (simp add: Let_def new_snapshot_all new_snapshot_inv endpointSnapshotHealth_expected [OF assms])

subsection \<open>Health changes\<close>

definition with_health :: "string set \<Rightarrow> bool \<Rightarrow> Endpoint \<Rightarrow> Endpoint" where
  "with_health ids h e = (if ep_ID e \<in> ids then e\<lparr>UnHealthy := \<not> h\<rparr> else e)"

lemma with_health_keeps [simp]:
  "ep_ID (with_health ids h e) = ep_ID e" "ep_Address (with_health ids h e) = ep_Address e"
  "(\<not> UnHealthy (with_health ids h e)) = (if ep_ID e \<in> ids then h else \<not> UnHealthy e)"
  by (simp_all add: with_health_def)

lemma indexed_by_map: "indexed_by f (map (with_health ids h) es) = map (\<lambda>e. (ep_ID e, f (with_health ids h e))) es"
  by (simp add: indexed_by_def)

text \<open>After the first loop the health indexes are those of the changed endpoints.\<close>

lemma health_loop_spec:
  fixes s :: "'h EndpointSnapshot"
  assumes "distinct (map ep_ID (ps @ es))"
    and "\<And>e. e \<in> set es \<Longrightarrow> map_of addresses (ep_ID e) = Some (address_of e)"
    and "healthyByID s = indexed_by (\<lambda>e. \<not> UnHealthy e) (map (with_health (set ids) h) ps)"
    and "map_of (healthyByAddress s) = address_health (map (with_health (set ids) h) ps)"
  shows "\<exists>m. health_loop ids h addresses (indexed_by (\<lambda>e. \<not> UnHealthy e) es) s =
      s\<lparr>healthyByID := indexed_by (\<lambda>e. \<not> UnHealthy e) (map (with_health (set ids) h) (ps @ es)),
        healthyByAddress := m\<rparr>
    \<and> map_of m = address_health (map (with_health (set ids) h) (ps @ es))"
  using assms
proof (induction es arbitrary: ps s)
  case Nil
  then show ?case by (intro exI [of _ "healthyByAddress s"]) simp
next
  case (Cons e es)
  define e' where "e' = with_health (set ids) h e"
  define s' where "s' = addAddressHealth (address_of e) (\<not> UnHealthy e')
    (s\<lparr>healthyByID := AList.update (ep_ID e) (\<not> UnHealthy e') (healthyByID s)\<rparr>)"
  have fresh: "ep_ID e \<notin> fst ` set (healthyByID s)"
    using Cons.prems(1,3) by (simp add: image_image) 
  have step: "health_loop ids h addresses (indexed_by (\<lambda>e. \<not> UnHealthy e) (e # es)) s =
      health_loop ids h addresses (indexed_by (\<lambda>e. \<not> UnHealthy e) es) s'"
    using Cons.prems(2) [of e] by (simp add: Let_def s'_def e'_def)
  have id': "healthyByID s' = indexed_by (\<lambda>e. \<not> UnHealthy e) (map (with_health (set ids) h) (ps @ [e]))"
    using fresh Cons.prems(3) addAddressHealth_address(1) [of "address_of e" "\<not> UnHealthy e'"
        "s\<lparr>healthyByID := AList.update (ep_ID e) (\<not> UnHealthy e') (healthyByID s)\<rparr>"]
    by (simp add: s'_def e'_def addAddressHealth_def split: option.split)
  have addr': "map_of (healthyByAddress s') = address_health (map (with_health (set ids) h) (ps @ [e]))"
    using Cons.prems(4)
    by (simp add: s'_def addAddressHealth_address(2) address_health_snoc e'_def del: with_health_keeps(3))
  have keep: "s'\<lparr>healthyByID := x, healthyByAddress := m\<rparr> = s\<lparr>healthyByID := x, healthyByAddress := m\<rparr>"
    for x m by (simp add: s'_def addAddressHealth_def split: option.split)
  have "distinct (map ep_ID ((ps @ [e]) @ es))"
    and "\<And>e. e \<in> set es \<Longrightarrow> map_of addresses (ep_ID e) = Some (address_of e)"
    using Cons.prems(1,2) by simp_all
  from Cons.IH [OF this id' addr'] show ?case unfolding step keep append_assoc append_Cons append_Nil .
qed

text \<open>The second loop rebuilds the lists of endpoints.\<close>

lemma endpoint_loop_spec:
  fixes s :: "'h EndpointSnapshot"
  assumes "distinct (map ep_ID (ps @ es))"
    and "healthyByID s = indexed_by (\<lambda>e. \<not> UnHealthy e) (map (with_health (set ids) h) (ps @ es))"
    and "es_all s = map (with_health (set ids) h) ps"
    and "es_healthy s = filter (\<lambda>e. \<not> UnHealthy e) (map (with_health (set ids) h) ps)"
    and "endpointByID s = indexed_by id (es_all s)"
    and "healthyEndpointByID s = indexed_by id (es_healthy s)"
  defines "all' \<equiv> map (with_health (set ids) h) (ps @ es)"
  shows "endpoint_loop ids h es s = s\<lparr>es_all := all', es_healthy := filter (\<lambda>e. \<not> UnHealthy e) all',
      endpointByID := indexed_by id all',
      healthyEndpointByID := indexed_by id (filter (\<lambda>e. \<not> UnHealthy e) all')\<rparr>"
  using assms(1-6) unfolding all'_def
proof (induction es arbitrary: ps s)
  case Nil
  then show ?case by simp
next
  case (Cons e es)
  define e' where "e' = with_health (set ids) h e"
  define s1 where "s1 = s\<lparr>es_all := es_all s @ [e'], endpointByID := endpointByID s @ [(ep_ID e, e')]\<rparr>"
  define s' where "s' = (if \<not> UnHealthy e'
    then s1\<lparr>es_healthy := es_healthy s @ [e'], healthyEndpointByID := healthyEndpointByID s @ [(ep_ID e, e')]\<rparr>
    else s1)"
  have fresh: "ep_ID e \<notin> fst ` set (endpointByID s)" "ep_ID e \<notin> fst ` set (healthyEndpointByID s)"
    using Cons.prems by (auto simp: image_iff)
  have "map_of (healthyByID s) (ep_ID e') = Some (\<not> UnHealthy e')"
    unfolding Cons.prems(2) by (rule map_of_indexed_by) (use Cons.prems(1) in \<open>simp_all add: e'_def comp_def\<close>)
  then have lookup: "(map_of (healthyByID s) (ep_ID e) = Some True) = (\<not> UnHealthy e')"
    by (simp add: e'_def del: with_health_keeps(3))
  have keep: "s'\<lparr>es_all := w, es_healthy := x, endpointByID := y, healthyEndpointByID := z\<rparr> =
      s\<lparr>es_all := w, es_healthy := x, endpointByID := y, healthyEndpointByID := z\<rparr>" for w x y z
    by (simp add: s'_def s1_def)
  have e': "(if ep_ID e \<in> set ids then e\<lparr>UnHealthy := \<not> h\<rparr> else e) = e'"
    by (simp add: e'_def with_health_def)
  have "endpoint_loop ids h (e # es) s = endpoint_loop ids h es s'"
    unfolding endpoint_loop.simps Let_def CloneEndpoint_id option.sel e'
    using fresh by (simp add: s'_def s1_def lookup del: map_of_eq_Some_iff)
  also have "\<dots> = s'\<lparr>es_all := map (with_health (set ids) h) ((ps @ [e]) @ es),
      es_healthy := filter (\<lambda>e. \<not> UnHealthy e) (map (with_health (set ids) h) ((ps @ [e]) @ es)),
      endpointByID := indexed_by id (map (with_health (set ids) h) ((ps @ [e]) @ es)),
      healthyEndpointByID := indexed_by id (filter (\<lambda>e. \<not> UnHealthy e) (map (with_health (set ids) h) ((ps @ [e]) @ es)))\<rparr>"
    by (rule Cons.IH) (use Cons.prems in \<open>simp_all add: s'_def s1_def e'_def\<close>)
  finally show ?case unfolding keep append_assoc append_Cons append_Nil .
qed

text \<open>What a health change may do to the endpoints that a condition selects, and to no others.\<close>

definition changes_exactly ::
    "(Endpoint \<Rightarrow> bool) \<Rightarrow> bool \<Rightarrow> 'h EndpointSnapshot \<Rightarrow> 'h health_change \<Rightarrow> bool" where
  "changes_exactly P h s r =
     (case r of
        NotFound \<Rightarrow> \<forall>e \<in> set (es_all s). \<not> P e
      | Unchanged \<Rightarrow> (\<exists>e \<in> set (es_all s). P e) \<and> (\<forall>e \<in> set (es_all s). P e \<longrightarrow> UnHealthy e = (\<not> h))
      | Changed s' \<Rightarrow>
          (\<exists>e \<in> set (es_all s). P e \<and> UnHealthy e = h)
          \<and> snapshot_inv s'
          \<and> es_all s' = map (\<lambda>e. if P e then e\<lparr>UnHealthy := \<not> h\<rparr> else e) (es_all s)
          \<and> lbPolicy s' = lbPolicy s \<and> consistentHashConfig s' = consistentHashConfig s
          \<and> \<not> consistentHashOnce s' \<and> es_consistentHash s' = None)"

lemma withEndpointHealthForIDs_spec:
  assumes inv: "snapshot_inv s" and ids: "set ids = ep_ID ` {e \<in> set (es_all s). P e}"
  shows "changes_exactly P h s (withEndpointHealthForIDs ids h s)"
proof -
  have d: "distinct (map ep_ID (es_all s))" using inv by (simp add: snapshot_inv_def)
  have mem: "ep_ID e \<in> set ids \<longleftrightarrow> P e" if "e \<in> set (es_all s)" for e
    using that d ids by (auto simp: distinct_map inj_on_def)
  have upd: "map (with_health (set ids) h) (es_all s) =
      map (\<lambda>e. if P e then e\<lparr>UnHealthy := \<not> h\<rparr> else e) (es_all s)"
    by (simp add: with_health_def mem)
  have health: "(map_of (healthyByID s) (ep_ID e) = Some True) = (\<not> UnHealthy e)" if "e \<in> set (es_all s)" for e
    using that d by (auto simp: inv_lookups(2) [OF inv] distinct_map inj_on_def)
  have same: "(\<forall>i \<in> set ids. (map_of (healthyByID s) i = Some True) = h) \<longleftrightarrow>
      (\<forall>e \<in> set (es_all s). P e \<longrightarrow> UnHealthy e = (\<not> h))"
    unfolding ids using health by auto
  have empty: "ids = [] \<longleftrightarrow> (\<forall>e \<in> set (es_all s). \<not> P e)"
    using ids by (metis (mono_tags, lifting) Collect_empty_eq image_is_empty set_empty)
  show ?thesis
  proof (cases "ids = [] \<or> (\<forall>i \<in> set ids. (map_of (healthyByID s) i = Some True) = h)")
    case True
    then show ?thesis
      using same empty by (auto simp: withEndpointHealthForIDs_def changes_exactly_def)
  next
    case False
    define nx where "nx = (newEndpointSnapshotIndex :: 'a EndpointSnapshot)\<lparr>addressByID := addressByID s,
      lbPolicy := lbPolicy s, consistentHashConfig := consistentHashConfig s\<rparr>"
    define all' where "all' = map (with_health (set ids) h) (es_all s)"
    have "map_of (addressByID s) (ep_ID e) = Some (address_of e)" if "e \<in> set (es_all s)" for e
      using that by (auto simp: inv_lookups(1) [OF inv])
    then obtain m where m: "health_loop ids h (addressByID s) (healthyByID s) nx =
        nx\<lparr>healthyByID := indexed_by (\<lambda>e. \<not> UnHealthy e) all', healthyByAddress := m\<rparr>"
        "map_of m = address_health all'"
      using health_loop_spec [of "[]" "es_all s" "addressByID s" nx ids h] d inv
      by (auto simp: nx_def newEndpointSnapshotIndex_def address_health_def snapshot_inv_def all'_def)
    have r: "withEndpointHealthForIDs ids h s = Changed
        (nx\<lparr>healthyByID := indexed_by (\<lambda>e. \<not> UnHealthy e) all', healthyByAddress := m,
          es_all := all', es_healthy := filter (\<lambda>e. \<not> UnHealthy e) all', endpointByID := indexed_by id all',
          healthyEndpointByID := indexed_by id (filter (\<lambda>e. \<not> UnHealthy e) all')\<rparr>)"
      using False endpoint_loop_spec [of "[]" "es_all s" "nx\<lparr>healthyByID := indexed_by (\<lambda>e. \<not> UnHealthy e) all',
          healthyByAddress := m\<rparr>" ids h] d
      by (simp add: withEndpointHealthForIDs_def Let_def nx_def [symmetric] m(1) all'_def)
        (simp add: nx_def newEndpointSnapshotIndex_def)
    have "distinct (map ep_ID all')" using d by (simp add: all'_def comp_def)
    moreover have "addressByID s = indexed_by address_of all'"
      using inv by (simp add: snapshot_inv_def all'_def indexed_by_def)
    ultimately show ?thesis
      using False same empty m(2) unfolding r changes_exactly_def
      by (auto simp: snapshot_inv_def nx_def newEndpointSnapshotIndex_def all'_def upd)
  qed
qed

lemma address_health_spec:
  assumes "snapshot_inv s"
  shows "changes_exactly (\<lambda>e. address_of e = a) h s (withEndpointAddressHealth a h s)"
proof -
  have "set (map fst (filter (\<lambda>(i, b). b = a) (addressByID s))) =
      ep_ID ` {e \<in> set (es_all s). address_of e = a}"
    using assms by (force simp: snapshot_inv_def indexed_by_def)
  from withEndpointHealthForIDs_spec [OF assms this] show ?thesis
    by (simp add: withEndpointAddressHealth_def Let_def)
qed

text \<open>
  C29: health events change exactly their endpoints. On a consistent snapshot a health event for an
  address, or for an identity at an address, is refused exactly when no endpoint has it; it returns
  the same snapshot exactly when all selected endpoints already have that health; otherwise it gives
  a new consistent snapshot in which the selected endpoints and no others have the new health, with
  the same balancing policy and without a cached hash.
\<close>

theorem health_changes_exactly:
  assumes "snapshot_inv s"
  shows "changes_exactly (\<lambda>e. address_of e = a) h s (withEndpointAddressHealth a h s)
    \<and> changes_exactly (\<lambda>e. ep_ID e = i \<and> address_of e = a) h s (withEndpointHealth i a h s)"
proof
  show "changes_exactly (\<lambda>e. address_of e = a) h s (withEndpointAddressHealth a h s)"
    using assms by (rule address_health_spec)
  show "changes_exactly (\<lambda>e. ep_ID e = i \<and> address_of e = a) h s (withEndpointHealth i a h s)"
  proof (cases "map_of (addressByID s) i = Some a")
    case True
    then have "set [i] = ep_ID ` {e \<in> set (es_all s). ep_ID e = i \<and> address_of e = a}"
      unfolding inv_lookups(1) [OF assms] by auto
    from withEndpointHealthForIDs_spec [OF assms this] True show ?thesis
      by (simp add: withEndpointHealth_def)
  next
    case False
    then show ?thesis
      using inv_lookups(1) [OF assms, of i a] by (auto simp: withEndpointHealth_def changes_exactly_def)
  qed
qed

subsection \<open>Reading\<close>

lemma map_of_indexed_by_find:
  "distinct (map ep_ID es) \<Longrightarrow> map_of (indexed_by id es) i = find (\<lambda>e. ep_ID e = i) es"
  by (induction es) auto

lemma next_healthy_find:
  assumes "snapshot_inv s" and "set es \<subseteq> set (es_all s)"
  shows "next_healthy (healthyByID s) es = find (\<lambda>e. \<not> UnHealthy e) es"
  using assms(2)
proof (induction es)
  case (Cons e es)
  have "distinct (map ep_ID (es_all s))" using assms(1) by (simp add: snapshot_inv_def)
  with Cons.prems have "(map_of (healthyByID s) (ep_ID e) = Some True) = (\<not> UnHealthy e)"
    by (auto simp: inv_lookups(2) [OF assms(1)] distinct_map inj_on_def)
  with Cons show ?case by (simp del: map_of_eq_Some_iff)
qed simp

lemma nextEndpointStartIndex_drop:
  "(case nextEndpointStartIndex i n es of None \<Rightarrow> [] | Some m \<Rightarrow> drop (m - n) es) =
     tl (dropWhile (\<lambda>e. ep_ID e \<noteq> i) es)
   \<and> (\<forall>m. nextEndpointStartIndex i n es = Some m \<longrightarrow> n < m)"
proof (induction es arbitrary: n)
  case Nil
  then show ?case by simp
next
  case (Cons e es)
  show ?case
  proof (cases "ep_ID e = i")
    case False
    then show ?thesis
      using Cons.IH [of "n + 1"]
      by (auto split: option.splits) (metis Suc_diff_Suc drop_Suc_Cons Suc_lessD)
  qed simp
qed

text \<open>
  C30: what a snapshot answers. On a consistent snapshot every lookup returns what a scan of the
  list of endpoints finds: an endpoint by identity, a healthy endpoint by identity, the healthy
  endpoints in order, and the first healthy endpoint after a given one (none after an unknown one).
\<close>

theorem snapshot_reads:
  assumes "snapshot_inv s"
  shows "EndpointByID i (Some s) = find (\<lambda>e. ep_ID e = i) (es_all s)
    \<and> HealthyEndpointByID i (Some s) = find (\<lambda>e. ep_ID e = i \<and> \<not> UnHealthy e) (es_all s)
    \<and> HealthyEndpointByIDForPick i (Some s) = HealthyEndpointByID i (Some s)
    \<and> HealthyEndpoints (Some s) = map Some (filter (\<lambda>e. \<not> UnHealthy e) (es_all s))
    \<and> NextHealthyEndpoint i (Some s) =
        find (\<lambda>e. \<not> UnHealthy e) (tl (dropWhile (\<lambda>e. ep_ID e \<noteq> i) (es_all s)))"
proof -
  have d: "distinct (map ep_ID (es_all s))" using assms by (simp add: snapshot_inv_def)
  then have "distinct (map ep_ID (filter (\<lambda>e. \<not> UnHealthy e) (es_all s)))"
    by (simp add: distinct_map inj_on_def)
  note finds = map_of_indexed_by_find [OF d] map_of_indexed_by_find [OF this]
  have "NextHealthyEndpoint i (Some s) = find (\<lambda>e. \<not> UnHealthy e)
      (case nextEndpointStartIndex i 0 (es_all s) of None \<Rightarrow> [] | Some m \<Rightarrow> drop (m - 0) (es_all s))"
    using next_healthy_find [OF assms set_drop_subset]
    by (simp add: NextHealthyEndpoint_def split: option.split)
  with assms nextEndpointStartIndex_drop [where i = i and n = 0 and es = "es_all s"] show ?thesis
    by (simp add: EndpointByID_def HealthyEndpointByID_def HealthyEndpointByIDForPick_def
        HealthyEndpoints_def snapshot_inv_def finds find_filter conj_commute)
qed

subsection \<open>Reuse of the consistent hash\<close>

text \<open>The hash that a snapshot should answer with.\<close>

definition wanted_hash :: "'h factories \<Rightarrow> 'h EndpointSnapshot \<Rightarrow> 'h option" where
  "wanted_hash fs s =
     (if es_healthy s = [] then None
      else map_option (\<lambda>f. f (consistentHashConfig s) (map Some (es_healthy s))) (fs (lbPolicy s)))"

definition hash_sound :: "'h factories \<Rightarrow> 'h EndpointSnapshot \<Rightarrow> bool" where
  "hash_sound fs s \<longleftrightarrow>
     es_consistentHash s = (if consistentHashOnce s then wanted_hash fs s else None)"

text \<open>
  What the reuse relies on: a factory looks at nothing but the numbers of the configuration and the
  hosts of the endpoints.
\<close>

locale host_factories =
  fixes fs :: "'h factories"
  assumes by_hosts: "fs lb = Some f \<Longrightarrow> sameConsistentHashConfig c c' \<Longrightarrow>
    list_all2 sameEndpointHostForConsistentHash es es' \<Longrightarrow> f c (map Some es) = f c' (map Some es')"
begin

lemma wanted_reused:
  assumes "canReuseHealthyConsistentHash fs (Some p) s"
  shows "wanted_hash fs p = wanted_hash fs s"
  using assms by_hosts
  by (auto simp: canReuseHealthyConsistentHash_def wanted_hash_def
      sameHealthyEndpointsForConsistentHash_def)

lemma new_snapshot_sound:
  assumes "pred_option (hash_sound fs) previous"
  shows "hash_sound fs (newEndpointSnapshot fs config previous inh)"
proof -
  have "hash_sound fs (reuseHealthyConsistentHashFrom fs previous s)"
    if "\<not> consistentHashOnce s" "es_consistentHash s = None" for s
  proof (cases "canReuseHealthyConsistentHash fs previous s \<and> cachedHealthyConsistentHash previous \<noteq> None")
    case True
    then obtain p where p: "previous = Some p" by (auto simp: canReuseHealthyConsistentHash_def split: option.splits)
    with True assms have "es_consistentHash p = wanted_hash fs p"
      by (auto simp: hash_sound_def cachedHealthyConsistentHash_def split: if_splits)
    with True that p wanted_reused [of p s] show ?thesis
      by (auto simp: hash_sound_def reuseHealthyConsistentHashFrom_def seedHealthyConsistentHash_def
          storeHealthyConsistentHash_def cachedHealthyConsistentHash_def wanted_hash_def)
  next
    case False
    with that show ?thesis
      by (auto simp: hash_sound_def reuseHealthyConsistentHashFrom_def seedHealthyConsistentHash_def)
  qed
  moreover have "\<not> consistentHashOnce (newEndpointSnapshotIndex :: 'h EndpointSnapshot)"
    "es_consistentHash (newEndpointSnapshotIndex :: 'h EndpointSnapshot) = None"
    by (simp_all add: newEndpointSnapshotIndex_def)
  ultimately show ?thesis
    by (cases config) (simp_all add: newEndpointSnapshot_def Let_def)
qed

lemma answer_wanted:
  assumes "hash_sound fs s"
  shows "fst (HealthyConsistentHash fs s) = wanted_hash fs s
    \<and> hash_sound fs (snd (HealthyConsistentHash fs s))"
  using assms
  by (auto simp: hash_sound_def HealthyConsistentHash_def rebuildConsistentHash_def wanted_hash_def
      storeHealthyConsistentHash_def cachedHealthyConsistentHash_def Let_def split: option.splits if_splits)

end

section \<open>Concurrent publication\<close>

text \<open>
  The published snapshot is an atomic pointer. Every update loads it, computes its successor and
  installs it by compare-and-swap, trying again when another update came first. Health updates also
  hold the cluster's mutex and are dropped once the runtime is frozen. The threads are numbered; a
  version stands for the identity of the pointer. The log of completed updates and the list of
  snapshots handed to replacements, each with the length of the log at that time, only record the
  history.
\<close>

datatype 'h cell_op =
    Refresh "'h EndpointSnapshot option"
  | HealthByID string string bool
  | HealthByAddress string bool

fun is_refresh :: "'h cell_op \<Rightarrow> bool" where
  "is_refresh (Refresh previous) = True"
| "is_refresh _ = False"

fun attempt ::
    "'h factories \<Rightarrow> 'h ClusterConfig \<Rightarrow> 'h cell_op \<Rightarrow> 'h EndpointSnapshot option \<Rightarrow> 'h health_change" where
  "attempt fs config (Refresh previous) current = Changed (refreshed fs config previous current)"
| "attempt fs config (HealthByID i a h) current =
     (case current of None \<Rightarrow> NotFound | Some s \<Rightarrow> withEndpointHealth i a h s)"
| "attempt fs config (HealthByAddress a h) current =
     (case current of None \<Rightarrow> NotFound | Some s \<Rightarrow> withEndpointAddressHealth a h s)"

text \<open>The effect of an update that runs alone.\<close>

definition alone ::
    "'h factories \<Rightarrow> 'h ClusterConfig \<Rightarrow> 'h EndpointSnapshot option \<Rightarrow> 'h cell_op \<Rightarrow> 'h EndpointSnapshot option" where
  "alone fs config current op =
     (case attempt fs config op current of Changed nx \<Rightarrow> Some nx | _ \<Rightarrow> current)"

datatype 'h pc = Idle | Trying "'h cell_op" | Computed "'h cell_op" nat "'h EndpointSnapshot"

record 'h cell =
  version :: nat
  cell_value :: "'h EndpointSnapshot option"
  healthMu :: "nat option"
  accepting :: bool
  pcs :: "nat \<Rightarrow> 'h pc"
  cell_log :: "'h cell_op list"
  handed :: "(nat \<times> 'h EndpointSnapshot option) list"

definition new_cell :: "'h EndpointSnapshot option \<Rightarrow> 'h cell" where
  "new_cell v = \<lparr>version = 0, cell_value = v, healthMu = None, accepting = True, pcs = (\<lambda>t. Idle),
     cell_log = [], handed = []\<rparr>"

text \<open>A thread returns: it releases the mutex if it holds it.\<close>

definition return_from :: "nat \<Rightarrow> 'h cell_op \<Rightarrow> 'h cell \<Rightarrow> 'h cell" where
  "return_from t op st = st\<lparr>pcs := (pcs st)(t := Idle), cell_log := cell_log st @ [op],
     healthMu := (if is_refresh op then healthMu st else None)\<rparr>"

inductive cell_step :: "'h factories \<Rightarrow> 'h ClusterConfig \<Rightarrow> 'h cell \<Rightarrow> 'h cell \<Rightarrow> bool"
  for fs config where
  begin_refresh: "pcs st t = Idle \<Longrightarrow>
    cell_step fs config st (st\<lparr>pcs := (pcs st)(t := Trying (Refresh previous))\<rparr>)"
| begin_health: "pcs st t = Idle \<Longrightarrow> \<not> is_refresh op \<Longrightarrow> healthMu st = None \<Longrightarrow> accepting st \<Longrightarrow>
    cell_step fs config st (st\<lparr>pcs := (pcs st)(t := Trying op), healthMu := Some t\<rparr>)"
| freeze: "healthMu st = None \<Longrightarrow>
    cell_step fs config st (st\<lparr>accepting := False,
      handed := handed st @ [(length (cell_log st), cell_value st)]\<rparr>)"
| give_up: "pcs st t = Trying op \<Longrightarrow>
    attempt fs config op (cell_value st) = NotFound \<or> attempt fs config op (cell_value st) = Unchanged \<Longrightarrow>
    cell_step fs config st (return_from t op st)"
| compute: "pcs st t = Trying op \<Longrightarrow> attempt fs config op (cell_value st) = Changed nx \<Longrightarrow>
    cell_step fs config st (st\<lparr>pcs := (pcs st)(t := Computed op (version st) nx)\<rparr>)"
| swap: "pcs st t = Computed op v nx \<Longrightarrow> v = version st \<Longrightarrow>
    cell_step fs config st (return_from t op (st\<lparr>cell_value := Some nx, version := version st + 1\<rparr>))"
| swap_fails: "pcs st t = Computed op v nx \<Longrightarrow> v \<noteq> version st \<Longrightarrow>
    cell_step fs config st (st\<lparr>pcs := (pcs st)(t := Trying op)\<rparr>)"

definition cell_run :: "'h factories \<Rightarrow> 'h ClusterConfig \<Rightarrow> 'h cell \<Rightarrow> 'h cell \<Rightarrow> bool" where
  "cell_run fs config = (cell_step fs config)\<^sup>*\<^sup>*"

definition running_op :: "'h pc \<Rightarrow> 'h cell_op option" where
  "running_op p = (case p of Idle \<Rightarrow> None | Trying op \<Rightarrow> Some op | Computed op v nx \<Rightarrow> Some op)"

definition cell_inv ::
    "'h factories \<Rightarrow> 'h ClusterConfig \<Rightarrow> 'h EndpointSnapshot option \<Rightarrow> 'h cell \<Rightarrow> bool" where
  "cell_inv fs config v0 st \<longleftrightarrow>
     cell_value st = foldl (alone fs config) v0 (cell_log st)
     \<and> (\<forall>t op v nx. pcs st t = Computed op v nx \<longrightarrow>
          v \<le> version st \<and> (v = version st \<longrightarrow> attempt fs config op (cell_value st) = Changed nx))
     \<and> (\<forall>t op. running_op (pcs st t) = Some op \<and> \<not> is_refresh op \<longrightarrow> healthMu st = Some t)
     \<and> (\<not> accepting st \<longrightarrow> (\<forall>t op. running_op (pcs st t) = Some op \<longrightarrow> is_refresh op))
     \<and> (handed st \<noteq> [] \<longrightarrow> \<not> accepting st)
     \<and> (\<forall>(n, v) \<in> set (handed st). n \<le> length (cell_log st)
          \<and> v = foldl (alone fs config) v0 (take n (cell_log st))
          \<and> list_all is_refresh (drop n (cell_log st)))"

text \<open>An update that completes with the effect it has alone keeps the invariant.\<close>

lemma cell_inv_return:
  assumes inv: "cell_inv fs config v0 st" and op: "running_op (pcs st t) = Some op"
    and w: "w = alone fs config (cell_value st) op"
    and u: "u = version st \<and> w = cell_value st \<or> u = version st + 1"
  shows "cell_inv fs config v0 (return_from t op (st\<lparr>cell_value := w, version := u\<rparr>))"
proof -
  let ?st' = "return_from t op (st\<lparr>cell_value := w, version := u\<rparr>)"
  have st': "cell_value ?st' = w" "version ?st' = u" "accepting ?st' = accepting st" "handed ?st' = handed st"
    "pcs ?st' = (pcs st)(t := Idle)" "cell_log ?st' = cell_log st @ [op]"
    "healthMu ?st' = (if is_refresh op then healthMu st else None)"
    by (simp_all add: return_from_def)
  have "w = foldl (alone fs config) v0 (cell_log st @ [op])"
    using inv w by (simp add: cell_inv_def)
  moreover have "v \<le> u \<and> (v = u \<longrightarrow> attempt fs config op' w = Changed nx)"
    if "((pcs st)(t := Idle)) t' = Computed op' v nx" for t' op' v nx
  proof -
    have "pcs st t' = Computed op' v nx" using that by (simp split: if_splits)
    with inv have "v \<le> version st \<and> (v = version st \<longrightarrow> attempt fs config op' (cell_value st) = Changed nx)"
      unfolding cell_inv_def by blast
    with u show ?thesis by auto
  qed
  moreover have "(if is_refresh op then healthMu st else None) = Some t'"
    if "running_op (((pcs st)(t := Idle)) t') = Some op'" "\<not> is_refresh op'" for t' op'
  proof -
    have t': "t' \<noteq> t" "running_op (pcs st t') = Some op'"
      using that(1) by (auto simp: running_op_def split: if_splits)
    with inv that(2) have "healthMu st = Some t'" by (simp add: cell_inv_def)
    moreover from this t'(1) inv op have "is_refresh op" by (auto simp: cell_inv_def)
    ultimately show ?thesis by simp
  qed
  moreover have "is_refresh op'" if "\<not> accepting st" "running_op (((pcs st)(t := Idle)) t') = Some op'" for t' op'
    using that inv by (auto simp: cell_inv_def running_op_def split: if_splits)
  moreover have "n \<le> length (cell_log st @ [op]) \<and> v = foldl (alone fs config) v0 (take n (cell_log st @ [op]))
      \<and> list_all is_refresh (drop n (cell_log st @ [op]))" if "(n, v) \<in> set (handed st)" for n v
  proof -
    have "n \<le> length (cell_log st)" "v = foldl (alone fs config) v0 (take n (cell_log st))"
      "list_all is_refresh (drop n (cell_log st))"
      using inv that by (auto simp: cell_inv_def)
    moreover have "is_refresh op" using inv that op by (auto simp: cell_inv_def)
    ultimately show ?thesis by simp
  qed
  moreover have "handed st \<noteq> [] \<longrightarrow> \<not> accepting st" using inv by (simp add: cell_inv_def)
  ultimately show ?thesis unfolding cell_inv_def st' by blast
qed

lemma cell_inv_move:
  assumes inv: "cell_inv fs config v0 st" and p: "running_op p = running_op (pcs st t)"
    and "\<And>op v nx. p = Computed op v nx \<Longrightarrow>
      v \<le> version st \<and> (v = version st \<longrightarrow> attempt fs config op (cell_value st) = Changed nx)"
  shows "cell_inv fs config v0 (st\<lparr>pcs := (pcs st)(t := p)\<rparr>)"
proof -
  have "running_op (((pcs st)(t := p)) t') = running_op (pcs st t')" for t' using p by simp
  moreover have "v \<le> version st \<and> (v = version st \<longrightarrow> attempt fs config op (cell_value st) = Changed nx)"
    if "((pcs st)(t := p)) t' = Computed op v nx" for t' op v nx
    using that inv assms(3) [of op v nx] unfolding cell_inv_def by (cases "t' = t") auto
  ultimately show ?thesis using inv by (simp add: cell_inv_def)
qed

lemma cell_inv_step:
  assumes "cell_step fs config st st'" and "cell_inv fs config v0 st"
  shows "cell_inv fs config v0 st'"
  using assms
proof cases
  case (begin_refresh t previous)
  with assms(2) show ?thesis by (auto simp: cell_inv_def running_op_def)
next
  case (begin_health t op)
  with assms(2) show ?thesis by (auto simp: cell_inv_def running_op_def)
next
  case freeze
  with assms(2) show ?thesis by (fastforce simp: cell_inv_def)
next
  case (give_up t op)
  then have "alone fs config (cell_value st) op = cell_value st" "running_op (pcs st t) = Some op"
    by (auto simp: alone_def running_op_def)
  with cell_inv_return [OF assms(2), of t op "cell_value st" "version st"] give_up(1) show ?thesis by simp
next
  case (compute t op nx)
  then show ?thesis
    using cell_inv_move [OF assms(2), of "Computed op (version st) nx" t] by (simp add: running_op_def)
next
  case (swap t op v nx)
  then have "alone fs config (cell_value st) op = Some nx" "running_op (pcs st t) = Some op"
    using assms(2) by (auto simp: alone_def running_op_def cell_inv_def)
  with cell_inv_return [OF assms(2), of t op "Some nx" "version st + 1"] swap(1) show ?thesis by simp
next
  case (swap_fails t op v nx)
  then show ?thesis
    using cell_inv_move [OF assms(2), of "Trying op" t] by (simp add: running_op_def)
qed

lemma cell_inv_run:
  assumes "cell_run fs config (new_cell v0) st"
  shows "cell_inv fs config v0 st"
  using assms unfolding cell_run_def
proof (induction rule: rtranclp_induct)
  case base
  then show ?case by (simp add: cell_inv_def new_cell_def running_op_def)
next
  case (step st st')
  then show ?case by (blast intro: cell_inv_step)
qed

text \<open>
  C31: no update of a published snapshot is lost. In every interleaving of refreshes and health
  updates by any number of threads, with their failed swaps, the published snapshot is the result of
  the completed updates run one after the other in the order in which they completed. A snapshot
  handed to a replacing runtime holds every health update that ever completes: after it was taken
  only refreshes complete.
\<close>

theorem publication_linearizable:
  assumes "cell_run fs config (new_cell v0) st"
  shows "cell_value st = foldl (alone fs config) v0 (cell_log st)
    \<and> (\<forall>n v. (n, v) \<in> set (handed st) \<longrightarrow>
          v = foldl (alone fs config) v0 (take n (cell_log st))
          \<and> list_all is_refresh (drop n (cell_log st)))"
  using cell_inv_run [OF assms] by (auto simp: cell_inv_def)

section \<open>Examples\<close>

definition sample_config :: "unit ClusterConfig" where
  "sample_config =
     \<lparr>cc_Name = ''c'', TypeStr = '''', cc_Type = 0, eds_ServiceName = '''', LbStr = '''',
      cc_ConsistentHash = \<lparr>ReplicaNum = 0, MaxVnodeNum = 0, MaglevTableSize = 0, ch_Hash = None\<rparr>,
      HealthChecks = [plain_check],
      Endpoints = [Some (plain_endpoint ''a'' ''h'' 1), None, Some (plain_endpoint ''a'' ''i'' 2)],
      PrePickEndpointIndex = 0, ConfigID = 1\<rparr>"

definition sample_snapshot :: "unit EndpointSnapshot" where
  "sample_snapshot = newEndpointSnapshot (\<lambda>lb. None) (Some sample_config) None True"

lemma sample_all:
  "es_all sample_snapshot = [plain_endpoint ''a'' ''h'' 1, plain_endpoint ''a-2'' ''i'' 2]"
  by (simp add: sample_snapshot_def new_snapshot_all sample_config_def plain_endpoint_def
      StableUniqueEndpointID_def next_suffix.simps suffixed_def show_nat.simps digit_char_def char_of_def bit_iff_odd
      endpointSnapshotHealth_def)

lemma sample_snapshot_inv: "snapshot_inv sample_snapshot"
  by (simp add: sample_snapshot_def new_snapshot_inv)

theorem newEndpointSnapshot_spec_witness:
  "snapshot_inv (newEndpointSnapshot (\<lambda>lb. None) (Some sample_config) (Some sample_snapshot) True)
   \<and> length (es_all (newEndpointSnapshot (\<lambda>lb. None) (Some sample_config) (Some sample_snapshot) True)) = 2"
  using newEndpointSnapshot_spec [of "Some sample_snapshot" "\<lambda>lb. None" sample_config True]
  by (simp add: sample_snapshot_inv Let_def sample_config_def)

theorem health_changes_exactly_witness:
  "case withEndpointAddressHealth ''h:1'' False sample_snapshot of
     Changed s \<Rightarrow> map UnHealthy (es_all s) = [True, False]
   | _ \<Rightarrow> False"
  using health_changes_exactly [OF sample_snapshot_inv, of "''h:1''" False "''a''"]
  by (cases "withEndpointAddressHealth ''h:1'' False sample_snapshot")
    (simp_all add: changes_exactly_def sample_all plain_endpoint_def GetAddress_def show_int_def
      show_nat.simps digit_char_def char_of_def bit_iff_odd)

theorem snapshot_reads_witness:
  "NextHealthyEndpoint ''a'' (Some sample_snapshot) = Some (plain_endpoint ''a-2'' ''i'' 2)"
  using snapshot_reads [OF sample_snapshot_inv, of "''a''"]
  by (simp add: sample_all plain_endpoint_def)

theorem publication_linearizable_witness:
  "\<exists>st. cell_run (\<lambda>lb. None) sample_config (new_cell (Some sample_snapshot)) st
     \<and> cell_log st = [Refresh None]
     \<and> cell_value st = Some (refreshed (\<lambda>lb. None) sample_config None (Some sample_snapshot))"
proof -
  let ?step = "cell_step (\<lambda>lb. None) sample_config" and ?s0 = "new_cell (Some sample_snapshot)"
  let ?nx = "refreshed (\<lambda>lb. None) sample_config None (Some sample_snapshot)"
  let ?s1 = "?s0\<lparr>pcs := (pcs ?s0)(0 := Trying (Refresh None))\<rparr>"
  let ?s2 = "?s1\<lparr>pcs := (pcs ?s1)(0 := Computed (Refresh None) (version ?s1) ?nx)\<rparr>"
  let ?s3 = "return_from 0 (Refresh None) (?s2\<lparr>cell_value := Some ?nx, version := version ?s2 + 1\<rparr>)"
  have "?step ?s0 ?s1" by (rule begin_refresh) (simp add: new_cell_def)
  moreover have "?step ?s1 ?s2" by (rule compute) (simp_all add: new_cell_def)
  moreover have "?step ?s2 ?s3" by (rule swap) (simp_all add: new_cell_def)
  ultimately have run: "cell_run (\<lambda>lb. None) sample_config ?s0 ?s3"
    unfolding cell_run_def by (meson rtranclp.rtrancl_into_rtrancl rtranclp.rtrancl_refl)
  moreover have "cell_log ?s3 = [Refresh None]" by (simp add: return_from_def new_cell_def)
  ultimately show ?thesis
    using publication_linearizable [OF run]
    by (intro exI [of _ ?s3]) (simp add: return_from_def new_cell_def)
qed

end
