(* ===== verification/Pixiu_ClusterStore.thy ===== *)
theory Pixiu_ClusterStore
  imports Pixiu_Snapshots
begin

text \<open>
  The store of clusters: \<open>ClusterStore\<close> of \<open>pkg/server/cluster_manager.go\<close>. The store holds the
  configurations in order and, by name, pointers to the runtime clusters. Runtime clusters live in a
  heap that is never shrunk, so that a runtime that is no longer referenced but was not stopped stays
  visible. A configuration belongs to the store once it was handed over; the operations return it as
  the code leaves it behind its pointer. A nil map reads as the empty map. The operations run under
  the lock of the manager, so each of them is atomic.
\<close>

section \<open>Process state\<close>

record 'h process =
  clusterIndex :: "32 word"
  configIDSeq :: "64 word"
  runtimes :: "'h Cluster list"

record 'h ClusterStore =
  st_Config :: "'h ClusterConfig option list"
  Version :: "32 word"
  clustersMap :: "(string \<times> nat) list"

definition change_runtime :: "nat \<Rightarrow> ('h Cluster \<Rightarrow> 'h Cluster) \<Rightarrow> 'h process \<Rightarrow> 'h process" where
  "change_runtime r f p = p\<lparr>runtimes := (runtimes p)[r := f (runtimes p ! r)]\<rparr>"

text \<open>\<open>stopClusters\<close> skips nil and what it stopped already.\<close>

fun stop_loop :: "nat list \<Rightarrow> nat option list \<Rightarrow> 'h process \<Rightarrow> 'h process" where
  "stop_loop stopped [] p = p"
| "stop_loop stopped (None # rs) p = stop_loop stopped rs p"
| "stop_loop stopped (Some r # rs) p =
     (if r \<in> set stopped then stop_loop stopped rs p
      else stop_loop (r # stopped) rs (change_runtime r cluster_Stop p))"

definition stopClusters :: "nat option list \<Rightarrow> 'h process \<Rightarrow> 'h process" where
  "stopClusters clusters p = stop_loop [] clusters p"

section \<open>Preparing a configuration\<close>

definition default_name :: "nat \<Rightarrow> Endpoint \<Rightarrow> Endpoint" where
  "default_name i e =
     (if ep_Name e = '''' \<and> ep_LLMMeta e \<noteq> None
      then e\<lparr>ep_Name := ''endpoint-'' @ show_nat (i + 1) @ ''#'' @
             (case ep_LLMMeta e of None \<Rightarrow> '''' | Some m \<Rightarrow> Provider m)\<rparr>
      else if ep_Name e = '''' \<and> ep_LLMMeta e = None
      then e\<lparr>ep_Name := ''endpoint-'' @ show_nat (i + 1)\<rparr>
      else e)"

fun assemble_loop :: "string \<Rightarrow> nat \<Rightarrow> string list \<Rightarrow> Endpoint option list \<Rightarrow> Endpoint option list" where
  "assemble_loop name i endpointIDs [] = []"
| "assemble_loop name i endpointIDs (None # es) = None # assemble_loop name (i + 1) endpointIDs es"
| "assemble_loop name i endpointIDs (Some e # es) =
     (let e =
        (if ep_ID e = '''' then e\<lparr>ep_ID := StableUniqueEndpointID name (Some e) endpointIDs\<rparr>
         else if ep_ID e \<in> set endpointIDs
         then e\<lparr>ep_ID := StableUniqueEndpointID name (Some e) endpointIDs\<rparr>
         else e)
      in Some (default_name i e) # assemble_loop name (i + 1) (ep_ID e # endpointIDs) es)"

definition assembleClusterEndpoints :: "'h ClusterConfig \<Rightarrow> 'h ClusterConfig" where
  "assembleClusterEndpoints c = c\<lparr>Endpoints := assemble_loop (cc_Name c) 0 [] (Endpoints c)\<rparr>"

definition prepareOwnedClusterConfig ::
    "'h factories \<Rightarrow> 'h ClusterConfig \<Rightarrow> 'h process \<Rightarrow> 'h ClusterConfig \<times> 'h process" where
  "prepareOwnedClusterConfig fs c p =
     (let (c, p) =
        (if ConfigID c = 0
         then (c\<lparr>ConfigID := configIDSeq p + 1\<rparr>, p\<lparr>configIDSeq := configIDSeq p + 1\<rparr>)
         else (c, p));
          c = assembleClusterEndpoints c;
          c = (if HasConsistentHashFactory fs c
               then c\<lparr>cc_ConsistentHash := (cc_ConsistentHash c)\<lparr>ch_Hash := None\<rparr>\<rparr> else c)
      in (c, p))"

definition prepareClusterConfig ::
    "'h factories \<Rightarrow> 'h ClusterConfig \<Rightarrow> 'h process \<Rightarrow> 'h ClusterConfig \<times> 'h process" where
  "prepareClusterConfig fs c p =
     prepareOwnedClusterConfig fs (c\<lparr>Endpoints := CloneEndpoints (Endpoints c)\<rparr>) p"

section \<open>Runtimes\<close>

text \<open>The constructor returns a runtime, since the configuration is not nil.\<close>

definition replaceClusterRuntimeWithSnapshot ::
    "'h factories \<Rightarrow> string \<Rightarrow> 'h ClusterConfig \<Rightarrow> 'h EndpointSnapshot option
     \<Rightarrow> 'h process \<Rightarrow> 'h ClusterStore \<Rightarrow> nat option \<times> 'h process \<times> 'h ClusterStore" where
  "replaceClusterRuntimeWithSnapshot fs name config previous p s =
     (let oldRuntime = map_of (clustersMap s) name;
          cloned = CloneClusterConfig fs (Some config);
          runtime = the (NewClusterWithEndpointSnapshot fs cloned previous)
      in (oldRuntime, p\<lparr>runtimes := runtimes p @ [runtime]\<rparr>,
          s\<lparr>clustersMap := AList.update name (length (runtimes p)) (clustersMap s)\<rparr>))"

definition snapshotForRuntimeReplacement ::
    "'h ClusterStore \<Rightarrow> string \<Rightarrow> 'h process \<Rightarrow> 'h EndpointSnapshot option \<times> 'h process" where
  "snapshotForRuntimeReplacement old name p =
     (case map_of (clustersMap old) name of
        None \<Rightarrow> (None, p)
      | Some oldRuntime \<Rightarrow>
          (fst (SnapshotForRuntimeReplacement (runtimes p ! oldRuntime)),
           change_runtime oldRuntime (snd \<circ> SnapshotForRuntimeReplacement) p))"

definition replaceClusterRuntime ::
    "'h factories \<Rightarrow> string \<Rightarrow> 'h ClusterConfig \<Rightarrow> 'h process \<Rightarrow> 'h ClusterStore
     \<Rightarrow> nat option \<times> 'h process \<times> 'h ClusterStore" where
  "replaceClusterRuntime fs name config p s =
     (let (previous, p) = snapshotForRuntimeReplacement s name p
      in replaceClusterRuntimeWithSnapshot fs name config previous p s)"

section \<open>Operations\<close>

fun config_index :: "string \<Rightarrow> 'h ClusterConfig option list \<Rightarrow> nat option" where
  "config_index name [] = None"
| "config_index name (None # cs) = map_option Suc (config_index name cs)"
| "config_index name (Some c # cs) =
     (if cc_Name c = name then Some 0 else map_option Suc (config_index name cs))"

definition findClusterConfig :: "string \<Rightarrow> 'h ClusterStore \<Rightarrow> 'h ClusterConfig option" where
  "findClusterConfig name s =
     (case config_index name (st_Config s) of None \<Rightarrow> None | Some i \<Rightarrow> st_Config s ! i)"

text \<open>\<open>HasCluster\<close> dereferences every configuration up to the one it finds; a nil one panics.\<close>

fun has_cluster :: "string \<Rightarrow> 'h ClusterConfig option list \<Rightarrow> bool option" where
  "has_cluster name [] = Some False"
| "has_cluster name (None # cs) = None"
| "has_cluster name (Some c # cs) = (if cc_Name c = name then Some True else has_cluster name cs)"

definition store_HasCluster :: "string \<Rightarrow> 'h ClusterStore \<Rightarrow> bool option" where
  "store_HasCluster name s = has_cluster name (st_Config s)"

definition IncreaseVersion :: "'h ClusterStore \<Rightarrow> 'h ClusterStore" where
  "IncreaseVersion s = s\<lparr>Version := Version s + 1\<rparr>"

definition store_AddCluster ::
    "'h factories \<Rightarrow> 'h ClusterConfig \<Rightarrow> 'h process \<Rightarrow> 'h ClusterStore
     \<Rightarrow> 'h ClusterConfig \<times> 'h process \<times> 'h ClusterStore" where
  "store_AddCluster fs c p s =
     (let (c, p) =
        (if cc_Name c = ''''
         then (c\<lparr>cc_Name := ''cluster-'' @ show_int (sint (clusterIndex p))\<rparr>,
               p\<lparr>clusterIndex := clusterIndex p + 1\<rparr>)
         else (c, p));
          (c, p) = prepareClusterConfig fs c p;
          s = s\<lparr>st_Config := st_Config s @ [Some c]\<rparr>;
          (oldRuntime, p, s) = replaceClusterRuntime fs (cc_Name c) c p s
      in (c, stopClusters [oldRuntime] p, s))"

definition store_UpdateCluster ::
    "'h factories \<Rightarrow> 'h ClusterConfig \<Rightarrow> 'h process \<Rightarrow> 'h ClusterStore \<Rightarrow> 'h process \<times> 'h ClusterStore" where
  "store_UpdateCluster fs new p s =
     (case config_index (cc_Name new) (st_Config s) of
        None \<Rightarrow> (p, s)
      | Some i \<Rightarrow>
          (let (new, p) = prepareClusterConfig fs new p;
               s = s\<lparr>st_Config := (st_Config s)[i := Some new]\<rparr>;
               (oldReplaced, p, s) = replaceClusterRuntime fs (cc_Name new) new p s;
               p = (case (oldReplaced, map_of (clustersMap s) (cc_Name new)) of
                      (Some oldRuntime, Some newRuntime) \<Rightarrow>
                        change_runtime newRuntime (\<lambda>t. CarryOverCursorTo t (runtimes p ! oldRuntime)) p
                    | _ \<Rightarrow> p)
           in (stopClusters [oldReplaced] p, s)))"

text \<open>
  The runtime an endpoint operation works on: a new one when there is none or when it was built from
  another configuration.
\<close>

definition current_runtime ::
    "'h factories \<Rightarrow> string \<Rightarrow> 'h ClusterConfig \<Rightarrow> 'h process \<Rightarrow> 'h ClusterStore
     \<Rightarrow> nat \<times> 'h process \<times> 'h ClusterStore" where
  "current_runtime fs name clusterConfig p s =
     (let renew =
        (let (oldRuntime, p, s) = replaceClusterRuntime fs name clusterConfig p s;
             p = stopClusters [oldRuntime] p
         in (the (map_of (clustersMap s) name), p, s))
      in case map_of (clustersMap s) name of
           None \<Rightarrow> renew
         | Some r \<Rightarrow>
             if \<not> ConfigIsIdenticalTo (Some clusterConfig) (Some (runtimes p ! r)) then renew
             else (r, p, s))"

subsection \<open>Which slot an endpoint goes to\<close>

definition socketAddressContentEqual :: "SocketAddress \<Rightarrow> SocketAddress \<Rightarrow> bool" where
  "socketAddressContentEqual a b =
     (if sa_Address a \<noteq> sa_Address b \<or> sa_Port a \<noteq> sa_Port b then False
      else if ResolverName a \<noteq> ResolverName b \<or> CertsDir a \<noteq> CertsDir b then False
      else if length (Domains a) \<noteq> length (Domains b) then False
      else (\<forall>i < length (Domains a). Domains a ! i = Domains b ! i))"

text \<open>A map is a list of entries with distinct keys.\<close>

definition stringMapEqualForSet :: "(string \<times> string) list \<Rightarrow> (string \<times> string) list \<Rightarrow> bool" where
  "stringMapEqualForSet a b =
     (if length a \<noteq> length b then False else list_all (\<lambda>(k, v). map_of b k = Some v) a)"

definition llmMetaEqualForSet :: "LLMMeta option \<Rightarrow> LLMMeta option \<Rightarrow> bool" where
  "llmMetaEqualForSet a b \<longleftrightarrow> a = b"

definition endpointContentEqualForSet :: "Endpoint \<Rightarrow> Endpoint \<Rightarrow> bool" where
  "endpointContentEqualForSet a b =
     (if \<not> socketAddressContentEqual (ep_Address a) (ep_Address b) then False
      else if \<not> stringMapEqualForSet (ep_Metadata a) (ep_Metadata b) then False
      else llmMetaEqualForSet (ep_LLMMeta a) (ep_LLMMeta b))"

definition existingEndpointIDs :: "Endpoint option list \<Rightarrow> string list" where
  "existingEndpointIDs endpoints = filter (\<lambda>i. i \<noteq> '''') (map ep_ID (somes endpoints))"

datatype setEndpointAction = setEndpointIdempotent | setEndpointReplace | setEndpointAppend

record setEndpointOutcome =
  targetID :: string
  action :: setEndpointAction
  replaceIdx :: nat

fun resolve_by_id :: "Endpoint \<Rightarrow> nat \<Rightarrow> Endpoint option list \<Rightarrow> setEndpointOutcome" where
  "resolve_by_id incoming i [] =
     \<lparr>targetID = ep_ID incoming, action = setEndpointAppend, replaceIdx = 0\<rparr>"
| "resolve_by_id incoming i (None # es) = resolve_by_id incoming (i + 1) es"
| "resolve_by_id incoming i (Some e # es) =
     (if ep_ID e \<noteq> ep_ID incoming then resolve_by_id incoming (i + 1) es
      else if endpointContentEqualForSet e incoming
      then \<lparr>targetID = ep_ID incoming, action = setEndpointIdempotent, replaceIdx = 0\<rparr>
      else \<lparr>targetID = ep_ID incoming, action = setEndpointReplace, replaceIdx = i\<rparr>)"

definition resolveSetEndpointSlotByID :: "Endpoint \<Rightarrow> Endpoint option list \<Rightarrow> setEndpointOutcome" where
  "resolveSetEndpointSlotByID incoming existing = resolve_by_id incoming 0 existing"

definition resolveSetEndpointSlotByHash ::
    "string \<Rightarrow> Endpoint \<Rightarrow> Endpoint option list \<Rightarrow> setEndpointOutcome" where
  "resolveSetEndpointSlotByHash name incoming existing =
     (let incomingHash = GenerateEndpointID name (Some incoming)
      in case find (\<lambda>e. GenerateEndpointID name (Some e) = incomingHash) (somes existing) of
           Some e \<Rightarrow>
             if endpointContentEqualForSet e incoming
             then \<lparr>targetID = ep_ID e, action = setEndpointIdempotent, replaceIdx = 0\<rparr>
             else \<lparr>targetID = StableUniqueEndpointID name (Some incoming) (existingEndpointIDs existing),
                   action = setEndpointAppend, replaceIdx = 0\<rparr>
         | None \<Rightarrow> \<lparr>targetID = incomingHash, action = setEndpointAppend, replaceIdx = 0\<rparr>)"

definition resolveSetEndpointSlot ::
    "string \<Rightarrow> Endpoint \<Rightarrow> Endpoint option list \<Rightarrow> setEndpointOutcome" where
  "resolveSetEndpointSlot name incoming existing =
     (if ep_ID incoming \<noteq> '''' then resolveSetEndpointSlotByID incoming existing
      else resolveSetEndpointSlotByHash name incoming existing)"

subsection \<open>Endpoints\<close>

definition clusterHasEndpointAddress :: "'h ClusterConfig \<Rightarrow> string \<Rightarrow> bool" where
  "clusterHasEndpointAddress config address \<longleftrightarrow>
     (\<exists>e \<in> set (somes (Endpoints config)). GetAddress (ep_Address e) = address)"

text \<open>
  The endpoints of the store are not those of the runtime, which has copies: the health checker knows
  an endpoint that the store hands to it by its identity only.
\<close>

definition sync_runtime :: "'h factories \<Rightarrow> 'h ClusterConfig \<Rightarrow> 'h Cluster \<Rightarrow> 'h Cluster" where
  "sync_runtime fs config c = RefreshEndpoints fs (SyncConfigEndpoints (Endpoints config) c)"

definition replaceEndpointAt ::
    "'h factories \<Rightarrow> 'h ClusterConfig \<Rightarrow> nat \<Rightarrow> nat \<Rightarrow> Endpoint \<Rightarrow> 'h process
     \<Rightarrow> 'h ClusterConfig \<times> 'h process" where
  "replaceEndpointAt fs config r idx endpoint p =
     (let old = the (Endpoints config ! idx);
          addressChanged = (GetAddress (ep_Address old) \<noteq> GetAddress (ep_Address endpoint));
          p = (if addressChanged then change_runtime r (RemoveEndpoint None (Some old)) p else p);
          config = config\<lparr>Endpoints := (Endpoints config)[idx := Some endpoint]\<rparr>;
          (config, p) = prepareOwnedClusterConfig fs config p;
          p = change_runtime r (sync_runtime fs config) p;
          p = (if addressChanged then change_runtime r (AddEndpoint None (Endpoints config ! idx)) p else p)
      in (config, p))"

definition appendEndpoint ::
    "'h factories \<Rightarrow> 'h ClusterConfig \<Rightarrow> nat \<Rightarrow> Endpoint \<Rightarrow> 'h process \<Rightarrow> 'h ClusterConfig \<times> 'h process" where
  "appendEndpoint fs config r endpoint p =
     (let config = config\<lparr>Endpoints := Endpoints config @ [Some endpoint]\<rparr>;
          (config, p) = prepareOwnedClusterConfig fs config p;
          p = change_runtime r (sync_runtime fs config) p;
          p = change_runtime r (AddEndpoint None (last (Endpoints config))) p
      in (config, p))"

definition new_cluster :: "string \<Rightarrow> 'h ClusterConfig" where
  "new_cluster name =
     \<lparr>cc_Name = name, TypeStr = '''', cc_Type = 0, eds_ServiceName = '''', LbStr = ''RoundRobin'',
      cc_ConsistentHash = \<lparr>ReplicaNum = 0, MaxVnodeNum = 0, MaglevTableSize = 0, ch_Hash = None\<rparr>,
      HealthChecks = [], Endpoints = [], PrePickEndpointIndex = 0, ConfigID = 0\<rparr>"

definition set_in_config ::
    "'h factories \<Rightarrow> string \<Rightarrow> Endpoint \<Rightarrow> nat \<Rightarrow> 'h ClusterConfig \<Rightarrow> 'h process
     \<Rightarrow> string \<times> 'h ClusterConfig \<times> 'h process" where
  "set_in_config fs name endpoint r config p =
     (let outcome = resolveSetEndpointSlot name endpoint (Endpoints config);
          endpoint = endpoint\<lparr>ep_ID := targetID outcome\<rparr>
      in case action outcome of
           setEndpointIdempotent \<Rightarrow> ('''', config, p)
         | setEndpointReplace \<Rightarrow>
             (let oldAddress = GetAddress (ep_Address (the (Endpoints config ! replaceIdx outcome)));
                  (config, p) = replaceEndpointAt fs config r (replaceIdx outcome) endpoint p
              in (if oldAddress \<noteq> GetAddress (ep_Address endpoint) \<and> \<not> clusterHasEndpointAddress config oldAddress
                  then oldAddress else '''', config, p))
         | setEndpointAppend \<Rightarrow> ('''', appendEndpoint fs config r endpoint p))"

text \<open>
  \<open>SetEndpoint\<close> finds the configuration or adds a new one at the end, and then works on it behind
  its pointer: the position in the store.
\<close>

definition set_existing ::
    "'h factories \<Rightarrow> string \<Rightarrow> Endpoint \<Rightarrow> nat \<Rightarrow> 'h process \<Rightarrow> 'h ClusterStore
     \<Rightarrow> string \<times> 'h process \<times> 'h ClusterStore" where
  "set_existing fs name endpoint i p s =
     (let config = the (st_Config s ! i);
          (r, p, s) = current_runtime fs name config p s;
          (address, config, p) = set_in_config fs name endpoint r config p
      in (address, p, s\<lparr>st_Config := (st_Config s)[i := Some config]\<rparr>))"

definition store_SetEndpoint ::
    "'h factories \<Rightarrow> string \<Rightarrow> Endpoint option \<Rightarrow> 'h process \<Rightarrow> 'h ClusterStore
     \<Rightarrow> string \<times> 'h process \<times> 'h ClusterStore" where
  "store_SetEndpoint fs name endpoint p s =
     (case CloneEndpoint endpoint of
        None \<Rightarrow> ('''', p, s)
      | Some endpoint \<Rightarrow>
          (case config_index name (st_Config s) of
             Some i \<Rightarrow> set_existing fs name endpoint i p s
           | None \<Rightarrow>
               (let (c, p, s') = store_AddCluster fs (new_cluster name) p s
                in set_existing fs name endpoint (length (st_Config s)) p s')))"

text \<open>The search dereferences every endpoint up to the one it finds; a nil one panics.\<close>

fun endpoint_index :: "string \<Rightarrow> Endpoint option list \<Rightarrow> nat option option" where
  "endpoint_index endpointID [] = Some None"
| "endpoint_index endpointID (None # es) = None"
| "endpoint_index endpointID (Some e # es) =
     (if ep_ID e = endpointID then Some (Some 0)
      else map_option (map_option Suc) (endpoint_index endpointID es))"

definition store_DeleteEndpoint ::
    "'h factories \<Rightarrow> string \<Rightarrow> string \<Rightarrow> 'h process \<Rightarrow> 'h ClusterStore
     \<Rightarrow> ('h process \<times> 'h ClusterStore) option" where
  "store_DeleteEndpoint fs name endpointID p s =
     (case config_index name (st_Config s) of
        None \<Rightarrow> Some (p, s)
      | Some i \<Rightarrow>
          (let config = the (st_Config s ! i);
               (r, p, s) = current_runtime fs name config p s
           in case endpoint_index endpointID (Endpoints config) of
                None \<Rightarrow> None
              | Some None \<Rightarrow> Some (p, s)
              | Some (Some j) \<Rightarrow>
                  (let p = change_runtime r (RemoveEndpoint None (Endpoints config ! j)) p;
                       config = config\<lparr>Endpoints := take j (Endpoints config) @ drop (j + 1) (Endpoints config)\<rparr>;
                       (config, p) = prepareOwnedClusterConfig fs config p;
                       p = change_runtime r (sync_runtime fs config) p
                   in Some (p, s\<lparr>st_Config := (st_Config s)[i := Some config]\<rparr>))))"

subsection \<open>Repairing runtimes\<close>

definition removeRuntimeClustersNotIn :: "string list \<Rightarrow> 'h ClusterStore \<Rightarrow> nat list \<times> 'h ClusterStore" where
  "removeRuntimeClustersNotIn names s =
     (map snd (filter (\<lambda>(name, r). name \<notin> set names) (clustersMap s)),
      s\<lparr>clustersMap := filter (\<lambda>(name, r). name \<in> set names) (clustersMap s)\<rparr>)"

definition ensure_runtime ::
    "'h factories \<Rightarrow> 'h ClusterConfig \<Rightarrow> 'h process \<Rightarrow> 'h ClusterStore
     \<Rightarrow> nat option \<times> 'h process \<times> 'h ClusterStore" where
  "ensure_runtime fs c p s =
     (let replace = replaceClusterRuntime fs (cc_Name c) c p s
      in case map_of (clustersMap s) (cc_Name c) of
           None \<Rightarrow> replace
         | Some r \<Rightarrow>
             if \<not> ConfigIsIdenticalTo (Some c) (Some (runtimes p ! r)) then replace else (None, p, s))"

text \<open>Names, replaced runtimes, and the state after the configurations from a position on.\<close>

fun ensure_loop ::
    "'h factories \<Rightarrow> nat \<Rightarrow> 'h ClusterConfig option list \<Rightarrow> 'h process \<Rightarrow> 'h ClusterStore
     \<Rightarrow> string list \<times> nat option list \<times> 'h process \<times> 'h ClusterStore" where
  "ensure_loop fs i [] p s = ([], [], p, s)"
| "ensure_loop fs i (None # cs) p s = ensure_loop fs (i + 1) cs p s"
| "ensure_loop fs i (Some c # cs) p s =
     (let (c, p) = prepareClusterConfig fs c p;
          s = s\<lparr>st_Config := (st_Config s)[i := Some c]\<rparr>;
          (oldRuntime, p, s) = ensure_runtime fs c p s;
          (names, replaced, p, s) = ensure_loop fs (i + 1) cs p s
      in (cc_Name c # names, oldRuntime # replaced, p, s))"

definition ensureRuntimeClusters ::
    "'h factories \<Rightarrow> 'h process \<Rightarrow> 'h ClusterStore \<Rightarrow> nat option list \<times> 'h process \<times> 'h ClusterStore" where
  "ensureRuntimeClusters fs p s =
     (let (names, replaced, p, s) = ensure_loop fs 0 (st_Config s) p s;
          (removed, s) = removeRuntimeClustersNotIn names s
      in (replaced @ map Some removed, p, s))"

definition repairRuntimeClusterFromPrevious ::
    "'h factories \<Rightarrow> 'h ClusterStore \<Rightarrow> 'h ClusterConfig \<Rightarrow> 'h process \<Rightarrow> 'h ClusterStore
     \<Rightarrow> nat option \<times> 'h process \<times> 'h ClusterStore" where
  "repairRuntimeClusterFromPrevious fs old c p s =
     (let (previous, p) = snapshotForRuntimeReplacement old (cc_Name c) p;
          replace = replaceClusterRuntimeWithSnapshot fs (cc_Name c) c previous p s
      in case map_of (clustersMap s) (cc_Name c) of
           None \<Rightarrow> replace
         | Some r \<Rightarrow>
             if ConfigIsIdenticalTo (Some c) (Some (runtimes p ! r)) \<and> previous = None then (None, p, s)
             else replace)"

fun repair_loop ::
    "'h factories \<Rightarrow> 'h ClusterStore \<Rightarrow> nat \<Rightarrow> 'h ClusterConfig option list \<Rightarrow> 'h process \<Rightarrow> 'h ClusterStore
     \<Rightarrow> string list \<times> nat option list \<times> 'h process \<times> 'h ClusterStore" where
  "repair_loop fs old i [] p s = ([], [], p, s)"
| "repair_loop fs old i (None # cs) p s = repair_loop fs old (i + 1) cs p s"
| "repair_loop fs old i (Some c # cs) p s =
     (let (c, p) = prepareClusterConfig fs c p;
          s = s\<lparr>st_Config := (st_Config s)[i := Some c]\<rparr>;
          (oldRuntime, p, s) = repairRuntimeClusterFromPrevious fs old c p s;
          (names, replaced, p, s) = repair_loop fs old (i + 1) cs p s
      in if cc_Name c = '''' then (names, replaced, p, s)
         else (cc_Name c # names, oldRuntime # replaced, p, s))"

definition ensureRuntimeClustersFrom ::
    "'h factories \<Rightarrow> 'h ClusterStore \<Rightarrow> 'h process \<Rightarrow> 'h ClusterStore
     \<Rightarrow> nat option list \<times> 'h process \<times> 'h ClusterStore" where
  "ensureRuntimeClustersFrom fs old p s =
     (let (names, replaced, p, s) = repair_loop fs old 0 (st_Config s) p s;
          (removed, s) = removeRuntimeClustersNotIn names s
      in (replaced @ map Some removed, p, s))"

definition runtimeClustersNotIn :: "'h ClusterStore \<Rightarrow> 'h ClusterStore \<Rightarrow> nat list" where
  "runtimeClustersNotIn nextStore s =
     filter (\<lambda>r. r \<notin> snd ` set (clustersMap nextStore)) (map snd (clustersMap s))"

definition carry_cursor :: "'h ClusterStore \<Rightarrow> 'h ClusterStore \<Rightarrow> string \<Rightarrow> 'h process \<Rightarrow> 'h process" where
  "carry_cursor old s name p =
     (case (map_of (clustersMap s) name, map_of (clustersMap old) name) of
        (Some newRuntime, Some oldRuntime) \<Rightarrow>
          change_runtime newRuntime (\<lambda>t. CarryOverCursorTo t (runtimes p ! oldRuntime)) p
      | _ \<Rightarrow> p)"

definition carryOverRuntimeStateFrom :: "'h ClusterStore \<Rightarrow> 'h ClusterStore \<Rightarrow> 'h process \<Rightarrow> 'h process" where
  "carryOverRuntimeStateFrom old s p =
     fold (\<lambda>c. carry_cursor old s (cc_Name c)) (somes (st_Config s)) p"

section \<open>Assembled endpoints\<close>

definition assembled :: "Endpoint option list \<Rightarrow> bool" where
  "assembled es \<longleftrightarrow>
     distinct (map ep_ID (somes es)) \<and> (\<forall>e \<in> set (somes es). ep_ID e \<noteq> '''' \<and> ep_Name e \<noteq> '''')"

lemma default_name_keeps [simp]:
  "ep_ID (default_name i e) = ep_ID e" "ep_Address (default_name i e) = ep_Address e"
  "ep_Metadata (default_name i e) = ep_Metadata e" "ep_LLMMeta (default_name i e) = ep_LLMMeta e"
  "UnHealthy (default_name i e) = UnHealthy e"
  "ep_Name e \<noteq> [] \<Longrightarrow> default_name i e = e" "ep_Name (default_name i e) \<noteq> []"
  by (auto simp: default_name_def)

lemma StableUniqueEndpointID_nonempty: "StableUniqueEndpointID name e ids \<noteq> []"
proof -
  have "base_id name e \<noteq> []"
    by (cases e) (auto simp: base_id_def GenerateEndpointID_def generatedEndpointIDPrefix_def)
  moreover have "next_suffix (base_id name e) ids 2 \<noteq> []"
    using next_suffix_fresh [of "base_id name e" ids 2] by (auto simp: suffixed_def)
  ultimately show ?thesis by (simp add: StableUniqueEndpointID_base)
qed

definition fresh_id :: "string \<Rightarrow> string list \<Rightarrow> Endpoint \<Rightarrow> Endpoint" where
  "fresh_id name ids e =
     (if ep_ID e = '''' \<or> ep_ID e \<in> set ids then e\<lparr>ep_ID := StableUniqueEndpointID name (Some e) ids\<rparr> else e)"

lemma assemble_loop_Some [simp]:
  "assemble_loop name i ids (Some e # es) =
     Some (default_name i (fresh_id name ids e)) #
       assemble_loop name (i + 1) (ep_ID (fresh_id name ids e) # ids) es"
  by (simp add: fresh_id_def Let_def)

declare assemble_loop.simps(3) [simp del]

lemma fresh_id_spec [simp]:
  "ep_ID (fresh_id name ids e) \<notin> set ids" "ep_ID (fresh_id name ids e) \<noteq> []"
  "ep_Address (fresh_id name ids e) = ep_Address e" "ep_Metadata (fresh_id name ids e) = ep_Metadata e"
  "ep_LLMMeta (fresh_id name ids e) = ep_LLMMeta e"
  "ep_ID e \<noteq> [] \<Longrightarrow> ep_ID e \<notin> set ids \<Longrightarrow> fresh_id name ids e = e"
  using StableUniqueEndpointID_fresh [of name "Some e" ids]
  by (auto simp: fresh_id_def StableUniqueEndpointID_nonempty)

lemma assembled_simps [simp]:
  "assembled []" "assembled (None # es) = assembled es"
  "assembled (Some e # es) \<longleftrightarrow>
     ep_ID e \<notin> ep_ID ` set (somes es) \<and> ep_ID e \<noteq> [] \<and> ep_Name e \<noteq> [] \<and> assembled es"
  by (auto simp: assembled_def simp del: set_somes)

lemma assemble_loop_spec:
  "assembled (assemble_loop name i ids es)
   \<and> ep_ID ` set (somes (assemble_loop name i ids es)) \<inter> set ids = {}
   \<and> map ep_Address (somes (assemble_loop name i ids es)) = map ep_Address (somes es)
   \<and> length (assemble_loop name i ids es) = length es"
proof (induction es arbitrary: i ids)
  case (Cons oe es)
  show ?case
  proof (cases oe)
    case None
    then show ?thesis using Cons by (simp del: set_somes)
  next
    case (Some e)
    then show ?thesis
      using Cons [of "i + 1" "ep_ID (fresh_id name ids e) # ids"] by (auto simp del: set_somes)
  qed
qed simp

lemma assemble_append:
  "assemble_loop name i ids (xs @ ys) =
     assemble_loop name i ids xs @
       assemble_loop name (i + length xs) (rev (map ep_ID (somes (assemble_loop name i ids xs))) @ ids) ys"
proof (induction xs arbitrary: i ids)
  case (Cons oe xs)
  then show ?case by (cases oe) simp_all
qed simp

lemma assemble_loop_id:
  assumes "assembled es" and "ep_ID ` set (somes es) \<inter> set ids = {}"
  shows "assemble_loop name i ids es = es"
  using assms
proof (induction es arbitrary: i ids)
  case (Cons oe es)
  then show ?case by (cases oe) (auto simp del: set_somes)
qed simp

section \<open>Runtimes that serve a configuration\<close>

definition declared :: "Endpoint \<Rightarrow> Endpoint" where
  "declared e = e\<lparr>UnHealthy := False\<rparr>"

text \<open>
  A runtime serves a configuration: it has its name, policy, checks and endpoints, accepts health
  events, its snapshot is consistent and lists exactly the endpoints of the configuration, each with
  its own runtime health, and it runs one health check session for each of their addresses if and
  only if health checks are configured.
\<close>

definition shows_config :: "'h ClusterConfig \<Rightarrow> 'h Cluster \<Rightarrow> bool" where
  "shows_config c t \<longleftrightarrow>
     cc_Name (c_config t) = cc_Name c \<and> LbStr (c_config t) = LbStr c
     \<and> HealthChecks (c_config t) = HealthChecks c \<and> Endpoints (c_config t) = Endpoints c
     \<and> acceptHealthEvents t
     \<and> (\<exists>sn. c_endpoints t = Some sn \<and> snapshot_inv sn
          \<and> map declared (es_all sn) = map declared (somes (Endpoints c)))"

definition checked :: "'h ClusterConfig \<Rightarrow> HealthChecker option \<Rightarrow> bool" where
  "checked c check \<longleftrightarrow>
     (case check of
        None \<Rightarrow> HealthChecks c = []
      | Some hc \<Rightarrow> HealthChecks c \<noteq> [] \<and> hc_endpoints hc = Endpoints c \<and> sessions_match hc)"

definition serves :: "'h ClusterConfig \<Rightarrow> 'h Cluster \<Rightarrow> bool" where
  "serves c t \<longleftrightarrow> shows_config c t \<and> checked c (HealthCheck t)"

text \<open>A runtime without running sessions.\<close>

definition quiet :: "'h Cluster \<Rightarrow> bool" where
  "quiet t \<longleftrightarrow> (case HealthCheck t of None \<Rightarrow> True | Some hc \<Rightarrow> checkers hc = [])"

lemma identified_id:
  assumes "distinct (map ep_ID es)" and "\<forall>e \<in> set es. ep_ID e \<noteq> [] \<and> ep_ID e \<notin> set taken"
  shows "identified cn taken es = es"
  using assms
proof (induction es arbitrary: taken)
  case (Cons e es)
  have "StableUniqueEndpointID cn (Some e) taken = ep_ID e"
    using Cons.prems by (simp add: StableUniqueEndpointID_def)
  moreover have "identified cn (ep_ID e # taken) es = es"
    using Cons.prems by (intro Cons.IH) (auto simp: image_iff)
  ultimately show ?case by simp
qed simp

lemma new_snapshot_declared:
  assumes "assembled (Endpoints c)"
  shows "map declared (es_all (newEndpointSnapshot fs (Some c) previous inh)) =
    map declared (somes (Endpoints c))"
  using assms by (simp add: new_snapshot_all assembled_def identified_id declared_def del: set_somes)

lemma refreshed_declared:
  "assembled (Endpoints c) \<Longrightarrow>
     map declared (es_all (refreshed fs c previous current)) = map declared (somes (Endpoints c))"
  by (simp add: refreshed_def Let_def new_snapshot_declared)

lemma refreshed_inv: "snapshot_inv (refreshed fs c previous current)"
  by (simp add: refreshed_def Let_def new_snapshot_inv)

lemma start_all_hc_endpoints [simp]: "hc_endpoints (start_all i es hc) = hc_endpoints hc"
  by (induction i es hc rule: start_all.induct) (simp_all add: startCheck_def Let_def split: option.split)

lemma started_endpoints [simp]:
  "hc_endpoints (checker_StartAll (CreateHealthCheckWithCallback es cfg cb)) = es"
  by (simp add: checker_StartAll_def CreateHealthCheckWithCallback_def Let_def)

lemma new_runtime_serves:
  assumes "assembled (Endpoints c)"
  shows "serves c (the (NewClusterWithEndpointSnapshot fs (CloneClusterConfig fs (Some c)) previous))"
proof -
  obtain c' where c': "CloneClusterConfig fs (Some c) = Some c'" "cc_Name c' = cc_Name c" "LbStr c' = LbStr c"
      "HealthChecks c' = HealthChecks c" "Endpoints c' = Endpoints c"
    by (auto simp: CloneClusterConfig_Some)
  then show ?thesis
    using assms refreshed_declared [of c' fs previous None] refreshed_inv [of fs c' previous None] sessions_started
    by (simp add: NewClusterWithEndpointSnapshot_def RefreshEndpointsFrom_def serves_def
        shows_config_def checked_def Let_def split: list.split)
qed

lemma quiet_Stop [simp]: "quiet (cluster_Stop t)"
  by (simp add: quiet_def cluster_Stop_def checker_StopAll_def split: option.split)

text \<open>Changes that a runtime survives: of its cursor, and of the health it reports.\<close>

lemma serves_CarryOver [simp]: "serves c (CarryOverCursorTo t t') = serves c t"
  by (simp add: serves_def shows_config_def CarryOverCursorTo_def)

lemma serves_cong:
  "cc_Name c = cc_Name c' \<Longrightarrow> LbStr c = LbStr c' \<Longrightarrow> HealthChecks c = HealthChecks c' \<Longrightarrow>
   Endpoints c = Endpoints c' \<Longrightarrow> serves c t = serves c' t"
  by (simp add: serves_def shows_config_def checked_def split: option.split)

subsection \<open>Changes of endpoints\<close>

definition same_cluster :: "'h ClusterConfig \<Rightarrow> 'h ClusterConfig \<Rightarrow> bool" where
  "same_cluster c c' \<longleftrightarrow> cc_Name c' = cc_Name c \<and> LbStr c' = LbStr c \<and> HealthChecks c' = HealthChecks c"

lemma shows_sync:
  assumes "shows_config c t" and "same_cluster c c'" and "assembled (Endpoints c')"
  shows "shows_config c' (sync_runtime fs c' (t\<lparr>HealthCheck := h\<rparr>))"
  using assms refreshed_declared [of "(c_config t)\<lparr>Endpoints := Endpoints c'\<rparr>" fs] refreshed_inv
  by (simp add: shows_config_def same_cluster_def sync_runtime_def RefreshEndpoints_def
      RefreshEndpointsFrom_def SyncConfigEndpoints_def)

lemma shows_check [simp]: "shows_config c (t\<lparr>HealthCheck := h\<rparr>) = shows_config c t"
  by (simp add: shows_config_def)

lemma sync_check [simp]:
  "HealthCheck (sync_runtime fs c' t) =
     map_option (\<lambda>hc. hc\<lparr>hc_endpoints := Endpoints c'\<rparr>) (HealthCheck t)"
  by (simp add: sync_runtime_def RefreshEndpoints_def RefreshEndpointsFrom_def SyncConfigEndpoints_def)

lemma sessions_restarted:
  assumes "sessions_match (hc\<lparr>hc_endpoints := es\<rparr>)"
    and "address_of ` set (somes es') = insert (address_of e) (address_of ` set (somes es))"
  shows "sessions_match (StartOne ptr (Some e) (hc\<lparr>hc_endpoints := es'\<rparr>))"
proof -
  let ?hc = "hc\<lparr>hc_endpoints := es'\<rparr>"
  have "running ?hc" using assms(1) by (simp add: sessions_match_running running_def)
  moreover have "set (map fst (checkers (startCheck ptr (Some e) ?hc))) = address_of ` set (somes es')"
    using assms startCheck_addresses [of ptr "Some e" ?hc]
    by (simp add: sessions_match_running del: set_somes)
  ultimately show ?thesis
    by (simp add: sessions_match_running StartOne_def startCheck_running del: set_somes)
qed

lemma set_somes_update:
  assumes "i < length es"
  shows "set (somes (es[i := Some e])) = insert e (set (somes (without i es)))"
  using assms by (simp add: upd_conv_take_nth_drop without_def del: set_somes)

lemma somes_split:
  assumes "i < length es" and "es ! i = Some e"
  shows "somes es = somes (take i es) @ e # somes (drop (i + 1) es)"
proof -
  have "es = take i es @ Some e # drop (i + 1) es"
    using id_take_nth_drop [OF assms(1)] assms(2) by simp
  then show ?thesis by (metis somes_append somes_simps(3))
qed

lemma assembled_slot:
  assumes "assembled es" and "i < length es" "es ! i = Some e"
    and "j < length es" "es ! j = Some e'" "ep_ID e' = ep_ID e"
  shows "j = i"
proof (rule ccontr)
  assume "j \<noteq> i"
  then have "Some e' \<in> set (without i es)" using assms by (auto simp: set_without intro!: exI [of _ j])
  then have "e' \<in> set (somes (without i es))" by simp
  moreover have "ep_ID e \<notin> ep_ID ` set (somes (without i es))"
    using assms(1) by (simp add: assembled_def somes_split [OF assms(2,3)] without_def image_Un del: set_somes)
  ultimately show False using assms(6) by (metis image_eqI)
qed

text \<open>The three ways in which the store changes the endpoints of a runtime.\<close>

lemma checked_append:
  assumes "checked c h" and "same_cluster c c'" and "Endpoints c' = Endpoints c @ [Some e]"
  shows "checked c' (map_option (StartOne None (Some e)) (map_option (\<lambda>hc. hc\<lparr>hc_endpoints := Endpoints c'\<rparr>) h))"
proof (cases h)
  case (Some hc)
  then have "sessions_match hc" "hc_endpoints hc = Endpoints c" using assms(1) by (simp_all add: checked_def)
  with sessions_StartOne [of hc None "Some e"] Some assms show ?thesis
    by (simp add: checked_def same_cluster_def StartOne_def startCheck_def Let_def)
qed (use assms in \<open>simp add: checked_def same_cluster_def\<close>)

lemma stopped_slot:
  assumes "checked c (Some hc)" and "assembled (Endpoints c)" and "i < length (Endpoints c)" "Endpoints c ! i = Some e"
  shows "sessions_match (snd (StopOne None (Some e) hc)\<lparr>hc_endpoints := without i (Endpoints c)\<rparr>)"
proof -
  have hc: "sessions_match hc" "hc_endpoints hc = Endpoints c" using assms(1) by (simp_all add: checked_def)
  have "e \<in> set (somes (Endpoints c))" using set_somes_without [OF assms(3,4)] by (simp del: set_somes)
  then have "ep_ID e \<noteq> []" using assms(2) unfolding assembled_def by blast
  then have slot: "names_slot None e i" by (simp add: names_slot_def)
  have i: "i < length (hc_endpoints hc)" "hc_endpoints hc ! i = Some e" using assms(3,4) hc(2) by simp_all
  have ids: "\<And>j c. j < length (hc_endpoints hc) \<Longrightarrow> hc_endpoints hc ! j = Some c \<Longrightarrow> ep_ID c = ep_ID e \<Longrightarrow> j = i"
    using assembled_slot [OF assms(2-4)] hc(2) by simp
  from sessions_StopOne [OF hc(1) i ids slot prod.collapse [symmetric]] hc(2) show ?thesis by simp
qed

lemma checked_delete:
  assumes "checked c h" and "same_cluster c c'" and "assembled (Endpoints c)"
    and "i < length (Endpoints c)" "Endpoints c ! i = Some e" and "Endpoints c' = without i (Endpoints c)"
  shows "checked c' (map_option (\<lambda>hc. hc\<lparr>hc_endpoints := Endpoints c'\<rparr>)
    (map_option (\<lambda>hc. snd (StopOne None (Some e) hc)) h))"
proof (cases h)
  case (Some hc)
  with assms(1) have hc: "checked c (Some hc)" by simp
  from stopped_slot [OF hc assms(3-5)] hc Some assms show ?thesis
    by (simp add: checked_def same_cluster_def)
qed (use assms in \<open>simp add: checked_def same_cluster_def\<close>)

lemma checked_replace:
  assumes "checked c h" and "same_cluster c c'" and "assembled (Endpoints c)"
    and "i < length (Endpoints c)" "Endpoints c ! i = Some e" and "Endpoints c' = (Endpoints c)[i := Some e']"
  shows "checked c' (map_option (StartOne None (Some e')) (map_option (\<lambda>hc. hc\<lparr>hc_endpoints := Endpoints c'\<rparr>)
    (map_option (\<lambda>hc. snd (StopOne None (Some e) hc)) h)))"
proof (cases h)
  case (Some hc)
  with assms(1) have hc: "checked c (Some hc)" by simp
  let ?hc = "snd (StopOne None (Some e) hc)"
  have "sessions_match (StartOne None (Some e') (?hc\<lparr>hc_endpoints := Endpoints c'\<rparr>))"
    using stopped_slot [OF hc assms(3-5)] set_somes_update [OF assms(4), of e'] assms(6)
    by (intro sessions_restarted) (simp_all del: set_somes)
  with hc Some assms(2) show ?thesis
    by (simp add: checked_def same_cluster_def StartOne_def startCheck_def Let_def)
qed (use assms in \<open>simp add: checked_def same_cluster_def\<close>)

lemma checked_keep:
  assumes "checked c h" and "same_cluster c c'"
    and "address_of ` set (somes (Endpoints c')) = address_of ` set (somes (Endpoints c))"
  shows "checked c' (map_option (\<lambda>hc. hc\<lparr>hc_endpoints := Endpoints c'\<rparr>) h)"
  using assms by (cases h) (simp_all add: checked_def same_cluster_def sessions_match_def del: set_somes)

section \<open>Well-formed stores\<close>

abbreviation configs :: "'h ClusterStore \<Rightarrow> 'h ClusterConfig list" where
  "configs s \<equiv> somes (st_Config s)"

abbreviation names :: "'h ClusterStore \<Rightarrow> string set" where
  "names s \<equiv> cc_Name ` set (configs s)"

definition ptrs :: "'h ClusterStore \<Rightarrow> nat set" where
  "ptrs s = snd ` set (clustersMap s)"

text \<open>
  Configurations have distinct, non-empty names and assembled endpoints. There is one runtime of its
  own for each of them, which serves it.
\<close>

definition store_ok :: "'h process \<Rightarrow> 'h ClusterStore \<Rightarrow> bool" where
  "store_ok p s \<longleftrightarrow>
     st_Config s = map Some (configs s)
     \<and> distinct (map cc_Name (configs s)) \<and> '''' \<notin> names s
     \<and> distinct (map fst (clustersMap s)) \<and> distinct (map snd (clustersMap s))
     \<and> fst ` set (clustersMap s) = names s
     \<and> (\<forall>c \<in> set (configs s). assembled (Endpoints c)
          \<and> (\<forall>r. map_of (clustersMap s) (cc_Name c) = Some r \<longrightarrow>
                r < length (runtimes p) \<and> serves c (runtimes p ! r)))"

text \<open>
  What an operation on a store may do to the heap: runtimes of others stay as they are and outside of
  the store, and the runtimes it gives up, old or new, are stopped.
\<close>

definition moved ::
    "'h process \<Rightarrow> 'h ClusterStore \<Rightarrow> 'h process \<Rightarrow> 'h ClusterStore \<Rightarrow> bool" where
  "moved p s p' s' \<longleftrightarrow>
     length (runtimes p) \<le> length (runtimes p')
     \<and> (\<forall>r < length (runtimes p). r \<notin> ptrs s \<longrightarrow> r \<notin> ptrs s' \<and> runtimes p' ! r = runtimes p ! r)
     \<and> (\<forall>r < length (runtimes p'). r \<notin> ptrs s' \<longrightarrow> r \<in> ptrs s \<or> length (runtimes p) \<le> r \<longrightarrow> quiet (runtimes p' ! r))"

lemma moved_refl [simp]: "moved p s p s"
  by (simp add: moved_def)

lemma moved_trans:
  assumes "moved p s p1 s1" and "moved p1 s1 p2 s2"
  shows "moved p s p2 s2"
  unfolding moved_def
proof (intro conjI allI impI)
  show "length (runtimes p) \<le> length (runtimes p2)" using assms by (simp add: moved_def)
next
  fix r assume "r < length (runtimes p)" "r \<notin> ptrs s"
  with assms show "r \<notin> ptrs s2" "runtimes p2 ! r = runtimes p ! r" by (auto simp: moved_def)
next
  fix r assume r: "r < length (runtimes p2)" "r \<notin> ptrs s2" "r \<in> ptrs s \<or> length (runtimes p) \<le> r"
  show "quiet (runtimes p2 ! r)"
  proof (cases "r \<in> ptrs s1 \<or> length (runtimes p1) \<le> r")
    case True
    with r assms(2) show ?thesis by (auto simp: moved_def)
  next
    case False
    with r assms have "quiet (runtimes p1 ! r)" "runtimes p2 ! r = runtimes p1 ! r" by (auto simp: moved_def)
    then show ?thesis by simp
  qed
qed

lemma set_update_distinct:
  "distinct (map fst m) \<Longrightarrow> set (AList.update k v m) = insert (k, v) {x \<in> set m. fst x \<noteq> k}"
  by (induction m) (force simp: image_iff)+

lemma distinct_snd_update:
  "distinct (map fst m) \<Longrightarrow> distinct (map snd m) \<Longrightarrow> v \<notin> snd ` {x \<in> set m. fst x \<noteq> k} \<Longrightarrow>
   distinct (map snd (AList.update k v m))"
proof (induction m)
  case (Cons x m)
  obtain k' v' where x: "x = (k', v')" by force
  show ?case
  proof (cases "k' = k")
    case True
    with Cons.prems have "{x \<in> set m. fst x \<noteq> k} = set m" by (force simp: x image_iff)
    with True Cons.prems show ?thesis by (auto simp: x)
  next
    case False
    have "snd ` set (AList.update k v m) \<subseteq> insert v (snd ` set m)"
      using Cons.prems by (auto simp: x set_update_distinct)
    with False Cons show ?thesis by (auto simp: x image_iff)
  qed
qed simp

lemma map_of_ptrs: "map_of (clustersMap s) n = Some r \<Longrightarrow> r \<in> ptrs s"
  by (force simp: ptrs_def dest: map_of_SomeD)

lemma ptrs_update:
  "distinct (map fst (clustersMap s)) \<Longrightarrow> clustersMap s' = AList.update n r (clustersMap s) \<Longrightarrow>
   ptrs s' = insert r (snd ` {x \<in> set (clustersMap s). fst x \<noteq> n})"
  by (auto simp: ptrs_def set_update_distinct image_iff)

lemma other_ptrs:
  assumes "distinct (map fst (clustersMap s))" "distinct (map snd (clustersMap s))"
  shows "snd ` {x \<in> set (clustersMap s). fst x \<noteq> n} = ptrs s - {r. map_of (clustersMap s) n = Some r}"
proof -
  have "n' = n" if "(n', r) \<in> set (clustersMap s)" "(n, r) \<in> set (clustersMap s)" for n' r
    using that assms(2) by (metis Pair_inject distinct_map inj_onD snd_conv)
  then show ?thesis using assms(1) by (force simp: ptrs_def)
qed

lemma store_ok_maps:
  "store_ok p s \<Longrightarrow> distinct (map fst (clustersMap s)) \<and> distinct (map snd (clustersMap s))"
  by (simp add: store_ok_def)

lemma store_configs: "store_ok p s \<Longrightarrow> map Some (configs s) = st_Config s"
  by (simp add: store_ok_def)

lemma live_runtime:
  assumes "store_ok p s" and "c \<in> set (configs s)"
  shows "\<exists>r. map_of (clustersMap s) (cc_Name c) = Some r \<and> r < length (runtimes p) \<and> serves c (runtimes p ! r)"
proof -
  have "cc_Name c \<in> fst ` set (clustersMap s)" using assms by (simp add: store_ok_def del: set_somes)
  then obtain r where "map_of (clustersMap s) (cc_Name c) = Some r"
    by (metis map_of_eq_None_iff not_None_eq)
  with assms show ?thesis by (auto simp: store_ok_def simp del: set_somes)
qed

lemma ptr_config:
  assumes "store_ok p s" and "r \<in> ptrs s"
  shows "\<exists>c \<in> set (configs s). map_of (clustersMap s) (cc_Name c) = Some r"
proof -
  obtain n where n: "(n, r) \<in> set (clustersMap s)" using assms(2) by (auto simp: ptrs_def)
  then have "map_of (clustersMap s) n = Some r" using store_ok_maps [OF assms(1)] by simp
  moreover have "n \<in> fst ` set (clustersMap s)" using n by force
  then have "n \<in> names s" using assms(1) by (simp add: store_ok_def del: set_somes)
  ultimately show ?thesis by auto
qed

lemma ptr_bound:
  assumes "store_ok p s" and "r \<in> ptrs s"
  shows "r < length (runtimes p)"
proof -
  obtain c where c: "c \<in> set (configs s)" "map_of (clustersMap s) (cc_Name c) = Some r"
    using ptr_config [OF assms] by blast
  with live_runtime [OF assms(1) c(1)] show ?thesis by auto
qed

text \<open>
  One configuration, new or changed, gets a runtime, new or changed: what is to be shown of it, and of
  the heap.
\<close>

lemma store_ok_change:
  assumes ok: "store_ok p s" and cfg: "st_Config s' = map Some cs"
    and cs: "distinct (map cc_Name cs)" "'''' \<notin> cc_Name ` set cs" "cc_Name ` set cs = insert n (names s)"
    and m: "clustersMap s' = AList.update n r (clustersMap s)"
    and r: "r < length (runtimes p')" "r \<notin> ptrs s \<or> map_of (clustersMap s) n = Some r"
    and others: "\<And>c. c \<in> set cs \<Longrightarrow> cc_Name c \<noteq> n \<Longrightarrow> c \<in> set (configs s)"
    and own: "\<And>c. c \<in> set cs \<Longrightarrow> cc_Name c = n \<Longrightarrow> assembled (Endpoints c) \<and> serves c (runtimes p' ! r)"
    and heap: "length (runtimes p) \<le> length (runtimes p')"
      "\<And>q. q \<in> ptrs s \<Longrightarrow> map_of (clustersMap s) n \<noteq> Some q \<Longrightarrow> q \<noteq> r \<Longrightarrow> runtimes p' ! q = runtimes p ! q"
  shows "store_ok p' s'"
proof -
  note maps = store_ok_maps [OF ok]
  have cs': "configs s' = cs" by (simp add: cfg)
  have "r \<notin> snd ` {x \<in> set (clustersMap s). fst x \<noteq> n}"
    using r(2) maps by (auto simp: other_ptrs)
  then have d: "distinct (map fst (clustersMap s'))" "distinct (map snd (clustersMap s'))"
    using maps distinct_snd_update [of "clustersMap s" r n] by (simp_all add: m distinct_update)
  have "fst ` set (clustersMap s') = insert n (fst ` set (clustersMap s))"
    using maps by (force simp: m set_update_distinct)
  moreover have "assembled (Endpoints c) \<and> (\<forall>q. map_of (clustersMap s') (cc_Name c) = Some q \<longrightarrow>
      q < length (runtimes p') \<and> serves c (runtimes p' ! q))" if c: "c \<in> set cs" for c
  proof (cases "cc_Name c = n")
    case True
    with own [OF c] r(1) show ?thesis by (simp add: m update_conv')
  next
    case False
    note cin = others [OF c False]
    from live_runtime [OF ok cin] obtain q where q: "map_of (clustersMap s) (cc_Name c) = Some q"
      "q < length (runtimes p)" "serves c (runtimes p ! q)" by auto
    have "map_of (clustersMap s) n \<noteq> Some q" using False q(1) maps
      by (metis Pair_inject distinct_map inj_onD map_of_SomeD snd_conv)
    moreover from this have "q \<noteq> r" using r(2) map_of_ptrs [OF q(1)] by auto
    ultimately have "runtimes p' ! q = runtimes p ! q" using heap(2) map_of_ptrs [OF q(1)] by blast
    moreover have "assembled (Endpoints c)" using cin ok by (simp add: store_ok_def del: set_somes)
    ultimately show ?thesis using q False heap(1) by (simp add: m update_conv' del: map_of_eq_Some_iff)
  qed
  ultimately show ?thesis
    using ok cs d by (simp add: store_ok_def cs' cfg [symmetric] del: set_somes)
qed

lemma moved_change:
  assumes maps: "distinct (map fst (clustersMap s))" "distinct (map snd (clustersMap s))"
    and m: "clustersMap s' = AList.update n r (clustersMap s)"
    and r: "r \<in> ptrs s \<or> length (runtimes p) \<le> r"
    and heap: "length (runtimes p) \<le> length (runtimes p')"
      "\<And>q. q < length (runtimes p) \<Longrightarrow> q \<notin> ptrs s \<Longrightarrow> runtimes p' ! q = runtimes p ! q"
      "\<And>q. length (runtimes p) \<le> q \<Longrightarrow> q < length (runtimes p') \<Longrightarrow> q \<noteq> r \<Longrightarrow> quiet (runtimes p' ! q)"
      "\<And>q. map_of (clustersMap s) n = Some q \<Longrightarrow> q \<noteq> r \<Longrightarrow> quiet (runtimes p' ! q)"
  shows "moved p s p' s'"
proof -
  have "ptrs s' = insert r (ptrs s - {q. map_of (clustersMap s) n = Some q})"
    using ptrs_update [OF maps(1) m] other_ptrs [OF maps] by simp
  with r heap show ?thesis by (auto simp: moved_def)
qed

subsection \<open>Effects on the heap\<close>

lemma change_runtime_simps [simp]:
  "length (runtimes (change_runtime r f p)) = length (runtimes p)"
  "configIDSeq (change_runtime r f p) = configIDSeq p" "clusterIndex (change_runtime r f p) = clusterIndex p"
  "q < length (runtimes p) \<Longrightarrow>
     runtimes (change_runtime r f p) ! q = (if q = r then f (runtimes p ! q) else runtimes p ! q)"
  by (simp_all add: change_runtime_def nth_list_update)

lemma stop_loop_effect:
  "length (runtimes (stop_loop stopped rs p)) = length (runtimes p)
   \<and> (\<forall>q < length (runtimes p). runtimes (stop_loop stopped rs p) ! q =
        (if Some q \<in> set rs \<and> q \<notin> set stopped then cluster_Stop (runtimes p ! q) else runtimes p ! q))"
  by (induction stopped rs p rule: stop_loop.induct) auto

lemma stopClusters_effect [simp]:
  "length (runtimes (stopClusters rs p)) = length (runtimes p)"
  "q < length (runtimes p) \<Longrightarrow>
     runtimes (stopClusters rs p) ! q = (if Some q \<in> set rs then cluster_Stop (runtimes p ! q) else runtimes p ! q)"
  using stop_loop_effect [of "[]" rs p] by (simp_all add: stopClusters_def)

lemma prepareOwned_effect:
  assumes "prepareOwnedClusterConfig fs c p = (c', p')"
  shows "same_cluster c c'" "Endpoints c' = assemble_loop (cc_Name c) 0 [] (Endpoints c)"
    "runtimes p' = runtimes p" "assembled (Endpoints c')"
  using assms assemble_loop_spec [of "cc_Name c" 0 "[]" "Endpoints c"]
  by (auto simp: prepareOwnedClusterConfig_def same_cluster_def assembleClusterEndpoints_def Let_def
      split: if_splits)

lemma prepare_effect:
  assumes "prepareClusterConfig fs c p = (c', p')"
  shows "same_cluster c c'" "Endpoints c' = assemble_loop (cc_Name c) 0 [] (Endpoints c)"
    "runtimes p' = runtimes p" "assembled (Endpoints c')"
  using prepareOwned_effect [OF assms [unfolded prepareClusterConfig_def]]
  by (simp_all add: same_cluster_def)

lemma replaceWith_effect:
  assumes "replaceClusterRuntimeWithSnapshot fs n c previous p s = (old, p', s')"
  shows "old = map_of (clustersMap s) n"
    "s' = s\<lparr>clustersMap := AList.update n (length (runtimes p)) (clustersMap s)\<rparr>"
    "runtimes p' = runtimes p @ [the (NewClusterWithEndpointSnapshot fs (CloneClusterConfig fs (Some c)) previous)]"
  using assms by (auto simp: replaceClusterRuntimeWithSnapshot_def Let_def)

lemma freeze_effect:
  assumes "snapshotForRuntimeReplacement s n p = (previous, p')"
  shows "length (runtimes p') = length (runtimes p)"
    "q < length (runtimes p) \<Longrightarrow> map_of (clustersMap s) n \<noteq> Some q \<Longrightarrow> runtimes p' ! q = runtimes p ! q"
  using assms
  by (auto simp: snapshotForRuntimeReplacement_def simp del: map_of_eq_Some_iff split: option.splits)

lemma replace_effect:
  assumes "replaceClusterRuntime fs n c p s = (old, p', s')"
  shows "old = map_of (clustersMap s) n"
    "s' = s\<lparr>clustersMap := AList.update n (length (runtimes p)) (clustersMap s)\<rparr>"
    "length (runtimes p') = length (runtimes p) + 1"
    "assembled (Endpoints c) \<Longrightarrow> serves c (runtimes p' ! length (runtimes p))"
    "q < length (runtimes p) \<Longrightarrow> old \<noteq> Some q \<Longrightarrow> runtimes p' ! q = runtimes p ! q"
proof -
  obtain previous p1 where f: "snapshotForRuntimeReplacement s n p = (previous, p1)" by force
  note f' = freeze_effect [OF f]
  have "replaceClusterRuntimeWithSnapshot fs n c previous p1 s = (old, p', s')"
    using assms f by (simp add: replaceClusterRuntime_def)
  note r = replaceWith_effect [OF this]
  from r f' show "old = map_of (clustersMap s) n" "length (runtimes p') = length (runtimes p) + 1"
    "s' = s\<lparr>clustersMap := AList.update n (length (runtimes p)) (clustersMap s)\<rparr>" by simp_all
  show "assembled (Endpoints c) \<Longrightarrow> serves c (runtimes p' ! length (runtimes p))"
    using r(3) f'(1) new_runtime_serves [of c fs previous] by (simp add: nth_append)
  show "q < length (runtimes p) \<Longrightarrow> old \<noteq> Some q \<Longrightarrow> runtimes p' ! q = runtimes p ! q"
    using r f' by (simp add: nth_append del: map_of_eq_Some_iff)
qed

lemma store_ok_runtimes: "runtimes p = runtimes p' \<Longrightarrow> store_ok p s = store_ok p' s"
  by (simp add: store_ok_def)

lemma moved_runtimes:
  "runtimes p = runtimes q \<Longrightarrow> runtimes p' = runtimes q' \<Longrightarrow> moved p s p' s' = moved q s q' s'"
  by (simp add: moved_def)

lemma same_name: "distinct (map cc_Name cs) \<Longrightarrow> c \<in> set cs \<Longrightarrow> c' \<in> set cs \<Longrightarrow> cc_Name c = cc_Name c' \<Longrightarrow> c = c'"
  by (metis distinct_map inj_onD)

text \<open>A configuration gets a new runtime, and the old one is stopped.\<close>

lemma renew_ok:
  assumes ok: "store_ok p s"
    and cs: "distinct (map cc_Name cs)" "'''' \<notin> cc_Name ` set cs" "cc_Name ` set cs = insert n (names s)"
    and others: "\<And>c'. c' \<in> set cs \<Longrightarrow> cc_Name c' \<noteq> n \<Longrightarrow> c' \<in> set (configs s)"
    and own: "c \<in> set cs" "cc_Name c = n" "assembled (Endpoints c)"
    and rep: "replaceClusterRuntime fs n c p (s\<lparr>st_Config := map Some cs\<rparr>) = (old, p1, s')"
    and carry: "length (runtimes p2) = length (runtimes p1)"
      "\<And>q. q < length (runtimes p) \<Longrightarrow> runtimes p2 ! q = runtimes p1 ! q"
      "serves c (runtimes p1 ! length (runtimes p)) \<Longrightarrow> serves c (runtimes p2 ! length (runtimes p))"
  shows "store_ok (stopClusters [old] p2) s' \<and> moved p s (stopClusters [old] p2) s'
    \<and> st_Config s' = map Some cs \<and> map_of (clustersMap s') n = Some (length (runtimes p))
    \<and> length (runtimes p) < length (runtimes (stopClusters [old] p2))"
proof -
  note e = replace_effect [OF rep, simplified]
  note maps = store_ok_maps [OF ok]
  have old: "old \<noteq> Some (length (runtimes p))"
    using ptr_bound [OF ok] map_of_ptrs [of s n] e(1) by (metis less_irrefl)
  have new: "serves c (runtimes (stopClusters [old] p2) ! length (runtimes p))"
    using carry e(3,4) own(3) old by simp
  have m: "clustersMap s' = AList.update n (length (runtimes p)) (clustersMap s)" using e(2) by simp
  have fresh: "length (runtimes p) \<notin> ptrs s" using ptr_bound [OF ok] by blast
  have keep: "runtimes (stopClusters [old] p2) ! q = runtimes p ! q"
    if "q < length (runtimes p)" "map_of (clustersMap s) n \<noteq> Some q" for q
    using that e(1,3) e(5) [of q] carry by (simp del: map_of_eq_Some_iff)
  have "store_ok (stopClusters [old] p2) s'"
  proof (rule store_ok_change [OF ok _ cs m])
    show "st_Config s' = map Some cs" using e(2) by simp
    show "c' \<in> set cs \<Longrightarrow> cc_Name c' = n \<Longrightarrow>
        assembled (Endpoints c') \<and> serves c' (runtimes (stopClusters [old] p2) ! length (runtimes p))" for c'
      using same_name [OF cs(1) own(1)] own new by blast
    show "q \<in> ptrs s \<Longrightarrow> map_of (clustersMap s) n \<noteq> Some q \<Longrightarrow>
        runtimes (stopClusters [old] p2) ! q = runtimes p ! q" for q
      using keep ptr_bound [OF ok] by blast
  qed (use e(3) carry(1) fresh others in auto)
  moreover have "moved p s (stopClusters [old] p2) s'"
  proof (rule moved_change [OF _ _ m])
    show "quiet (runtimes (stopClusters [old] p2) ! q)" if "map_of (clustersMap s) n = Some q" for q
      using that e(1,3) carry(1) ptr_bound [OF ok map_of_ptrs [OF that]] by simp
    show "q < length (runtimes p) \<Longrightarrow> q \<notin> ptrs s \<Longrightarrow> runtimes (stopClusters [old] p2) ! q = runtimes p ! q" for q
      using keep map_of_ptrs by blast
  qed (use maps e(3) carry(1) in auto)
  ultimately show ?thesis using e(2,3) carry(1) by (simp add: update_conv')
qed

text \<open>A configuration and its runtime change in place.\<close>

lemma in_place_ok:
  assumes ok: "store_ok p s" and i: "i < length (configs s)"
    and c: "cc_Name c = cc_Name (configs s ! i)" "assembled (Endpoints c)"
    and r: "map_of (clustersMap s) (cc_Name c) = Some r" and new: "serves c (runtimes p' ! r)"
    and heap: "length (runtimes p') = length (runtimes p)"
      "\<And>q. q < length (runtimes p) \<Longrightarrow> q \<noteq> r \<Longrightarrow> runtimes p' ! q = runtimes p ! q"
  shows "store_ok p' (s\<lparr>st_Config := (st_Config s)[i := Some c]\<rparr>)
    \<and> moved p s p' (s\<lparr>st_Config := (st_Config s)[i := Some c]\<rparr>)"
proof -
  let ?cs = "(configs s)[i := c]" and ?s = "s\<lparr>st_Config := (st_Config s)[i := Some c]\<rparr>"
  note maps = store_ok_maps [OF ok]
  have n: "map cc_Name ?cs = map cc_Name (configs s)"
    using i c(1) by (simp add: map_update list_update_same_conv)
  then have nset: "cc_Name ` set ?cs = names s" by (metis set_map)
  have m: "clustersMap ?s = AList.update (cc_Name c) r (clustersMap s)" using r by (simp add: update_triv)
  have in_names: "cc_Name c \<in> names s" using i c(1) by (simp add: image_iff del: set_somes) (metis nth_mem)
  have "store_ok p' ?s"
  proof (rule store_ok_change [OF ok _ _ _ _ m])
    show "st_Config ?s = map Some ?cs" using ok by (simp add: store_ok_def map_update)
    show "distinct (map cc_Name ?cs)" "'''' \<notin> cc_Name ` set ?cs" "cc_Name ` set ?cs = insert (cc_Name c) (names s)"
      using ok in_names by (simp_all add: n nset store_ok_def insert_absorb del: set_somes)
    show "c' \<in> set ?cs \<Longrightarrow> cc_Name c' \<noteq> cc_Name c \<Longrightarrow> c' \<in> set (configs s)" for c'
      using set_update_subset_insert by fastforce
    show "c' \<in> set ?cs \<Longrightarrow> cc_Name c' = cc_Name c \<Longrightarrow> assembled (Endpoints c') \<and> serves c' (runtimes p' ! r)" for c'
      using same_name [of ?cs c' c] ok i n c(2) new set_update_memI [OF i] by (simp add: store_ok_def del: set_somes)
  qed (use r heap ptr_bound [OF ok] map_of_ptrs [OF r] in auto)
  moreover have "moved p s p' ?s"
    by (rule moved_change [OF _ _ m]) (use maps r heap map_of_ptrs [OF r] in auto)
  ultimately show ?thesis by simp
qed

section \<open>Operations keep the store well-formed\<close>

lemma config_index_Some:
  "config_index n (map Some cs) = Some i \<Longrightarrow> i < length cs \<and> cc_Name (cs ! i) = n"
  by (induction cs arbitrary: i) (auto split: if_splits)

lemma config_index_None: "config_index n (map Some cs) = None \<longleftrightarrow> n \<notin> cc_Name ` set cs"
  by (induction cs) auto

lemma config_index_snoc:
  "config_index n cs = None \<Longrightarrow> cc_Name c = n \<Longrightarrow> config_index n (cs @ [Some c]) = Some (length cs)"
  by (induction n cs rule: config_index.induct) (auto split: if_splits)

lemma found_config:
  assumes "store_ok p s" and "config_index n (st_Config s) = Some i"
  shows "i < length (configs s)" "cc_Name (configs s ! i) = n" "st_Config s ! i = Some (configs s ! i)"
    "configs s ! i \<in> set (configs s)"
proof -
  have eq: "st_Config s = map Some (configs s)" using assms(1) by (simp add: store_ok_def)
  then show "i < length (configs s)" "cc_Name (configs s ! i) = n"
    using assms(2) config_index_Some [of n "configs s" i] by simp_all
  then show "st_Config s ! i = Some (configs s ! i)" by (subst eq) simp
  show "configs s ! i \<in> set (configs s)" using \<open>i < length (configs s)\<close> by (rule nth_mem)
qed

lemma no_config:
  assumes "store_ok p s"
  shows "config_index n (st_Config s) = None \<longleftrightarrow> n \<notin> names s"
proof -
  have "st_Config s = map Some (configs s)" using assms by (simp add: store_ok_def)
  then show ?thesis using config_index_None [of n "configs s"] by (simp del: set_somes)
qed

definition given_name :: "'h ClusterConfig \<Rightarrow> 'h process \<Rightarrow> string" where
  "given_name c p =
     (if cc_Name c = '''' then ''cluster-'' @ show_int (sint (clusterIndex p)) else cc_Name c)"

lemma AddCluster_ok:
  assumes ok: "store_ok p s" and fresh: "given_name c p \<notin> names s"
    and op: "store_AddCluster fs c p s = (c', p', s')"
  shows "store_ok p' s' \<and> moved p s p' s' \<and> st_Config s' = st_Config s @ [Some c'] \<and> cc_Name c' = given_name c p
    \<and> HealthChecks c' = HealthChecks c
    \<and> map ep_Address (somes (Endpoints c')) = map ep_Address (somes (Endpoints c))"
proof -
  define c0 p0 where "c0 = c\<lparr>cc_Name := given_name c p\<rparr>"
    and "p0 = (if cc_Name c = '''' then p\<lparr>clusterIndex := clusterIndex p + 1\<rparr> else p)"
  obtain c1 p1 where prep: "prepareClusterConfig fs c0 p0 = (c1, p1)" by force
  note e = prepare_effect [OF prep]
  have p1: "runtimes p1 = runtimes p" using e(3) by (simp add: p0_def)
  have n: "cc_Name c1 = given_name c p" using e(1) by (simp add: same_cluster_def c0_def)
  obtain old p2 where
      rep: "replaceClusterRuntime fs (cc_Name c1) c1 p1 (s\<lparr>st_Config := map Some (configs s @ [c1])\<rparr>) = (old, p2, s')"
    and fin: "c' = c1" "p' = stopClusters [old] p2"
  proof -
    have "(if cc_Name c = '''' then (c\<lparr>cc_Name := ''cluster-'' @ show_int (sint (clusterIndex p))\<rparr>,
        p\<lparr>clusterIndex := clusterIndex p + 1\<rparr>) else (c, p)) = (c0, p0)"
      by (simp add: c0_def p0_def given_name_def)
    moreover have "st_Config s @ [Some c1] = map Some (configs s @ [c1])" using ok by (simp add: store_ok_def)
    ultimately show thesis
      using op prep that by (simp add: store_AddCluster_def Let_def split: prod.splits)
  qed
  have ok1: "store_ok p1 s" using ok p1 store_ok_runtimes by blast
  have "store_ok (stopClusters [old] p2) s' \<and> moved p1 s (stopClusters [old] p2) s'
      \<and> st_Config s' = map Some (configs s @ [c1]) \<and> map_of (clustersMap s') (cc_Name c1) = Some (length (runtimes p1))
      \<and> length (runtimes p1) < length (runtimes (stopClusters [old] p2))"
    by (rule renew_ok [OF ok1 _ _ _ _ _ _ _ rep])
      (use ok fresh n e(4) in \<open>auto simp: store_ok_def given_name_def simp del: set_somes\<close>)
  moreover have "map ep_Address (somes (Endpoints c1)) = map ep_Address (somes (Endpoints c))"
    using e(2) assemble_loop_spec by (simp add: c0_def)
  moreover have "map Some (configs s @ [c1]) = st_Config s @ [Some c1]" using ok by (simp add: store_ok_def)
  moreover have "HealthChecks c1 = HealthChecks c" using e(1) by (simp add: same_cluster_def c0_def)
  ultimately show ?thesis using n fin moved_runtimes [OF p1 refl] by simp
qed

lemma UpdateCluster_ok:
  assumes ok: "store_ok p s" and op: "store_UpdateCluster fs new p s = (p', s')"
  shows "store_ok p' s' \<and> moved p s p' s' \<and>
    (case config_index (cc_Name new) (st_Config s) of
       None \<Rightarrow> st_Config s' = st_Config s
     | Some i \<Rightarrow> \<exists>c. st_Config s' = (st_Config s)[i := Some c] \<and> same_cluster new c
         \<and> map ep_Address (somes (Endpoints c)) = map ep_Address (somes (Endpoints new)))"
proof (cases "config_index (cc_Name new) (st_Config s)")
  case None
  then show ?thesis using ok op by (simp add: store_UpdateCluster_def)
next
  case (Some i)
  note i = found_config [OF ok Some]
  obtain c p1 where prep: "prepareClusterConfig fs new p = (c, p1)" by force
  note e = prepare_effect [OF prep]
  have n: "cc_Name c = cc_Name new" using e(1) by (simp add: same_cluster_def)
  have upd: "(st_Config s)[i := Some c] = map Some ((configs s)[i := c])"
    using ok by (simp add: store_ok_def map_update)
  obtain old p2 s2 where
    rep: "replaceClusterRuntime fs (cc_Name c) c p1 (s\<lparr>st_Config := map Some ((configs s)[i := c])\<rparr>) = (old, p2, s2)"
    by (metis prod.exhaust)
  define p3 where "p3 = (case (old, map_of (clustersMap s2) (cc_Name c)) of
      (Some oldRuntime, Some newRuntime) \<Rightarrow>
        change_runtime newRuntime (\<lambda>t. CarryOverCursorTo t (runtimes p2 ! oldRuntime)) p2 | _ \<Rightarrow> p2)"
  have fin: "s' = s2" "p' = stopClusters [old] p3"
    using op Some prep rep upd by (auto simp: store_UpdateCluster_def p3_def Let_def)
  have ok1: "store_ok p1 s" using ok e(3) store_ok_runtimes by blast
  note r = replace_effect [OF rep, simplified]
  have names: "map cc_Name ((configs s)[i := c]) = map cc_Name (configs s)"
    using i n by (simp add: map_update list_update_same_conv)
  then have nset: "cc_Name ` set ((configs s)[i := c]) = names s" by (metis set_map)
  have in_names: "cc_Name c \<in> names s" using i(2,4) n by (metis image_eqI)
  have len: "map_of (clustersMap s2) (cc_Name c) = Some (length (runtimes p1))" using r(2) by (simp add: update_conv')
  have p3: "length (runtimes p3) = length (runtimes p2)"
    "\<And>q. q < length (runtimes p1) \<Longrightarrow> runtimes p3 ! q = runtimes p2 ! q"
    "serves c (runtimes p2 ! length (runtimes p1)) \<Longrightarrow> serves c (runtimes p3 ! length (runtimes p1))"
    using r(3) by (auto simp: p3_def len split: option.split)
  have "store_ok (stopClusters [old] p3) s2 \<and> moved p1 s (stopClusters [old] p3) s2
      \<and> st_Config s2 = map Some ((configs s)[i := c]) \<and> map_of (clustersMap s2) (cc_Name c) = Some (length (runtimes p1))
      \<and> length (runtimes p1) < length (runtimes (stopClusters [old] p3))"
  proof (rule renew_ok [OF ok1 _ _ _ _ _ _ _ rep p3])
    show "c' \<in> set ((configs s)[i := c]) \<Longrightarrow> cc_Name c' \<noteq> cc_Name c \<Longrightarrow> c' \<in> set (configs s)" for c'
      using set_update_subset_insert by fastforce
    show "c \<in> set ((configs s)[i := c])" using i(1) by (simp add: set_update_memI)
  qed (use ok names nset in_names e(4) in \<open>auto simp: store_ok_def simp del: set_somes\<close>)
  moreover have "map ep_Address (somes (Endpoints c)) = map ep_Address (somes (Endpoints new))"
    using e(2) assemble_loop_spec by simp
  ultimately show ?thesis
    using Some fin e(1) upd moved_runtimes [OF e(3) refl] by (auto intro!: exI [of _ c])
qed

subsection \<open>Endpoints\<close>

lemma current_runtime_ok:
  assumes ok: "store_ok p s" and i: "config_index n (st_Config s) = Some i"
    and op: "current_runtime fs n (configs s ! i) p s = (r, p', s')"
  shows "store_ok p' s' \<and> moved p s p' s' \<and> st_Config s' = st_Config s \<and> map_of (clustersMap s') n = Some r"
proof -
  let ?c = "configs s ! i"
  note c = found_config [OF ok i]
  obtain q where q: "map_of (clustersMap s) n = Some q" using live_runtime [OF ok c(4)] c(2) by auto
  show ?thesis
  proof (cases "ConfigIsIdenticalTo (Some ?c) (Some (runtimes p ! q))")
    case True
    then show ?thesis using ok op q by (simp add: current_runtime_def del: map_of_eq_Some_iff)
  next
    case False
    have s: "s\<lparr>st_Config := map Some (configs s)\<rparr> = s" using ok by (simp add: store_ok_def)
    obtain old p1 s1 where rep: "replaceClusterRuntime fs n ?c p s = (old, p1, s1)" by (metis prod.exhaust)
    have rep': "replaceClusterRuntime fs n ?c p (s\<lparr>st_Config := map Some (configs s)\<rparr>) = (old, p1, s1)"
      unfolding s by (rule rep)
    have fin: "r = the (map_of (clustersMap s1) n)" "p' = stopClusters [old] p1" "s' = s1"
      using False op q rep by (auto simp: current_runtime_def Let_def simp del: map_of_eq_Some_iff)
    have "store_ok (stopClusters [old] p1) s1 \<and> moved p s (stopClusters [old] p1) s1
        \<and> st_Config s1 = map Some (configs s) \<and> map_of (clustersMap s1) n = Some (length (runtimes p))
        \<and> length (runtimes p) < length (runtimes (stopClusters [old] p1))"
      by (rule renew_ok [OF ok _ _ _ _ c(4) c(2) _ rep'])
        (use ok c in \<open>auto simp: store_ok_def insert_absorb simp del: set_somes\<close>)
    with fin store_configs [OF ok] show ?thesis by simp
  qed
qed

lemma assemble_snoc:
  "assembled es \<Longrightarrow> assemble_loop n 0 [] (es @ [Some e]) =
     es @ [Some (default_name (length es) (fresh_id n (rev (map ep_ID (somes es))) e))]"
  by (simp add: assemble_append assemble_loop_id)

lemma assemble_update:
  assumes "assembled es" and "k < length es" "es ! k = Some old" and "ep_ID e = ep_ID old"
    and "ep_ID ` set (somes es) \<inter> set ids = {}"
  shows "assemble_loop n i ids (es[k := Some e]) = es[k := Some (default_name (i + k) e)]"
  using assms
proof (induction es arbitrary: i ids k)
  case (Cons oe es)
  show ?case
  proof (cases k)
    case 0
    then show ?thesis
      using Cons.prems assemble_loop_id [of es "ep_ID e # ids" n "i + 1"] by (auto simp del: set_somes)
  next
    case (Suc k')
    show ?thesis
    proof (cases oe)
      case None
      with Suc Cons show ?thesis by (simp del: set_somes)
    next
      case (Some x)
      have "assemble_loop n (i + 1) (ep_ID x # ids) (es[k' := Some e]) =
          es[k' := Some (default_name (i + 1 + k') e)]"
        using Cons.prems Suc Some by (intro Cons.IH) (auto simp del: set_somes)
      with Suc Some Cons.prems show ?thesis by (simp del: set_somes)
    qed
  qed
qed simp

lemma assembled_without: "assembled es \<Longrightarrow> assembled (without k es)"
proof (cases "k < length es")
  case True
  assume a: "assembled es"
  have split: "es = take k es @ [es ! k] @ drop (k + 1) es" using True by (simp add: id_take_nth_drop)
  have "somes es = somes (take k es) @ somes [es ! k] @ somes (drop (k + 1) es)"
    by (subst split) (simp only: somes_append)
  with a show ?thesis by (auto simp: assembled_def without_def simp del: set_somes)
qed (simp add: without_def)

lemma slot_member: "k < length es \<Longrightarrow> es ! k = Some e \<Longrightarrow> e \<in> set (somes es)"
  using set_somes_without by (metis insertI1)

text \<open>What a change of the endpoints of a configuration leaves behind.\<close>

definition changed ::
    "'h process \<Rightarrow> nat \<Rightarrow> 'h ClusterConfig \<Rightarrow> 'h process \<Rightarrow> 'h ClusterConfig \<Rightarrow> bool" where
  "changed p r c p' c' \<longleftrightarrow>
     same_cluster c c' \<and> assembled (Endpoints c') \<and> serves c' (runtimes p' ! r)
     \<and> length (runtimes p') = length (runtimes p)
     \<and> (\<forall>q < length (runtimes p). q \<noteq> r \<longrightarrow> runtimes p' ! q = runtimes p ! q)"

lemma appendEndpoint_ok:
  assumes c: "assembled (Endpoints c)" "serves c (runtimes p ! r)" "r < length (runtimes p)"
    and op: "appendEndpoint fs c r e p = (c', p')"
  shows "changed p r c p' c' \<and> Endpoints c' = Endpoints c @
    [Some (default_name (length (Endpoints c)) (fresh_id (cc_Name c) (rev (map ep_ID (somes (Endpoints c)))) e))]"
proof -
  let ?t = "runtimes p ! r"
  obtain p1 where prep: "prepareOwnedClusterConfig fs (c\<lparr>Endpoints := Endpoints c @ [Some e]\<rparr>) p = (c', p1)"
    and p': "p' = change_runtime r (AddEndpoint None (last (Endpoints c'))) (change_runtime r (sync_runtime fs c') p1)"
    using op by (auto simp: appendEndpoint_def Let_def split: prod.splits)
  note e = prepareOwned_effect [OF prep, simplified]
  define e' where "e' = default_name (length (Endpoints c)) (fresh_id (cc_Name c) (rev (map ep_ID (somes (Endpoints c)))) e)"
  have es: "Endpoints c' = Endpoints c @ [Some e']"
    using e(2) assemble_snoc [OF c(1), of "cc_Name c" e] by (simp add: e'_def)
  have sc: "same_cluster c c'" using e(1) by (simp add: same_cluster_def)
  have r': "runtimes p' ! r = AddEndpoint None (Some e') (sync_runtime fs c' ?t)"
    using p' c(3) e(3) es by simp
  have "shows_config c' (sync_runtime fs c' ?t)"
    using shows_sync [of c ?t c' fs "HealthCheck ?t"] c(2) sc e(4) by (simp add: serves_def)
  moreover have "checked c' (HealthCheck (AddEndpoint None (Some e') (sync_runtime fs c' ?t)))"
    using checked_append [OF _ sc es] c(2) by (simp add: AddEndpoint_def serves_def)
  ultimately have "serves c' (runtimes p' ! r)" unfolding r' serves_def by (simp add: AddEndpoint_def)
  with sc e p' es show ?thesis by (simp add: changed_def e'_def)
qed

lemma replaceEndpointAt_ok:
  assumes c: "assembled (Endpoints c)" "serves c (runtimes p ! r)" "r < length (runtimes p)"
    and k: "k < length (Endpoints c)" "Endpoints c ! k = Some old" "ep_ID e = ep_ID old"
    and op: "replaceEndpointAt fs c r k e p = (c', p')"
  shows "changed p r c p' c' \<and> Endpoints c' = (Endpoints c)[k := Some (default_name k e)]"
proof -
  let ?t = "runtimes p ! r" and ?e = "default_name k e" and ?moves = "address_of old \<noteq> address_of e"
  define p0 where "p0 = (if ?moves then change_runtime r (RemoveEndpoint None (Some old)) p else p)"
  obtain p1 where prep: "prepareOwnedClusterConfig fs (c\<lparr>Endpoints := (Endpoints c)[k := Some e]\<rparr>) p0 = (c', p1)"
    and p': "p' = (if ?moves then change_runtime r (AddEndpoint None (Endpoints c' ! k)) (change_runtime r (sync_runtime fs c') p1)
        else change_runtime r (sync_runtime fs c') p1)"
    using op k(2) by (auto simp: replaceEndpointAt_def p0_def Let_def split: prod.splits)
  note eff = prepareOwned_effect [OF prep, simplified]
  have es: "Endpoints c' = (Endpoints c)[k := Some ?e]"
    using eff(2) assemble_update [OF c(1) k, of "[]" "cc_Name c" 0] by simp
  have sc: "same_cluster c c'" using eff(1) by (simp add: same_cluster_def)
  have shows': "shows_config c' (sync_runtime fs c' (?t\<lparr>HealthCheck := h\<rparr>))" for h
    using shows_sync [of c ?t c' fs h] c(2) sc eff(4) by (simp add: serves_def)
  have "serves c' (runtimes p' ! r)"
  proof (cases ?moves)
    case True
    let ?h = "map_option (\<lambda>hc. snd (StopOne None (Some old) hc)) (HealthCheck ?t)"
    have "runtimes p' ! r = AddEndpoint None (Some ?e) (sync_runtime fs c' (?t\<lparr>HealthCheck := ?h\<rparr>))"
      using p' c(3) eff(3) es True k(1) by (simp add: p0_def RemoveEndpoint_def)
    moreover have "checked c' (map_option (StartOne None (Some ?e))
        (map_option (\<lambda>hc. hc\<lparr>hc_endpoints := Endpoints c'\<rparr>) ?h))"
      using checked_replace [OF _ sc c(1) k(1,2) es] c(2) by (simp add: serves_def)
    ultimately show ?thesis using shows' by (simp add: AddEndpoint_def serves_def)
  next
    case False
    have "address_of ` set (somes (Endpoints c')) = address_of ` set (somes (Endpoints c))"
      unfolding es set_somes_update [OF k(1)] set_somes_without [OF k(1,2)] using False by simp
    with checked_keep [OF _ sc] c(2) have
      "checked c' (map_option (\<lambda>hc. hc\<lparr>hc_endpoints := Endpoints c'\<rparr>) (HealthCheck ?t))"
      by (simp add: serves_def del: set_somes)
    then show ?thesis
      using p' c(3) eff(3) False shows' [of "HealthCheck ?t"] by (simp add: p0_def serves_def)
  qed
  with sc eff p' es show ?thesis by (auto simp: changed_def p0_def)
qed

lemma deleteEndpoint_ok:
  assumes c: "assembled (Endpoints c)" "serves c (runtimes p ! r)" "r < length (runtimes p)"
    and k: "k < length (Endpoints c)" "Endpoints c ! k = Some e"
    and prep: "prepareOwnedClusterConfig fs (c\<lparr>Endpoints := without k (Endpoints c)\<rparr>)
      (change_runtime r (RemoveEndpoint None (Some e)) p) = (c', p1)"
  shows "changed p r c (change_runtime r (sync_runtime fs c') p1) c' \<and> Endpoints c' = without k (Endpoints c)"
proof -
  let ?t = "runtimes p ! r" and ?h = "map_option (\<lambda>hc. snd (StopOne None (Some e) hc)) (HealthCheck (runtimes p ! r))"
  note eff = prepareOwned_effect [OF prep, simplified]
  have es: "Endpoints c' = without k (Endpoints c)"
    using eff(2) assemble_loop_id [OF assembled_without [OF c(1)], where ids = "[]"] by simp
  have sc: "same_cluster c c'" using eff(1) by (simp add: same_cluster_def)
  have "runtimes (change_runtime r (sync_runtime fs c') p1) ! r = sync_runtime fs c' (?t\<lparr>HealthCheck := ?h\<rparr>)"
    using c(3) eff(3) by (simp add: RemoveEndpoint_def)
  moreover have "serves c' (sync_runtime fs c' (?t\<lparr>HealthCheck := ?h\<rparr>))"
    using shows_sync [of c ?t c' fs ?h] checked_delete [OF _ sc c(1) k es] c(2) sc eff(4) by (simp add: serves_def)
  ultimately show ?thesis using sc eff es by (simp add: changed_def)
qed

lemma resolve_by_id_Replace:
  assumes "resolve_by_id e i es = out" and "action out = setEndpointReplace"
  shows "\<exists>k old. replaceIdx out = i + k \<and> k < length es \<and> es ! k = Some old \<and> ep_ID old = ep_ID e
    \<and> targetID out = ep_ID e \<and> \<not> endpointContentEqualForSet old e"
  using assms
proof (induction e i es rule: resolve_by_id.induct)
  case (2 e i es)
  then obtain k old where "replaceIdx out = i + Suc k \<and> k < length es \<and> es ! k = Some old \<and> ep_ID old = ep_ID e
      \<and> targetID out = ep_ID e \<and> \<not> endpointContentEqualForSet old e" by auto
  then show ?case by (intro exI [of _ "Suc k"]) auto
next
  case (3 e i x es)
  show ?case
  proof (cases "ep_ID x = ep_ID e")
    case True
    with 3 show ?thesis by (intro exI [of _ 0]) (auto split: if_splits)
  next
    case False
    with 3 obtain k old where "replaceIdx out = i + Suc k \<and> k < length es \<and> es ! k = Some old \<and> ep_ID old = ep_ID e
        \<and> targetID out = ep_ID e \<and> \<not> endpointContentEqualForSet old e" by auto
    then show ?thesis by (intro exI [of _ "Suc k"]) auto
  qed
qed auto

lemma resolve_Replace:
  assumes "action (resolveSetEndpointSlot n e es) = setEndpointReplace"
  shows "\<exists>old. replaceIdx (resolveSetEndpointSlot n e es) < length es
    \<and> es ! replaceIdx (resolveSetEndpointSlot n e es) = Some old
    \<and> ep_ID old = ep_ID e \<and> targetID (resolveSetEndpointSlot n e es) = ep_ID e"
proof -
  have "ep_ID e \<noteq> ''''"
    using assms by (auto simp: resolveSetEndpointSlot_def resolveSetEndpointSlotByHash_def Let_def
        split: option.splits if_splits)
  with assms resolve_by_id_Replace [of e 0 es] show ?thesis
    by (auto simp: resolveSetEndpointSlot_def resolveSetEndpointSlotByID_def)
qed

text \<open>The endpoints of a cluster after an endpoint was set.\<close>

definition endpoints_after :: "string \<Rightarrow> Endpoint \<Rightarrow> Endpoint option list \<Rightarrow> Endpoint option list" where
  "endpoints_after n e es =
     (let out = resolveSetEndpointSlot n e es; e = e\<lparr>ep_ID := targetID out\<rparr>; k = replaceIdx out
      in case action out of
           setEndpointIdempotent \<Rightarrow> es
         | setEndpointReplace \<Rightarrow> es[k := Some (default_name k e)]
         | setEndpointAppend \<Rightarrow>
             es @ [Some (default_name (length es) (fresh_id n (rev (map ep_ID (somes es))) e))])"

lemma set_in_config_ok:
  assumes c: "assembled (Endpoints c)" "serves c (runtimes p ! r)" "r < length (runtimes p)" "cc_Name c = n"
    and op: "set_in_config fs n e r c p = (a, c', p')"
  shows "changed p r c p' c' \<and> Endpoints c' = endpoints_after n e (Endpoints c)"
proof -
  let ?out = "resolveSetEndpointSlot n e (Endpoints c)"
  show ?thesis
  proof (cases "action ?out")
    case setEndpointIdempotent
    with op c show ?thesis by (simp add: set_in_config_def endpoints_after_def changed_def same_cluster_def Let_def)
  next
    case setEndpointReplace
    from resolve_Replace [OF this] obtain old where k: "replaceIdx ?out < length (Endpoints c)"
        "Endpoints c ! replaceIdx ?out = Some old" "ep_ID (e\<lparr>ep_ID := targetID ?out\<rparr>) = ep_ID old" by auto
    from op setEndpointReplace have
      "replaceEndpointAt fs c r (replaceIdx ?out) (e\<lparr>ep_ID := targetID ?out\<rparr>) p = (c', p')"
      by (simp add: set_in_config_def Let_def split: prod.splits)
    from replaceEndpointAt_ok [OF c(1-3) k this] setEndpointReplace show ?thesis
      by (simp add: endpoints_after_def Let_def)
  next
    case setEndpointAppend
    with op have "appendEndpoint fs c r (e\<lparr>ep_ID := targetID ?out\<rparr>) p = (c', p')"
      by (simp add: set_in_config_def Let_def)
    from appendEndpoint_ok [OF c(1-3) this] setEndpointAppend c(4) show ?thesis
      by (simp add: endpoints_after_def Let_def)
  qed
qed

lemma changed_ok:
  assumes ok: "store_ok p s" and i: "config_index n (st_Config s) = Some i"
    and r: "map_of (clustersMap s) n = Some r" and ch: "changed p r (configs s ! i) p' c'"
  shows "store_ok p' (s\<lparr>st_Config := (st_Config s)[i := Some c']\<rparr>)
    \<and> moved p s p' (s\<lparr>st_Config := (st_Config s)[i := Some c']\<rparr>)"
proof -
  note c = found_config [OF ok i]
  show ?thesis
    by (rule in_place_ok [OF ok c(1)]) (use ch c(2) r in \<open>auto simp: changed_def same_cluster_def\<close>)
qed

lemma set_existing_ok:
  assumes ok: "store_ok p s" and i: "config_index n (st_Config s) = Some i"
    and op: "set_existing fs n e i p s = (a, p', s')"
  shows "store_ok p' s' \<and> moved p s p' s' \<and> (\<exists>c. st_Config s' = (st_Config s)[i := Some c]
    \<and> same_cluster (configs s ! i) c \<and> Endpoints c = endpoints_after n e (Endpoints (configs s ! i)))"
proof -
  note c = found_config [OF ok i]
  obtain r p1 s1 where cur: "current_runtime fs n (configs s ! i) p s = (r, p1, s1)" by (metis prod.exhaust)
  note cr = current_runtime_ok [OF ok i cur]
  obtain c' where set: "set_in_config fs n e r (configs s ! i) p1 = (a, c', p')"
    and s': "s' = s1\<lparr>st_Config := (st_Config s1)[i := Some c']\<rparr>"
    using op cur c(3) by (auto simp: set_existing_def Let_def split: prod.splits)
  have "configs s ! i \<in> set (configs s1)" using c(4) cr by simp
  then have "assembled (Endpoints (configs s ! i))" "serves (configs s ! i) (runtimes p1 ! r)" "r < length (runtimes p1)"
    using cr c(2) by (auto simp: store_ok_def simp del: map_of_eq_Some_iff set_somes)
  from set_in_config_ok [OF this c(2) set]
  have ch: "changed p1 r (configs s ! i) p' c'" "Endpoints c' = endpoints_after n e (Endpoints (configs s ! i))" by auto
  have "store_ok p' s' \<and> moved p1 s1 p' s'"
    unfolding s' using changed_ok [of p1 s1 n i r p' c'] cr i ch(1) by simp
  with cr ch s' moved_trans show ?thesis by (auto simp: changed_def)
qed

lemma SetEndpoint_ok:
  assumes ok: "store_ok p s" and n: "n \<noteq> ''''" and op: "store_SetEndpoint fs n (Some e) p s = (a, p', s')"
  shows "store_ok p' s' \<and> moved p s p' s' \<and>
    (case config_index n (st_Config s) of
       Some i \<Rightarrow> \<exists>c. st_Config s' = (st_Config s)[i := Some c] \<and> same_cluster (configs s ! i) c
         \<and> Endpoints c = endpoints_after n e (Endpoints (configs s ! i))
     | None \<Rightarrow> \<exists>c. st_Config s' = st_Config s @ [Some c] \<and> cc_Name c = n \<and> HealthChecks c = []
         \<and> Endpoints c = endpoints_after n e [])"
proof (cases "config_index n (st_Config s)")
  case (Some i)
  with op set_existing_ok [OF ok Some] show ?thesis by (simp add: store_SetEndpoint_def)
next
  case None
  obtain c p1 s1 where add: "store_AddCluster fs (new_cluster n) p s = (c, p1, s1)" by (metis prod.exhaust)
  have gn: "given_name (new_cluster n :: 'a ClusterConfig) p = n" using n by (simp add: given_name_def new_cluster_def)
  have "n \<notin> names s" using no_config [OF ok] None by blast
  then have a: "store_ok p1 s1" "moved p s p1 s1" "st_Config s1 = st_Config s @ [Some c]" "cc_Name c = n"
    "HealthChecks c = []"
    using AddCluster_ok [OF ok _ add] gn by (simp_all add: new_cluster_def)
  have cfg: "configs s1 = configs s @ [c]" using a(3) by simp
  have "config_index n (st_Config s1) = Some (length (st_Config s))"
    unfolding a(3) using config_index_snoc [OF None a(4)] .
  note i = this
  have es: "Endpoints c = []"
    using add by (auto simp: store_AddCluster_def new_cluster_def prepareClusterConfig_def
        prepareOwnedClusterConfig_def assembleClusterEndpoints_def Let_def split: prod.splits if_splits)
  have len: "length (st_Config s) = length (configs s)" using store_configs [OF ok] by (metis length_map)
  have op': "set_existing fs n e (length (st_Config s)) p1 s1 = (a, p', s')"
    using op None add by (simp add: store_SetEndpoint_def)
  from set_existing_ok [OF a(1) i op'] obtain c' where
    "store_ok p' s'" "moved p1 s1 p' s'" "st_Config s' = (st_Config s1)[length (st_Config s) := Some c']"
    "same_cluster c c'" "Endpoints c' = endpoints_after n e []" by (auto simp: cfg len es)
  with None a moved_trans show ?thesis by (auto simp: same_cluster_def)
qed

lemma endpoint_index_Some:
  "endpoint_index i es = Some (Some j) \<Longrightarrow> j < length es \<and> (\<exists>e. es ! j = Some e \<and> ep_ID e = i)"
  by (induction i es arbitrary: j rule: endpoint_index.induct) (auto split: if_splits option.splits)

lemma endpoint_index_absent:
  "endpoint_index i es = Some None \<Longrightarrow> \<forall>e \<in> set (somes es). ep_ID e \<noteq> i"
  by (induction i es rule: endpoint_index.induct) (auto simp del: set_somes split: if_splits)

lemma endpoint_index_no_nil: "None \<notin> set es \<Longrightarrow> endpoint_index i es \<noteq> None"
  by (induction i es rule: endpoint_index.induct) auto

lemma without_filter:
  assumes "assembled es" and "j < length es" "es ! j = Some e"
  shows "somes (without j es) = filter (\<lambda>x. ep_ID x \<noteq> ep_ID e) (somes es)"
proof -
  have "ep_ID x \<noteq> ep_ID e" if "x \<in> set (somes (take j es)) \<union> set (somes (drop (j + 1) es))" for x
    using that assms(1) by (auto simp: assembled_def somes_split [OF assms(2,3)] image_iff simp del: set_somes)
  then have "filter (\<lambda>x. ep_ID x \<noteq> ep_ID e) (somes (take j es)) = somes (take j es)"
    "filter (\<lambda>x. ep_ID x \<noteq> ep_ID e) (somes (drop (j + 1) es)) = somes (drop (j + 1) es)"
    by (auto simp: filter_id_conv simp del: set_somes)
  then show ?thesis by (simp add: somes_split [OF assms(2,3)] without_def)
qed

lemma DeleteEndpoint_ok:
  assumes ok: "store_ok p s" and op: "store_DeleteEndpoint fs n endpointID p s = Some (p', s')"
  shows "store_ok p' s' \<and> moved p s p' s' \<and>
    (case config_index n (st_Config s) of
       None \<Rightarrow> st_Config s' = st_Config s
     | Some i \<Rightarrow> \<exists>c. st_Config s' = (st_Config s)[i := Some c] \<and> same_cluster (configs s ! i) c
         \<and> somes (Endpoints c) = filter (\<lambda>e. ep_ID e \<noteq> endpointID) (somes (Endpoints (configs s ! i))))"
proof (cases "config_index n (st_Config s)")
  case None
  then show ?thesis using ok op by (simp add: store_DeleteEndpoint_def)
next
  case (Some i)
  let ?c = "configs s ! i"
  note c = found_config [OF ok Some]
  obtain r p1 s1 where cur: "current_runtime fs n ?c p s = (r, p1, s1)" by (metis prod.exhaust)
  note cr = current_runtime_ok [OF ok Some cur]
  obtain oj where oj: "endpoint_index endpointID (Endpoints ?c) = Some oj"
    using op Some cur c(3) by (cases "endpoint_index endpointID (Endpoints ?c)") (auto simp: store_DeleteEndpoint_def)
  show ?thesis
  proof (cases oj)
    case None
    with op Some cur c(3) oj have "p' = p1" "s' = s1" by (simp_all add: store_DeleteEndpoint_def)
    moreover have "filter (\<lambda>e. ep_ID e \<noteq> endpointID) (somes (Endpoints ?c)) = somes (Endpoints ?c)"
      using endpoint_index_absent [of endpointID "Endpoints ?c"] oj None by (auto simp: filter_id_conv simp del: set_somes)
    moreover have "(st_Config s)[i := Some ?c] = st_Config s" using c(3) by (metis list_update_id)
    ultimately show ?thesis using cr Some by (auto simp: same_cluster_def intro!: exI [of _ ?c])
  next
    case (Some j)
    with oj obtain e where j: "j < length (Endpoints ?c)" "Endpoints ?c ! j = Some e" "ep_ID e = endpointID"
      using endpoint_index_Some by blast
    obtain c' p2 where prep: "prepareOwnedClusterConfig fs (?c\<lparr>Endpoints := without j (Endpoints ?c)\<rparr>)
        (change_runtime r (RemoveEndpoint None (Some e)) p1) = (c', p2)" by force
    have fin: "p' = change_runtime r (sync_runtime fs c') p2" "s' = s1\<lparr>st_Config := (st_Config s1)[i := Some c']\<rparr>"
      using op \<open>config_index n (st_Config s) = Some i\<close> cur c(3) oj Some j(2) prep
      by (auto simp: store_DeleteEndpoint_def without_def)
    have "?c \<in> set (configs s1)" using c(4) cr by simp
    then have live: "assembled (Endpoints ?c)" "serves ?c (runtimes p1 ! r)" "r < length (runtimes p1)"
      using cr c(2) by (auto simp: store_ok_def simp del: map_of_eq_Some_iff set_somes)
    from deleteEndpoint_ok [OF live j(1,2) prep] have
      ch: "changed p1 r ?c p' c'" "Endpoints c' = without j (Endpoints ?c)" by (simp_all add: fin)
    have "store_ok p' s' \<and> moved p1 s1 p' s'"
      unfolding fin(2) using changed_ok [of p1 s1 n i r p' c'] cr \<open>config_index n (st_Config s) = Some i\<close> ch(1) by simp
    with cr ch fin(2) moved_trans \<open>config_index n (st_Config s) = Some i\<close> without_filter [OF live(1) j(1,2)] j(3)
    show ?thesis by (auto simp: changed_def)
  qed
qed

end
