(* ===== verification/Pixiu_StoreRepair.thy ===== *)
theory Pixiu_StoreRepair
  imports Pixiu_ClusterStore
begin

text \<open>
  The repair of the runtimes of a store before it is published, \<open>ensureRuntimeClusters\<close> and
  \<open>ensureRuntimeClustersFrom\<close> of \<open>pkg/server/cluster_manager.go\<close>: whatever runtimes a candidate store
  has, afterwards it is well-formed, and the runtimes it gave up are among those returned to be
  stopped.
\<close>

section \<open>Candidates\<close>

text \<open>A candidate may lack runtimes; those it has serve their configurations.\<close>

definition cand_ok :: "'h process \<Rightarrow> 'h ClusterStore \<Rightarrow> bool" where
  "cand_ok p s \<longleftrightarrow>
     st_Config s = map Some (configs s)
     \<and> distinct (map cc_Name (configs s)) \<and> '''' \<notin> names s
     \<and> distinct (map fst (clustersMap s)) \<and> distinct (map snd (clustersMap s))
     \<and> fst ` set (clustersMap s) \<subseteq> names s
     \<and> (\<forall>c \<in> set (configs s). \<forall>r. map_of (clustersMap s) (cc_Name c) = Some r \<longrightarrow>
          r < length (runtimes p) \<and> assembled (Endpoints c) \<and> serves c (runtimes p ! r))"

lemma cand_maps: "cand_ok p s \<Longrightarrow> distinct (map fst (clustersMap s)) \<and> distinct (map snd (clustersMap s))"
  by (simp add: cand_ok_def)

lemma cand_configs: "cand_ok p s \<Longrightarrow> map Some (configs s) = st_Config s"
  by (simp add: cand_ok_def)

lemma cand_runtime:
  "cand_ok p s \<Longrightarrow> c \<in> set (configs s) \<Longrightarrow> map_of (clustersMap s) (cc_Name c) = Some r \<Longrightarrow>
   r < length (runtimes p) \<and> assembled (Endpoints c) \<and> serves c (runtimes p ! r)"
  by (simp add: cand_ok_def del: set_somes)

lemma store_ok_cand:
  "store_ok p s \<longleftrightarrow> cand_ok p s \<and> fst ` set (clustersMap s) = names s"
proof
  assume ok: "cand_ok p s \<and> fst ` set (clustersMap s) = names s"
  have "assembled (Endpoints c)" if c: "c \<in> set (configs s)" for c
  proof -
    have "cc_Name c \<in> fst ` set (clustersMap s)" using ok c by simp
    then obtain r where "map_of (clustersMap s) (cc_Name c) = Some r" by (metis map_of_eq_None_iff not_None_eq)
    with cand_runtime ok c show ?thesis by blast
  qed
  with ok show "store_ok p s" by (simp add: cand_ok_def store_ok_def del: set_somes)
qed (simp add: cand_ok_def store_ok_def del: set_somes)

lemma cand_ptr:
  assumes "cand_ok p s" and "r \<in> ptrs s"
  shows "r < length (runtimes p)"
proof -
  obtain n where n: "(n, r) \<in> set (clustersMap s)" using assms(2) by (auto simp: ptrs_def)
  then have m: "map_of (clustersMap s) n = Some r" using cand_maps [OF assms(1)] by simp
  have "n \<in> fst ` set (clustersMap s)" using n by force
  then have "n \<in> names s" using assms(1) by (auto simp: cand_ok_def simp del: set_somes)
  with m cand_runtime [OF assms(1)] show ?thesis by auto
qed

lemma configs_update:
  assumes "cand_ok p s" and "st_Config s' = (st_Config s)[i := Some c]"
  shows "configs s' = (configs s)[i := c]"
proof -
  have "st_Config s' = map Some ((configs s)[i := c])"
    by (simp add: assms(2) map_update cand_configs [OF assms(1)])
  then show ?thesis by simp
qed

text \<open>One configuration changes and has a runtime afterwards.\<close>

lemma cand_ok_change:
  assumes ok: "cand_ok p s" and i: "i < length (configs s)" and n: "cc_Name c = cc_Name (configs s ! i)"
    and cfg: "st_Config s' = (st_Config s)[i := Some c]"
    and m: "clustersMap s' = AList.update (cc_Name c) r (clustersMap s)"
    and r: "r < length (runtimes p')" "r \<notin> ptrs s \<or> map_of (clustersMap s) (cc_Name c) = Some r"
    and own: "assembled (Endpoints c)" "serves c (runtimes p' ! r)"
    and heap: "length (runtimes p) \<le> length (runtimes p')"
      "\<And>q. q \<in> ptrs s \<Longrightarrow> map_of (clustersMap s) (cc_Name c) \<noteq> Some q \<Longrightarrow> runtimes p' ! q = runtimes p ! q"
  shows "cand_ok p' s' \<and> map cc_Name (configs s') = map cc_Name (configs s)
    \<and> fst ` set (clustersMap s') = insert (cc_Name c) (fst ` set (clustersMap s))"
proof -
  note maps = cand_maps [OF ok]
  note cs = configs_update [OF ok cfg]
  have nm: "map cc_Name (configs s') = map cc_Name (configs s)"
    using i n by (simp add: cs map_update list_update_same_conv)
  then have nset: "names s' = names s" by (metis set_map)
  have "r \<notin> snd ` {x \<in> set (clustersMap s). fst x \<noteq> cc_Name c}"
    using r(2) maps by (auto simp: other_ptrs)
  then have d: "distinct (map fst (clustersMap s'))" "distinct (map snd (clustersMap s'))"
    using maps distinct_snd_update [of "clustersMap s" r "cc_Name c"] by (simp_all add: m distinct_update)
  have keys: "fst ` set (clustersMap s') = insert (cc_Name c) (fst ` set (clustersMap s))"
    using maps by (force simp: m set_update_distinct)
  have in_names: "cc_Name c \<in> names s" using i n by (metis image_eqI nth_mem)
  have live: "q < length (runtimes p') \<and> assembled (Endpoints c') \<and> serves c' (runtimes p' ! q)"
    if c': "c' \<in> set (configs s')" and q: "map_of (clustersMap s') (cc_Name c') = Some q" for c' q
  proof (cases "cc_Name c' = cc_Name c")
    case True
    have "c \<in> set (configs s')" unfolding cs using i by (rule set_update_memI)
    moreover have "distinct (map cc_Name (configs s'))" using ok nm by (simp add: cand_ok_def)
    ultimately have "c' = c" using same_name c' True by blast
    with q r(1) own show ?thesis by (simp add: m update_conv')
  next
    case False
    then have c'in: "c' \<in> set (configs s)" using c' set_update_subset_insert [of "configs s" i c] cs by auto
    from q False have q': "map_of (clustersMap s) (cc_Name c') = Some q" by (simp add: m update_conv')
    have "map_of (clustersMap s) (cc_Name c) \<noteq> Some q" using False q' maps
      by (metis Pair_inject distinct_map inj_onD map_of_SomeD snd_conv)
    then have "runtimes p' ! q = runtimes p ! q" using heap(2) map_of_ptrs [OF q'] by blast
    with cand_runtime [OF ok c'in q'] heap(1) show ?thesis by simp
  qed
  have "st_Config s' = map Some (configs s')" unfolding cs by (simp add: cfg map_update cand_configs [OF ok])
  moreover have "distinct (map cc_Name (configs s'))" "'''' \<notin> names s'" "fst ` set (clustersMap s') \<subseteq> names s'"
    using ok nm nset keys in_names by (simp_all add: cand_ok_def del: set_somes)
  ultimately show ?thesis
    unfolding cand_ok_def using d keys nm live by blast
qed

section \<open>One repair\<close>

text \<open>
  What a repair does to the heap: other runtimes keep their health checkers, and the runtimes given
  up are reported.
\<close>

definition repaired ::
    "'h process \<Rightarrow> 'h ClusterStore \<Rightarrow> nat option list \<Rightarrow> 'h process \<Rightarrow> 'h ClusterStore \<Rightarrow> bool" where
  "repaired p s rs p' s' \<longleftrightarrow>
     length (runtimes p) \<le> length (runtimes p')
     \<and> (\<forall>r < length (runtimes p). r \<notin> ptrs s \<longrightarrow> r \<notin> ptrs s' \<and> HealthCheck (runtimes p' ! r) = HealthCheck (runtimes p ! r))
     \<and> (\<forall>r < length (runtimes p'). r \<notin> ptrs s' \<longrightarrow> r \<in> ptrs s \<or> length (runtimes p) \<le> r \<longrightarrow> Some r \<in> set rs)
     \<and> (\<forall>r. Some r \<in> set rs \<longrightarrow> r < length (runtimes p') \<and> r \<notin> ptrs s')"

lemma repaired_refl: "repaired p s [] p s"
  by (simp add: repaired_def)

lemma repairedD:
  assumes "repaired p s rs p' s'"
  shows "length (runtimes p) \<le> length (runtimes p')"
    "r < length (runtimes p) \<Longrightarrow> r \<notin> ptrs s \<Longrightarrow> r \<notin> ptrs s'"
    "r < length (runtimes p) \<Longrightarrow> r \<notin> ptrs s \<Longrightarrow> HealthCheck (runtimes p' ! r) = HealthCheck (runtimes p ! r)"
    "r < length (runtimes p') \<Longrightarrow> r \<notin> ptrs s' \<Longrightarrow> r \<in> ptrs s \<or> length (runtimes p) \<le> r \<Longrightarrow> Some r \<in> set rs"
    "Some r \<in> set rs \<Longrightarrow> r < length (runtimes p') \<and> r \<notin> ptrs s'"
  using assms unfolding repaired_def by blast+

lemma repaired_trans:
  assumes "repaired p s rs p1 s1" and "repaired p1 s1 rs' p2 s2"
  shows "repaired p s (rs @ rs') p2 s2"
  unfolding repaired_def
proof (intro conjI allI impI)
  note a = repairedD [OF assms(1)] and b = repairedD [OF assms(2)]
  show "length (runtimes p) \<le> length (runtimes p2)" using a(1) b(1) by linarith
  {
    fix r assume r: "r < length (runtimes p)" "r \<notin> ptrs s"
    then have "r < length (runtimes p1)" using a(1) by linarith
    with r a(2,3) [of r] b(2,3) [of r]
    show "r \<notin> ptrs s2" "HealthCheck (runtimes p2 ! r) = HealthCheck (runtimes p ! r)" by simp_all
  next
    fix r assume r: "r < length (runtimes p2)" "r \<notin> ptrs s2" "r \<in> ptrs s \<or> length (runtimes p) \<le> r"
    show "Some r \<in> set (rs @ rs')"
    proof (cases "r \<in> ptrs s1 \<or> length (runtimes p1) \<le> r")
      case True
      with r b(4) [of r] show ?thesis by simp
    next
      case False
      with r a(4) [of r] show ?thesis by simp
    qed
  next
    fix r assume "Some r \<in> set (rs @ rs')"
    with a(5) [of r] b(1) b(2,5) [of r] show "r < length (runtimes p2)" "r \<notin> ptrs s2" by auto
  }
qed

text \<open>One configuration is prepared, and gets a new runtime or keeps the one it has.\<close>

lemma repair_step:
  assumes ok: "cand_ok p s" and i: "i < length (configs s)"
    and prep: "prepareClusterConfig fs (configs s ! i) p = (c, p1)"
    and frozen: "length (runtimes p2) = length (runtimes p)"
      "\<And>q. q < length (runtimes p) \<Longrightarrow> HealthCheck (runtimes p2 ! q) = HealthCheck (runtimes p ! q)"
      "\<And>q. q \<in> ptrs s \<Longrightarrow> map_of (clustersMap s) (cc_Name c) \<noteq> Some q \<Longrightarrow> runtimes p2 ! q = runtimes p ! q"
    and s1: "s1 = s\<lparr>st_Config := (st_Config s)[i := Some c]\<rparr>"
    and step: "rep = replaceClusterRuntimeWithSnapshot fs (cc_Name c) c previous p2 s1
      \<or> (\<exists>r. map_of (clustersMap s) (cc_Name c) = Some r \<and> runtimes p2 ! r = runtimes p ! r \<and> rep = (None, p2, s1))"
    and res: "rep = (old, p', s')"
  shows "cand_ok p' s' \<and> repaired p s [old] p' s' \<and> map cc_Name (configs s') = map cc_Name (configs s)
    \<and> st_Config s' = (st_Config s)[i := Some c] \<and> cc_Name c = cc_Name (configs s ! i)
    \<and> fst ` set (clustersMap s') = insert (cc_Name c) (fst ` set (clustersMap s))"
proof -
  note e = prepare_effect [OF prep]
  note maps = cand_maps [OF ok]
  have n: "cc_Name c = cc_Name (configs s ! i)" using e(1) by (simp add: same_cluster_def)
  have ci: "configs s ! i \<in> set (configs s)" using i by (rule nth_mem)
  from step show ?thesis
  proof
    assume "rep = replaceClusterRuntimeWithSnapshot fs (cc_Name c) c previous p2 s1"
    with res have "replaceClusterRuntimeWithSnapshot fs (cc_Name c) c previous p2 s1 = (old, p', s')" by simp
    note r = replaceWith_effect [OF this]
    let ?r = "length (runtimes p)"
    have m: "clustersMap s' = AList.update (cc_Name c) ?r (clustersMap s)" using r(2) frozen(1) by (simp add: s1)
    have fresh: "?r \<notin> ptrs s" using cand_ptr [OF ok] by blast
    have oldb: "q < length (runtimes p)" if "Some q = map_of (clustersMap s) (cc_Name c)" for q
      using cand_ptr [OF ok map_of_ptrs [OF that [symmetric]]] .
    have len: "length (runtimes p') = length (runtimes p) + 1" using r(3) frozen(1) by simp
    have keep: "runtimes p' ! q = runtimes p2 ! q" if "q < length (runtimes p)" for q
      using that r(3) frozen(1) by (simp add: nth_append)
    have "cand_ok p' s' \<and> map cc_Name (configs s') = map cc_Name (configs s)
        \<and> fst ` set (clustersMap s') = insert (cc_Name c) (fst ` set (clustersMap s))"
    proof (rule cand_ok_change [OF ok i n _ m])
      show "serves c (runtimes p' ! ?r)"
        using new_runtime_serves [OF e(4)] r(3) frozen(1) by (simp add: nth_append)
      show "q \<in> ptrs s \<Longrightarrow> map_of (clustersMap s) (cc_Name c) \<noteq> Some q \<Longrightarrow> runtimes p' ! q = runtimes p ! q" for q
        using keep frozen(3) cand_ptr [OF ok] by simp
    qed (use r(2) len fresh e(4) in \<open>simp_all add: s1\<close>)
    moreover have "ptrs s' = insert ?r (ptrs s - {q. map_of (clustersMap s) (cc_Name c) = Some q})"
      using ptrs_update [OF _ m] other_ptrs maps by blast
    then have "repaired p s [old] p' s'"
      unfolding repaired_def using r(1) len keep frozen(2)
      by (auto simp: s1 simp del: map_of_eq_Some_iff dest: oldb)
    ultimately show ?thesis using r(2) n by (simp add: s1)
  next
    assume "\<exists>r. map_of (clustersMap s) (cc_Name c) = Some r \<and> runtimes p2 ! r = runtimes p ! r \<and> rep = (None, p2, s1)"
    then obtain r where r: "map_of (clustersMap s) (cc_Name c) = Some r" "runtimes p2 ! r = runtimes p ! r"
      and fin: "old = None" "p' = p2" "s' = s1" using res by auto
    have m: "clustersMap s1 = AList.update (cc_Name c) r (clustersMap s)" using r(1) by (simp add: s1 update_triv)
    have live: "r < length (runtimes p)" "assembled (Endpoints (configs s ! i))" "serves (configs s ! i) (runtimes p ! r)"
      using cand_runtime [OF ok ci] r(1) n by simp_all
    have "Endpoints c = Endpoints (configs s ! i)" using e(2) assemble_loop_id [OF live(2), where ids = "[]"] by simp
    then have sv: "serves c (runtimes p2 ! r)"
      using live(3) r(2) e(1) serves_cong [of c "configs s ! i"] by (simp add: same_cluster_def)
    have "cand_ok p2 s1 \<and> map cc_Name (configs s1) = map cc_Name (configs s)
        \<and> fst ` set (clustersMap s1) = insert (cc_Name c) (fst ` set (clustersMap s))"
      by (rule cand_ok_change [OF ok i n _ m _ _ e(4) sv])
        (use r(1) live(1) frozen(1,3) in \<open>simp_all add: s1 del: map_of_eq_Some_iff\<close>)
    moreover have "ptrs s1 = ptrs s" by (simp add: ptrs_def s1)
    then have "repaired p s [None] p2 s1"
      unfolding repaired_def using frozen(1,2) by auto
    ultimately show ?thesis using fin n by (simp add: s1)
  qed
qed

section \<open>The loops\<close>

definition listed :: "'h ClusterConfig \<Rightarrow> string \<times> SocketAddress list" where
  "listed c = (cc_Name c, map ep_Address (somes (Endpoints c)))"

lemma prepare_listed: "prepareClusterConfig fs c p = (c', p') \<Longrightarrow> listed c' = listed c"
  using prepare_effect [of fs c p c' p'] assemble_loop_spec by (simp add: listed_def same_cluster_def)

lemma listed_names: "map listed (configs s') = map listed (configs s) \<Longrightarrow> map cc_Name (configs s') = map cc_Name (configs s)"
  by (metis (no_types, lifting) comp_apply fst_conv listed_def map_eq_conv map_map)

lemma map_listed_update: "i < length cs \<Longrightarrow> listed c = listed (cs ! i) \<Longrightarrow> map listed (cs[i := c]) = map listed cs"
  by (simp add: map_update list_update_same_conv)

lemma drop_configs:
  assumes "cand_ok p s" and "drop i (st_Config s) = map Some (c # cs)"
  shows "i < length (configs s)" "configs s ! i = c" "drop (i + 1) (st_Config s) = map Some cs"
proof -
  have "map Some (drop i (configs s)) = map Some (c # cs)"
    using assms(2) cand_configs [OF assms(1)] by (metis drop_map)
  then have d: "drop i (configs s) = c # cs" by (simp add: map_injective inj_def)
  then show "i < length (configs s)" by (metis drop_all list.distinct(1) not_le)
  then show "configs s ! i = c" using d by (simp add: Cons_nth_drop_Suc [symmetric])
  show "drop (i + 1) (st_Config s) = map Some cs"
    using assms(2) by (metis Suc_eq_plus1 drop_Suc list.map(2) list.sel(3) tl_drop)
qed

lemma ensure_loop_ok:
  assumes "cand_ok p s" and "drop i (st_Config s) = map Some cs"
    and "ensure_loop fs i (map Some cs) p s = (ns, rs, p', s')"
  shows "cand_ok p' s' \<and> repaired p s rs p' s' \<and> map listed (configs s') = map listed (configs s)
    \<and> ns = map cc_Name cs \<and> fst ` set (clustersMap s') = set ns \<union> fst ` set (clustersMap s)"
  using assms
proof (induction cs arbitrary: i p s ns rs)
  case Nil
  then show ?case by (simp add: repaired_refl)
next
  case (Cons c cs)
  note d = drop_configs [OF Cons.prems(1,2)]
  obtain c1 p1 where prep: "prepareClusterConfig fs c p = (c1, p1)" by force
  have p1: "runtimes p1 = runtimes p" by (rule prepare_effect [OF prep])
  define s1 where "s1 = s\<lparr>st_Config := (st_Config s)[i := Some c1]\<rparr>"
  obtain old p2 s2 where run: "ensure_runtime fs c1 p1 s1 = (old, p2, s2)" by (metis prod.exhaust)
  obtain ns' rs' where rest: "ensure_loop fs (i + 1) (map Some cs) p2 s2 = (ns', rs', p', s')"
    and fin: "ns = cc_Name c1 # ns'" "rs = old # rs'"
    using Cons.prems(3) prep run by (auto simp: s1_def Let_def split: prod.splits)
  obtain previous p0 where fr: "snapshotForRuntimeReplacement s1 (cc_Name c1) p1 = (previous, p0)" by force
  have hc: "HealthCheck (runtimes p0 ! q) = HealthCheck (runtimes p ! q)" if "q < length (runtimes p)" for q
    using fr that p1 by (auto simp: snapshotForRuntimeReplacement_def SnapshotForRuntimeReplacement_def
        split: option.splits)
  note fe = freeze_effect [OF fr]
  have "cand_ok p2 s2 \<and> repaired p s [old] p2 s2 \<and> map cc_Name (configs s2) = map cc_Name (configs s)
      \<and> st_Config s2 = (st_Config s)[i := Some c1] \<and> cc_Name c1 = cc_Name (configs s ! i)
      \<and> fst ` set (clustersMap s2) = insert (cc_Name c1) (fst ` set (clustersMap s))"
  proof (cases "\<exists>r. map_of (clustersMap s1) (cc_Name c1) = Some r \<and> ConfigIsIdenticalTo (Some c1) (Some (runtimes p1 ! r))")
    case True
    then obtain r where "map_of (clustersMap s) (cc_Name c1) = Some r" "(None, p1, s1) = (old, p2, s2)"
      using run by (auto simp: ensure_runtime_def s1_def simp del: map_of_eq_Some_iff)
    then show ?thesis
      by (intro repair_step [OF Cons.prems(1) d(1), of fs c1 p1 p1 s1 "(None, p1, s1)"])
        (use d prep p1 in \<open>auto simp: s1_def\<close>)
  next
    case False
    then have "replaceClusterRuntimeWithSnapshot fs (cc_Name c1) c1 previous p0 s1 = (old, p2, s2)"
      using run fr by (auto simp: ensure_runtime_def replaceClusterRuntime_def Let_def simp del: map_of_eq_Some_iff split: option.splits)
    then show ?thesis
      by (intro repair_step [OF Cons.prems(1) d(1), of fs c1 p1 p0 s1 _ previous])
        (use d prep p1 hc fe cand_ptr [OF Cons.prems(1)] in \<open>auto simp: s1_def simp del: map_of_eq_Some_iff\<close>)
  qed
  note st = this
  have "drop (i + 1) (st_Config s2) = map Some cs" using st d(3) by simp
  from Cons.IH [OF _ this rest] st have ih: "cand_ok p' s'" "repaired p2 s2 rs' p' s'"
    "map listed (configs s') = map listed (configs s2)" "ns' = map cc_Name cs"
    "fst ` set (clustersMap s') = set ns' \<union> fst ` set (clustersMap s2)" by auto
  have "configs s2 = (configs s)[i := c1]"
    using st configs_update [OF Cons.prems(1)] by blast
  then have "map listed (configs s2) = map listed (configs s)"
    using map_listed_update [OF d(1)] prepare_listed [OF prep] d(2) by simp
  then show ?case
    using ih st d(2) fin repaired_trans [of p s "[old]" p2 s2 rs' p' s'] by auto
qed

lemma repair_loop_ok:
  assumes "cand_ok p s" and "drop i (st_Config s) = map Some cs"
    and "ptrs s \<inter> ptrs old = {}" and "\<forall>r \<in> ptrs old. r < length (runtimes p)"
    and "repair_loop fs old i (map Some cs) p s = (ns, rs, p', s')"
  shows "cand_ok p' s' \<and> repaired p s rs p' s' \<and> map listed (configs s') = map listed (configs s)
    \<and> ns = map cc_Name cs \<and> fst ` set (clustersMap s') = set ns \<union> fst ` set (clustersMap s)"
  using assms
proof (induction cs arbitrary: i p s ns rs)
  case Nil
  then show ?case by (simp add: repaired_refl)
next
  case (Cons c cs)
  note d = drop_configs [OF Cons.prems(1,2)]
  obtain c1 p1 where prep: "prepareClusterConfig fs c p = (c1, p1)" by force
  have p1: "runtimes p1 = runtimes p" by (rule prepare_effect [OF prep])
  define s1 where "s1 = s\<lparr>st_Config := (st_Config s)[i := Some c1]\<rparr>"
  obtain o1 p2 s2 where run: "repairRuntimeClusterFromPrevious fs old c1 p1 s1 = (o1, p2, s2)" by (metis prod.exhaust)
  have "configs s ! i \<in> set (configs s)" using d(1) by (rule nth_mem)
  moreover have "cc_Name c1 = cc_Name (configs s ! i)"
    using prepare_effect(1) [OF prep] d(2) by (simp add: same_cluster_def)
  ultimately have ne: "cc_Name c1 \<noteq> ''''" using Cons.prems(1) by (force simp: cand_ok_def simp del: set_somes)
  obtain ns' rs' where rest: "repair_loop fs old (i + 1) (map Some cs) p2 s2 = (ns', rs', p', s')"
    and fin: "ns = cc_Name c1 # ns'" "rs = o1 # rs'"
    using Cons.prems(5) prep run ne by (auto simp: s1_def Let_def split: prod.splits)
  obtain previous p0 where fr: "snapshotForRuntimeReplacement old (cc_Name c1) p1 = (previous, p0)" by force
  have hc: "HealthCheck (runtimes p0 ! q) = HealthCheck (runtimes p ! q)" if "q < length (runtimes p)" for q
    using fr that p1 by (auto simp: snapshotForRuntimeReplacement_def SnapshotForRuntimeReplacement_def
        split: option.splits)
  have same: "runtimes p0 ! q = runtimes p ! q" if "q \<in> ptrs s" for q
    using freeze_effect(2) [OF fr, of q] that Cons.prems(3) map_of_ptrs [of old "cc_Name c1" q] p1
      cand_ptr [OF Cons.prems(1) that] by auto
  have len: "length (runtimes p0) = length (runtimes p)" using freeze_effect(1) [OF fr] p1 by simp
  have "cand_ok p2 s2 \<and> repaired p s [o1] p2 s2 \<and> map cc_Name (configs s2) = map cc_Name (configs s)
      \<and> st_Config s2 = (st_Config s)[i := Some c1] \<and> cc_Name c1 = cc_Name (configs s ! i)
      \<and> fst ` set (clustersMap s2) = insert (cc_Name c1) (fst ` set (clustersMap s))"
  proof (rule repair_step [OF Cons.prems(1) d(1) _ len])
    show "(o1, p2, s2) = replaceClusterRuntimeWithSnapshot fs (cc_Name c1) c1 previous p0 s1
      \<or> (\<exists>r. map_of (clustersMap s) (cc_Name c1) = Some r \<and> runtimes p0 ! r = runtimes p ! r \<and> (o1, p2, s2) = (None, p0, s1))"
      using run fr same map_of_ptrs [of s "cc_Name c1"]
      by (auto simp: repairRuntimeClusterFromPrevious_def s1_def Let_def simp del: map_of_eq_Some_iff split: option.splits if_splits)
  qed (use d prep hc same in \<open>auto simp: s1_def\<close>)
  note st = this
  have "drop (i + 1) (st_Config s2) = map Some cs" using st d(3) by simp
  moreover have "ptrs s2 \<inter> ptrs old = {}" "\<forall>r \<in> ptrs old. r < length (runtimes p2)"
    using st repairedD(1,2) [of p s "[o1]" p2 s2] Cons.prems(3,4) by fastforce+
  ultimately have ih: "cand_ok p' s'" "repaired p2 s2 rs' p' s'"
    "map listed (configs s') = map listed (configs s2)" "ns' = map cc_Name cs"
    "fst ` set (clustersMap s') = set ns' \<union> fst ` set (clustersMap s2)"
    using Cons.IH [OF _ _ _ _ rest] st by blast+
  have "configs s2 = (configs s)[i := c1]"
    using st configs_update [OF Cons.prems(1)] by blast
  then have "map listed (configs s2) = map listed (configs s)"
    using map_listed_update [OF d(1)] prepare_listed [OF prep] d(2) by simp
  then show ?case
    using ih st d(2) fin repaired_trans [of p s "[o1]" p2 s2 rs' p' s'] by auto
qed

text \<open>
  Either way a candidate becomes a well-formed store with the same clusters, and whatever runtimes it
  had or was given and does not refer to any more are reported.
\<close>

lemma pruned:
  assumes "cand_ok p s" and "names s \<subseteq> set ns" and "fst ` set (clustersMap s) = names s"
  shows "removeRuntimeClustersNotIn ns s = ([], s) \<and> store_ok p s"
proof -
  have "\<forall>x \<in> set (clustersMap s). fst x \<in> set ns" using assms(2,3) by blast
  then have "filter (\<lambda>(n, r). n \<in> set ns) (clustersMap s) = clustersMap s"
    "filter (\<lambda>(n, r). n \<notin> set ns) (clustersMap s) = []"
    by (auto simp: filter_id_conv filter_empty_conv)
  with assms show ?thesis by (simp add: removeRuntimeClustersNotIn_def store_ok_cand)
qed

lemma ensureRuntimeClusters_ok:
  assumes ok: "cand_ok p s" and op: "ensureRuntimeClusters fs p s = (rs, p', s')"
  shows "store_ok p' s' \<and> repaired p s rs p' s' \<and> map listed (configs s') = map listed (configs s)"
proof -
  obtain ns rs1 p1 s1 where loop: "ensure_loop fs 0 (map Some (configs s)) p s = (ns, rs1, p1, s1)"
    by (metis prod.exhaust)
  from ensure_loop_ok [OF ok _ loop] cand_configs [OF ok]
  have l: "cand_ok p1 s1" "repaired p s rs1 p1 s1" "map listed (configs s1) = map listed (configs s)"
    "ns = map cc_Name (configs s)" "fst ` set (clustersMap s1) = set ns \<union> fst ` set (clustersMap s)" by auto
  have "names s1 = names s" using listed_names [OF l(3)] by (metis set_map)
  moreover have "fst ` set (clustersMap s) \<subseteq> names s" using ok by (simp add: cand_ok_def del: set_somes)
  ultimately have "removeRuntimeClustersNotIn ns s1 = ([], s1) \<and> store_ok p1 s1"
    using l by (intro pruned) (auto simp del: set_somes)
  with op loop l show ?thesis by (simp add: ensureRuntimeClusters_def cand_configs [OF ok])
qed

lemma ensureRuntimeClustersFrom_ok:
  assumes ok: "cand_ok p s" and dis: "ptrs s \<inter> ptrs old = {}" "\<forall>r \<in> ptrs old. r < length (runtimes p)"
    and op: "ensureRuntimeClustersFrom fs old p s = (rs, p', s')"
  shows "store_ok p' s' \<and> repaired p s rs p' s' \<and> map listed (configs s') = map listed (configs s)"
proof -
  obtain ns rs1 p1 s1 where loop: "repair_loop fs old 0 (map Some (configs s)) p s = (ns, rs1, p1, s1)"
    by (metis prod.exhaust)
  from repair_loop_ok [OF ok _ dis loop] cand_configs [OF ok]
  have l: "cand_ok p1 s1" "repaired p s rs1 p1 s1" "map listed (configs s1) = map listed (configs s)"
    "ns = map cc_Name (configs s)" "fst ` set (clustersMap s1) = set ns \<union> fst ` set (clustersMap s)" by auto
  have "names s1 = names s" using listed_names [OF l(3)] by (metis set_map)
  moreover have "fst ` set (clustersMap s) \<subseteq> names s" using ok by (simp add: cand_ok_def del: set_somes)
  ultimately have "removeRuntimeClustersNotIn ns s1 = ([], s1) \<and> store_ok p1 s1"
    using l by (intro pruned) (auto simp del: set_somes)
  with op loop l show ?thesis by (simp add: ensureRuntimeClustersFrom_def cand_configs [OF ok])
qed

end
