(* ===== verification/Pixiu_Maglev.thy ===== *)
theory Pixiu_Maglev
  imports Pixiu_Endpoints "HOL-Library.Multiset"
begin

text \<open>
  Maglev consistent hashing: \<open>pkg/cluster/loadbalancer/maglev/permutation.go\<close>. A lookup table is
  filled by letting every host in turn claim the next free slot of its own sequence of positions.
  SHA3-512 is modelled; the BLAKE2b and xxHash packages are the parameters \<open>blake2b\<close> (the first four
  bytes of the digest as a little-endian number) and \<open>xxhash\<close>. A panic is \<open>None\<close>. The order in which
  Go iterates over the map of buckets is an argument of the operations that depend on it.
\<close>

unbundle bit_operations_syntax

section \<open>SHA3-512\<close>

text \<open>
  The constant of a round has its bits at the positions one below a power of two, each taken from a
  shift register of eight bits with feedback.
\<close>

definition lfsr_step :: "bool list \<Rightarrow> bool list" where
  "lfsr_step r =
     (let out = last r
      in map2 (\<lambda>i b. if i \<in> {0, 4, 5, 6} then b \<noteq> out else b) [0..<8] (False # butlast r))"

definition rc_bit :: "nat \<Rightarrow> bool" where
  "rc_bit t = hd ((lfsr_step ^^ (t mod 255)) (True # replicate 7 False))"

definition round_constant :: "nat \<Rightarrow> 64 word" where
  "round_constant i = fold (\<lambda>j w. if rc_bit (j + 7 * i) then w OR push_bit (2 ^ j - 1) 1 else w) [0..<7] 0"

text \<open>
  The lane at column x and row y is element x + 5 y. The rotation of each lane: the lanes other than
  the first are visited one after the other and rotated by the triangular numbers.
\<close>

fun rho_walk :: "nat list \<Rightarrow> nat \<times> nat \<Rightarrow> nat list \<Rightarrow> nat list" where
  "rho_walk [] (x, y) rots = rots"
| "rho_walk (t # ts) (x, y) rots =
     rho_walk ts (y, (2 * x + 3 * y) mod 5) (rots[x + 5 * y := ((t + 1) * (t + 2) div 2) mod 64])"

definition keccak_rot :: "nat list" where
  "keccak_rot = rho_walk [0..<24] (1, 0) (replicate 25 0)"

definition rotl64 :: "nat \<Rightarrow> 64 word \<Rightarrow> 64 word" where
  "rotl64 n w = (if n = 0 then w else push_bit n w OR drop_bit (64 - n) w)"

definition keccak_round :: "nat list \<Rightarrow> 64 word \<Rightarrow> 64 word list \<Rightarrow> 64 word list" where
  "keccak_round rots rc a =
     (let c = map (\<lambda>x. a ! x XOR a ! (x + 5) XOR a ! (x + 10) XOR a ! (x + 15) XOR a ! (x + 20)) [0..<5];
          d = map (\<lambda>x. c ! ((x + 4) mod 5) XOR rotl64 1 (c ! ((x + 1) mod 5))) [0..<5];
          a = map (\<lambda>i. a ! i XOR d ! (i mod 5)) [0..<25];
          b = map (\<lambda>i. let x = i mod 5; y = i div 5; j = (x + 3 * y) mod 5 + 5 * x
                       in rotl64 (rots ! j) (a ! j)) [0..<25];
          a = map (\<lambda>i. let x = i mod 5; y = i div 5
                       in b ! i XOR (NOT (b ! ((x + 1) mod 5 + 5 * y)) AND b ! ((x + 2) mod 5 + 5 * y))) [0..<25]
      in a[0 := a ! 0 XOR rc])"

definition keccak_f :: "64 word list \<Rightarrow> 64 word list" where
  "keccak_f a = (let rots = keccak_rot in fold (\<lambda>i. keccak_round rots (round_constant i)) [0..<24] a)"

fun le_number :: "8 word list \<Rightarrow> nat" where
  "le_number [] = 0"
| "le_number (b # bs) = unat b + 256 * le_number bs"

text \<open>The rate of SHA3-512 is 72 bytes, nine lanes.\<close>

definition absorb :: "8 word list \<Rightarrow> 64 word list \<Rightarrow> 64 word list" where
  "absorb block a =
     keccak_f (map (\<lambda>i. if i < 9 then a ! i XOR of_nat (le_number (take 8 (drop (8 * i) block))) else a ! i) [0..<25])"

fun absorb_blocks :: "nat \<Rightarrow> 8 word list \<Rightarrow> 64 word list \<Rightarrow> 64 word list" where
  "absorb_blocks 0 bytes a = a"
| "absorb_blocks (Suc n) bytes a = absorb_blocks n (drop 72 bytes) (absorb (take 72 bytes) a)"

definition sha3_pad :: "8 word list \<Rightarrow> 8 word list" where
  "sha3_pad m =
     (let q = 72 - length m mod 72
      in if q = 1 then m @ [0x86] else m @ [0x06] @ replicate (q - 2) 0 @ [0x80])"

text \<open>The first 32 bits of the digest, little-endian, are the low half of the first lane.\<close>

definition sha3_512_first :: "string \<Rightarrow> 32 word" where
  "sha3_512_first s =
     (let p = sha3_pad (string_bytes s)
      in ucast (absorb_blocks (length p div 72) p (replicate 25 0) ! 0))"

section \<open>The lookup table\<close>

definition defaultTableSize :: "int list" where
  "defaultTableSize =
     [307, 503, 1511, 2503, 5099, 7877] @ [10007, 14207, 20903, 40423, 88721] @
     [123911, 164821, 199999, 218077, 299777] @ [344941, 399989, 463031, 514399, 604613] @
     [686669, 726337, 799789, 857011, 999983]"

record permutation =
  offset :: "32 word"
  skip :: "32 word"
  p_next :: nat
  p_index :: nat
  hit :: nat

definition position :: "nat \<Rightarrow> 32 word \<Rightarrow> permutation \<Rightarrow> 32 word" where
  "position j sz p = (offset p + of_nat j * skip p) mod sz"

record LookUpTable =
  slots :: "string list"
  permutations :: "permutation list"
  buckets :: "(nat \<times> string) list"
  endpointNum :: nat
  lt_size :: int

text \<open>\<open>ProbablyPrime\<close> is exact below 2^64.\<close>

definition is_prime :: "nat \<Rightarrow> bool" where
  "is_prime n \<longleftrightarrow> 2 \<le> n \<and> (\<forall>d \<in> {2..<n}. \<not> d dvd n)"

definition NewLookUpTable :: "int \<Rightarrow> string list \<Rightarrow> string + LookUpTable" where
  "NewLookUpTable tableSize hosts =
     (let expectN = int (length hosts) * 100;
          tableSize =
            (if tableSize = 0
             then (case find (\<lambda>sz. expectN < sz) defaultTableSize of None \<Rightarrow> 0 | Some sz \<Rightarrow> sz)
             else tableSize)
      in if tableSize < expectN \<and> \<not> is_prime (nat (tableSize mod 2 ^ 64))
         then Inl ''table size should be a prime number that greater than at least 100 times of endpoints size''
         else Inr \<lparr>slots = [], permutations = [], buckets = enumerate 0 hosts,
                   endpointNum = length hosts, lt_size = tableSize\<rparr>)"

subsection \<open>Filling\<close>

function advance :: "nat \<Rightarrow> string list \<Rightarrow> permutation \<Rightarrow> nat \<Rightarrow> nat" where
  "advance sz sl p start =
     (if start < sz \<and> sl ! unat (position start (of_nat sz) p) \<noteq> []
      then advance sz sl p (start + 1) else start)"
  by pat_completeness auto
termination by (relation "measure (\<lambda>(sz, sl, p, start). sz - start)") auto

declare advance.simps [simp del]

definition host_at :: "(nat \<times> string) list \<Rightarrow> nat \<Rightarrow> string" where
  "host_at bs i = (case map_of bs i of None \<Rightarrow> '''' | Some h \<Rightarrow> h)"

text \<open>One turn of all permutations; the numbers are \<open>full\<close> and \<open>miss\<close>.\<close>

fun populate_pass ::
    "nat \<Rightarrow> (nat \<times> string) list \<Rightarrow> permutation list \<Rightarrow> string list \<Rightarrow> nat \<Rightarrow> nat
     \<Rightarrow> permutation list \<times> string list \<times> nat \<times> nat" where
  "populate_pass sz bs [] sl full miss = ([], sl, full, miss)"
| "populate_pass sz bs (p # ps) sl full miss =
     (if p_next p = sz then
        (let (ps, r) = populate_pass sz bs ps sl full miss in (p # ps, r))
      else
        (let start = advance sz sl p (p_next p)
         in if start < sz then
              (let (ps, r) = populate_pass sz bs ps
                 (sl[unat (position start (of_nat sz) p) := host_at bs (p_index p)]) (full + 1) miss
               in (p\<lparr>hit := hit p + 1, p_next := start\<rparr> # ps, r))
            else
              (let (ps, r) = populate_pass sz bs ps sl full (miss + 1)
               in (p\<lparr>p_next := start\<rparr> # ps, r))))"

partial_function (option) populate_loop ::
    "nat \<Rightarrow> nat \<Rightarrow> (nat \<times> string) list \<Rightarrow> permutation list \<Rightarrow> string list \<Rightarrow> nat \<Rightarrow> nat
     \<Rightarrow> (permutation list \<times> string list \<times> nat \<times> nat) option" where
  "populate_loop sz n bs ps sl full miss =
     (if miss < n \<and> full < sz then
        (let (ps, sl, full, miss) = populate_pass sz bs ps sl full miss
         in populate_loop sz n bs ps sl full miss)
      else Some (ps, sl, full, miss))"

fun least_hit :: "permutation list \<Rightarrow> permutation option \<Rightarrow> permutation option" where
  "least_hit [] best = best"
| "least_hit (p # ps) best =
     least_hit ps (case best of None \<Rightarrow> Some p | Some b \<Rightarrow> if hit p < hit b then Some p else best)"

text \<open>\<open>fillMissingSlots\<close>: the free slots go to the host with the fewest.\<close>

definition fillMissingSlots :: "LookUpTable \<Rightarrow> LookUpTable option" where
  "fillMissingSlots t =
     (case least_hit (permutations t) None of
        None \<Rightarrow> (if [] \<in> set (slots t) then None else Some t)
      | Some minP \<Rightarrow>
          Some (t\<lparr>slots := map (\<lambda>s. if s = [] then host_at (buckets t) (p_index minP) else s) (slots t),
             permutations := map (\<lambda>p. if p_index p = p_index minP
               then p\<lparr>hit := hit p + length (filter (\<lambda>s. s = []) (slots t))\<rparr> else p) (permutations t)\<rparr>))"

definition populate :: "LookUpTable \<Rightarrow> LookUpTable option" where
  "populate t =
     (if lt_size t < 0 then None
      else if permutations t \<noteq> [] \<and> lt_size t > 0 \<and> (of_int (lt_size t) :: 32 word) = 0 then None
      else
        (let sz = nat (lt_size t)
         in case populate_loop sz (endpointNum t) (buckets t) (permutations t) (replicate sz []) 0 0 of
              None \<Rightarrow> None
            | Some (ps, sl, full, miss) \<Rightarrow>
                (let t = t\<lparr>permutations := ps, slots := sl\<rparr>
                 in if full \<noteq> sz \<and> miss > 0 then fillMissingSlots t else Some t)))"

definition generatePerm ::
    "(string \<Rightarrow> 32 word) \<Rightarrow> string \<Rightarrow> nat \<Rightarrow> LookUpTable \<Rightarrow> LookUpTable option" where
  "generatePerm blake2b bucket i t =
     (let m = of_int (lt_size t) :: 32 word
      in if m = 0 \<or> m - 1 = 0 then None
         else
           (let offs = sha3_512_first bucket mod m; sk = blake2b bucket mod (m - 1) + 1
            in Some (t\<lparr>permutations := permutations t @
                 [\<lparr>offset = offs, skip = sk, p_next = 0, p_index = i, hit = 0\<rparr>]\<rparr>)))"

fun generatePerms_loop ::
    "(string \<Rightarrow> 32 word) \<Rightarrow> (nat \<times> string) list \<Rightarrow> LookUpTable \<Rightarrow> LookUpTable option" where
  "generatePerms_loop blake2b [] t = Some t"
| "generatePerms_loop blake2b ((i, b) # rest) t =
     Option.bind (generatePerm blake2b b i t) (generatePerms_loop blake2b rest)"

text \<open>The second argument lists the buckets in the order of the iteration.\<close>

definition generatePerms ::
    "(string \<Rightarrow> 32 word) \<Rightarrow> (nat \<times> string) list \<Rightarrow> LookUpTable \<Rightarrow> LookUpTable option" where
  "generatePerms blake2b order t = generatePerms_loop blake2b order (t\<lparr>permutations := []\<rparr>)"

definition Populate ::
    "(string \<Rightarrow> 32 word) \<Rightarrow> (nat \<times> string) list \<Rightarrow> LookUpTable \<Rightarrow> LookUpTable option" where
  "Populate blake2b order t = Option.bind (generatePerms blake2b order t) populate"

subsection \<open>Lookups and changes\<close>

definition resetPerms :: "LookUpTable \<Rightarrow> LookUpTable" where
  "resetPerms t = t\<lparr>permutations := map (\<lambda>p. p\<lparr>p_next := 0, hit := 0\<rparr>) (permutations t)\<rparr>"

fun remove_first :: "('a \<Rightarrow> bool) \<Rightarrow> 'a list \<Rightarrow> 'a list" where
  "remove_first P [] = []"
| "remove_first P (x # xs) = (if P x then xs else x # remove_first P xs)"

definition removePerm :: "nat \<Rightarrow> LookUpTable \<Rightarrow> LookUpTable" where
  "removePerm dst t = t\<lparr>permutations := remove_first (\<lambda>p. p_index p = dst) (permutations t)\<rparr>"

definition requestHash :: "(string \<Rightarrow> 64 word) \<Rightarrow> string \<Rightarrow> 32 word" where
  "requestHash xxhash key = ucast (xxhash key)"

definition table_GetHash :: "32 word \<Rightarrow> LookUpTable \<Rightarrow> string + string" where
  "table_GetHash key t =
     (if slots t = [] then Inl ''no slot initialized, please call Populate() before Get()''
      else if lt_size t = 0 \<or> endpointNum t = 0 then Inl ''no host added''
      else Inr (slots t ! unat (key mod of_int (lt_size t))))"

definition table_Get :: "(string \<Rightarrow> 64 word) \<Rightarrow> string \<Rightarrow> LookUpTable \<Rightarrow> string + string" where
  "table_Get xxhash key t =
     (if slots t = [] then Inl ''no slot initialized, please call Populate() before Get()''
      else if lt_size t = 0 \<or> endpointNum t = 0 then Inl ''no host added''
      else Inr (slots t ! unat (requestHash xxhash key mod of_int (lt_size t))))"

definition table_Add :: "(string \<Rightarrow> 32 word) \<Rightarrow> string \<Rightarrow> LookUpTable \<Rightarrow> LookUpTable option" where
  "table_Add blake2b host t =
     (if host \<in> snd ` set (buckets t) then Some t
      else
        (let dst = fold max (map fst (buckets t)) 0;
             t = t\<lparr>buckets := buckets t @ [(dst + 1, host)], endpointNum := endpointNum t + 1\<rparr>
         in Option.bind (generatePerm blake2b host (dst + 1) (resetPerms t)) populate))"

text \<open>The first bucket of the host in the order of the iteration is removed.\<close>

definition table_Remove :: "(nat \<times> string) list \<Rightarrow> string \<Rightarrow> LookUpTable \<Rightarrow> (bool \<times> LookUpTable) option" where
  "table_Remove order host t =
     (if endpointNum t = 0 then Some (False, t)
      else
        (case find (\<lambda>(i, b). b = host) order of
           None \<Rightarrow> Some (False, t)
         | Some (i, b) \<Rightarrow>
             (let t = t\<lparr>buckets := AList.delete i (buckets t), endpointNum := endpointNum t - 1\<rparr>
              in map_option (Pair True) (populate (resetPerms (removePerm i t))))))"

section \<open>Lemmas\<close>

subsection \<open>One pass\<close>

abbreviation slot :: "nat \<Rightarrow> permutation \<Rightarrow> nat \<Rightarrow> nat" where
  "slot sz p j \<equiv> unat (position j (of_nat sz) p)"

abbreviation free :: "string list \<Rightarrow> nat" where
  "free sl \<equiv> count (mset sl) []"

abbreviation unfinished :: "nat \<Rightarrow> permutation list \<Rightarrow> nat" where
  "unfinished sz ps \<equiv> length (filter (\<lambda>p. p_next p \<noteq> sz) ps)"

lemma unat_size: "sz < 2 ^ 32 \<Longrightarrow> unat (of_nat sz :: 32 word) = sz"
  by (simp add: unat_of_nat)

lemma unat_size_int: "0 \<le> i \<Longrightarrow> i < 2 ^ 32 \<Longrightarrow> unat (of_int i :: 32 word) = nat i"
  by (simp add: unsigned_of_int take_bit_int_eq_self)

lemma slot_less: "0 < sz \<Longrightarrow> sz < 2 ^ 32 \<Longrightarrow> slot sz p j < sz"
  unfolding position_def by (simp add: unat_mod unat_size)

lemma advance_spec:
  assumes "start \<le> sz"
  shows "start \<le> advance sz sl p start \<and> advance sz sl p start \<le> sz
    \<and> (advance sz sl p start < sz \<longrightarrow> sl ! slot sz p (advance sz sl p start) = [])
    \<and> (\<forall>j. start \<le> j \<and> j < advance sz sl p start \<longrightarrow> sl ! slot sz p j \<noteq> [])"
  using assms
proof (induction sz sl p start rule: advance.induct)
  case (1 sz sl p start)
  show ?case
  proof (cases "start < sz \<and> sl ! slot sz p start \<noteq> []")
    case True
    then have step: "advance sz sl p start = advance sz sl p (start + 1)" by (simp add: advance.simps)
    have "sl ! slot sz p j \<noteq> []" if "start \<le> j" "j < advance sz sl p (start + 1)" for j
      using that True 1(1) [OF True] by (cases "j = start") auto
    with True 1(1) [OF True] step show ?thesis by auto
  next
    case False
    then have "advance sz sl p start = start" by (subst advance.simps) auto
    with False 1(2) show ?thesis by auto
  qed
qed

lemma free_update:
  assumes "i < length sl" "sl ! i = []" "h \<noteq> []"
  shows "free (sl[i := h]) + 1 = free sl"
proof -
  have "[] \<in> set sl" using assms(1,2) by (metis nth_mem)
  then have "0 < free sl" by (simp add: count_greater_zero_iff)
  then show ?thesis using assms by (simp add: mset_update)
qed

text \<open>
  The book-keeping of a pass: filled slots and missed turns are counted, hosts go into free slots
  only, and a pass with an unfinished permutation makes progress.
\<close>

definition pass_ok ::
    "nat \<Rightarrow> (nat \<times> string) list \<Rightarrow> permutation list \<Rightarrow> string list \<Rightarrow> nat \<Rightarrow> nat
     \<Rightarrow> permutation list \<Rightarrow> string list \<Rightarrow> nat \<Rightarrow> nat \<Rightarrow> bool" where
  "pass_ok sz bs ps sl full miss ps' sl' full' miss' \<longleftrightarrow>
     length sl' = length sl \<and> set sl' \<subseteq> set sl \<union> (host_at bs \<circ> p_index) ` set ps
     \<and> map p_index ps' = map p_index ps
     \<and> (\<forall>p \<in> set ps'. p_next p \<le> sz)
     \<and> full' + free sl' = full + free sl \<and> miss' + unfinished sz ps' = miss + unfinished sz ps
     \<and> full \<le> full' \<and> miss \<le> miss'
     \<and> (0 < unfinished sz ps \<longrightarrow> full + miss < full' + miss')"

lemma populate_pass_ok:
  assumes "0 < sz" "sz < 2 ^ 32" and "length sl = sz"
    and "\<And>p. p \<in> set ps \<Longrightarrow> p_next p \<le> sz \<and> host_at bs (p_index p) \<noteq> []"
    and "populate_pass sz bs ps sl full miss = (ps', sl', full', miss')"
  shows "pass_ok sz bs ps sl full miss ps' sl' full' miss'"
  using assms(3-)
proof (induction ps arbitrary: sl full miss ps')
  case Nil
  then show ?case by (simp add: pass_ok_def)
next
  case (Cons p ps)
  show ?case
  proof (cases "p_next p = sz")
    case True
    with Cons.prems(3) obtain qs where "ps' = p # qs"
        "populate_pass sz bs ps sl full miss = (qs, sl', full', miss')"
      by (auto split: prod.splits)
    with Cons.IH [OF Cons.prems(1) _ this(2)] Cons.prems(2) True show ?thesis
      by (auto simp: pass_ok_def)
  next
    case False
    define start where "start = advance sz sl p (p_next p)"
    have adv: "start \<le> sz" "start < sz \<longrightarrow> sl ! slot sz p start = []"
      using advance_spec [of "p_next p" sz sl p] Cons.prems(2) [of p] by (auto simp: start_def)
    show ?thesis
    proof (cases "start < sz")
      case True
      define sl1 where "sl1 = sl[slot sz p start := host_at bs (p_index p)]"
      obtain qs where qs: "ps' = p\<lparr>hit := hit p + 1, p_next := start\<rparr> # qs"
          "populate_pass sz bs ps sl1 (full + 1) miss = (qs, sl', full', miss')"
        using Cons.prems(3) False True by (auto simp: Let_def start_def [symmetric] sl1_def split: prod.splits)
      have "free sl1 + 1 = free sl" unfolding sl1_def
        by (rule free_update) (use adv True Cons.prems slot_less [OF assms(1,2)] in auto)
      moreover have "set sl1 \<subseteq> insert (host_at bs (p_index p)) (set sl)"
        unfolding sl1_def by (rule set_update_subset_insert)
      moreover have "pass_ok sz bs ps sl1 (full + 1) miss qs sl' full' miss'"
        by (rule Cons.IH) (use Cons.prems qs in \<open>auto simp: sl1_def\<close>)
      ultimately show ?thesis
        using True False by (auto simp: pass_ok_def qs(1) sl1_def)
    next
      case nofree: False
      with adv have "start = sz" by simp
      obtain qs where qs: "ps' = p\<lparr>p_next := start\<rparr> # qs"
          "populate_pass sz bs ps sl full (miss + 1) = (qs, sl', full', miss')"
        using Cons.prems(3) False nofree by (auto simp: Let_def start_def [symmetric] split: prod.splits)
      have "pass_ok sz bs ps sl full (miss + 1) qs sl' full' miss'"
        by (rule Cons.IH) (use Cons.prems qs in auto)
      with False \<open>start = sz\<close> show ?thesis by (auto simp: pass_ok_def qs(1))
    qed
  qed
qed

subsection \<open>The whole table\<close>

lemma populate_loop_returns:
  assumes "0 < sz" "sz < 2 ^ 32" and "length sl = sz"
    and "\<And>p. p \<in> set ps \<Longrightarrow> p_next p \<le> sz \<and> host_at bs (p_index p) \<noteq> []"
    and "full + free sl = sz" and "miss + unfinished sz ps = length ps" and "n = length ps"
  shows "\<exists>ps' sl' full' miss'. populate_loop sz n bs ps sl full miss = Some (ps', sl', full', miss')
    \<and> length sl' = sz \<and> set sl' \<subseteq> set sl \<union> (host_at bs \<circ> p_index) ` set ps
    \<and> map p_index ps' = map p_index ps \<and> full' + free sl' = sz
    \<and> (full' = sz \<or> miss' = n)"
  using assms(3-)
proof (induction "free sl + unfinished sz ps" arbitrary: sl ps full miss rule: less_induct)
  case less
  show ?case
  proof (cases "miss < n \<and> full < sz")
    case False
    then show ?thesis
      using less.prems by (subst populate_loop.simps) auto
  next
    case True
    obtain ps1 sl1 full1 miss1 where r: "populate_pass sz bs ps sl full miss = (ps1, sl1, full1, miss1)"
      by (metis prod_cases4)
    have ok: "pass_ok sz bs ps sl full miss ps1 sl1 full1 miss1"
      by (rule populate_pass_ok [OF assms(1,2)]) (use less.prems r in auto)
    have "0 < unfinished sz ps" using True less.prems(4,5) by linarith
    with ok have dec: "free sl1 + unfinished sz ps1 < free sl + unfinished sz ps"
      by (simp add: pass_ok_def)
    have idx: "p_index ` set ps1 = p_index ` set ps"
      using ok by (metis pass_ok_def set_map)
    then have h: "(host_at bs \<circ> p_index) ` set ps1 = (host_at bs \<circ> p_index) ` set ps"
      by (metis image_comp)
    have len: "length ps1 = length ps" using ok by (metis length_map pass_ok_def)
    have good: "p_next p \<le> sz \<and> host_at bs (p_index p) \<noteq> []" if "p \<in> set ps1" for p
    proof -
      from that idx obtain q where "q \<in> set ps" "p_index q = p_index p" by (metis imageE imageI)
      with less.prems(2) [of q] ok that show ?thesis by (auto simp: pass_ok_def)
    qed
    have "\<exists>ps' sl' full' miss'. populate_loop sz n bs ps1 sl1 full1 miss1 = Some (ps', sl', full', miss')
        \<and> length sl' = sz \<and> set sl' \<subseteq> set sl1 \<union> (host_at bs \<circ> p_index) ` set ps1
        \<and> map p_index ps' = map p_index ps1 \<and> full' + free sl' = sz \<and> (full' = sz \<or> miss' = n)"
      by (rule less.hyps [OF dec]) (use ok good less.prems len in \<open>simp_all add: pass_ok_def\<close>)
    then obtain ps' sl' full' miss' where
      loop: "populate_loop sz n bs ps1 sl1 full1 miss1 = Some (ps', sl', full', miss')"
      and post: "length sl' = sz" "set sl' \<subseteq> set sl1 \<union> (host_at bs \<circ> p_index) ` set ps1"
        "map p_index ps' = map p_index ps1" "full' + free sl' = sz" "full' = sz \<or> miss' = n"
      by blast
    have "populate_loop sz n bs ps sl full miss = Some (ps', sl', full', miss')"
      using True r loop by (subst populate_loop.simps) simp
    moreover have "set sl' \<subseteq> set sl \<union> (host_at bs \<circ> p_index) ` set ps"
      using post(2) ok h unfolding pass_ok_def by blast
    moreover have "map p_index ps' = map p_index ps" using post(3) ok by (simp add: pass_ok_def)
    ultimately show ?thesis using post(1,4,5) by blast
  qed
qed

lemma least_hit_member:
  "least_hit ps best = Some p \<Longrightarrow> p \<in> set ps \<or> best = Some p"
  "least_hit ps best = None \<longleftrightarrow> ps = [] \<and> best = None"
  by (induction ps best rule: least_hit.induct) (auto split: option.splits if_splits)

lemma free_zero: "free sl = 0 \<longleftrightarrow> [] \<notin> set sl"
  by (simp add: count_eq_zero_iff)

lemma populate_fills:
  assumes "0 < lt_size t" "lt_size t < 2 ^ 32" and "permutations t \<noteq> []"
    and "endpointNum t = length (permutations t)"
    and "\<And>p. p \<in> set (permutations t) \<Longrightarrow> p_next p = 0 \<and> host_at (buckets t) (p_index p) \<noteq> []"
  shows "\<exists>ps sl. populate t = Some (t\<lparr>permutations := ps, slots := sl\<rparr>)
    \<and> length sl = nat (lt_size t) \<and> set sl \<subseteq> (host_at (buckets t) \<circ> p_index) ` set (permutations t)
    \<and> map p_index ps = map p_index (permutations t)"
proof -
  let ?sz = "nat (lt_size t)" and ?H = "(host_at (buckets t) \<circ> p_index) ` set (permutations t)"
  have sz: "0 < ?sz" "?sz < 2 ^ 32" using assms(1,2) by auto
  have nz: "(of_int (lt_size t) :: 32 word) \<noteq> 0"
    using assms(1,2) by (simp add: word_of_int_eq_0_iff zdvd_not_zless)
  have "filter (\<lambda>p. p_next p \<noteq> ?sz) (permutations t) = permutations t"
    using assms(5) sz by (auto simp: filter_id_conv)
  with populate_loop_returns [OF sz, of "replicate ?sz []" "permutations t" "buckets t" 0 0 "endpointNum t"]
    assms(4,5) sz
  obtain ps sl full miss where loop:
      "populate_loop ?sz (endpointNum t) (buckets t) (permutations t) (replicate ?sz []) 0 0 = Some (ps, sl, full, miss)"
    and post: "length sl = ?sz" "set sl \<subseteq> insert [] ?H" "map p_index ps = map p_index (permutations t)"
      "full + free sl = ?sz" "full = ?sz \<or> miss = endpointNum t"
    by auto
  let ?t = "t\<lparr>permutations := ps, slots := sl\<rparr>"
  have pop: "populate t = (if full \<noteq> ?sz \<and> miss > 0 then fillMissingSlots ?t else Some ?t)"
    using assms(1,2) nz loop by (simp add: populate_def Let_def)
  show ?thesis
  proof (cases "full = ?sz")
    case True
    then have "free sl = 0" using post(4) by linarith
    then have "[] \<notin> set sl" unfolding free_zero .
    then have "set sl \<subseteq> ?H" using post(2) by blast
    moreover have "populate t = Some ?t" using pop True by simp
    ultimately show ?thesis using post(1,3) by blast
  next
    case False
    have "ps \<noteq> []" using post(3) assms(3) by (metis Nil_is_map_conv)
    then obtain m where m: "least_hit ps None = Some m" "m \<in> set ps"
      using least_hit_member [of ps None] by fastforce
    then have "p_index m \<in> p_index ` set (permutations t)" using post(3) by (metis image_eqI set_map)
    then have h: "host_at (buckets t) (p_index m) \<in> ?H" by (auto simp: image_iff)
    have "miss > 0" using False post(5) assms(3,4) by simp
    let ?sl = "map (\<lambda>s. if s = [] then host_at (buckets t) (p_index m) else s) sl"
    have "populate t = fillMissingSlots ?t" using pop False \<open>miss > 0\<close> by simp
    moreover define ps' where "ps' = map (\<lambda>p. if p_index p = p_index m
      then p\<lparr>hit := hit p + length (filter (\<lambda>s. s = []) sl)\<rparr> else p) ps"
    moreover have "fillMissingSlots ?t = Some (t\<lparr>permutations := ps', slots := ?sl\<rparr>)"
      using m(1) by (cases t) (simp add: fillMissingSlots_def ps'_def)
    moreover have "map p_index ps' = map p_index ps" by (simp add: ps'_def comp_def)
    moreover have "set ?sl \<subseteq> ?H" using post(2) h by auto
    ultimately show ?thesis using post(1,3) by (intro exI [of _ ps'] exI [of _ ?sl]) simp
  qed
qed

subsection \<open>Well-formed tables\<close>

definition hosts_of :: "LookUpTable \<Rightarrow> string set" where
  "hosts_of t = snd ` set (buckets t)"

definition table_wf :: "LookUpTable \<Rightarrow> bool" where
  "table_wf t \<longleftrightarrow>
     2 \<le> lt_size t \<and> lt_size t < 2 ^ 32
     \<and> distinct (map fst (buckets t)) \<and> [] \<notin> hosts_of t
     \<and> endpointNum t = length (buckets t)
     \<and> mset (map p_index (permutations t)) = mset (map fst (buckets t))
     \<and> length (slots t) = nat (lt_size t)
     \<and> set (slots t) \<subseteq> (if buckets t = [] then {[]} else hosts_of t)"

lemma populate_wf:
  assumes "2 \<le> lt_size t" "lt_size t < 2 ^ 32" and "distinct (map fst (buckets t))" and "[] \<notin> hosts_of t"
    and "endpointNum t = length (buckets t)"
    and "mset (map p_index (permutations t)) = mset (map fst (buckets t))"
    and "\<And>p. p \<in> set (permutations t) \<Longrightarrow> p_next p = 0"
  shows "\<exists>t'. populate t = Some t' \<and> table_wf t' \<and> buckets t' = buckets t"
proof (cases "buckets t = []")
  case True
  with assms(5,6) have "endpointNum t = 0" "permutations t = []" by auto
  then have "populate t = Some (t\<lparr>slots := replicate (nat (lt_size t)) []\<rparr>)"
    using assms(1) by (simp add: populate_def populate_loop.simps Let_def)
  then show ?thesis
    using assms True by (auto simp: table_wf_def hosts_of_def)
next
  case False
  have len: "length (permutations t) = length (buckets t)"
    using assms(6) by (metis length_map size_mset)
  have idx: "p_index ` set (permutations t) = fst ` set (buckets t)"
    using assms(6) by (metis set_map set_mset_mset)
  have host: "host_at (buckets t) i \<in> hosts_of t" if "i \<in> fst ` set (buckets t)" for i
    using that by (force simp: host_at_def hosts_of_def assms(3) split: option.split dest: map_of_SomeD)
  have good: "p_next p = 0 \<and> host_at (buckets t) (p_index p) \<noteq> []" if "p \<in> set (permutations t)" for p
    using that assms(4,7) host [of "p_index p"] idx by (metis imageI)
  have "0 < lt_size t" "permutations t \<noteq> []" using assms(1) False len by auto
  from populate_fills [OF this(1) assms(2) this(2) _ good] len assms(5)
  obtain ps sl where r: "populate t = Some (t\<lparr>permutations := ps, slots := sl\<rparr>)"
    "length sl = nat (lt_size t)" "set sl \<subseteq> (host_at (buckets t) \<circ> p_index) ` set (permutations t)"
    "map p_index ps = map p_index (permutations t)" by auto
  have "mset (map p_index ps) = mset (map fst (buckets t))" unfolding r(4) by (rule assms(6))
  moreover have "set sl \<subseteq> hosts_of t"
  proof
    fix s assume "s \<in> set sl"
    with r(3) obtain p where p: "p \<in> set (permutations t)" "s = host_at (buckets t) (p_index p)" by auto
    then have "p_index p \<in> fst ` set (buckets t)" unfolding idx [symmetric] by simp
    then show "s \<in> hosts_of t" unfolding p(2) by (rule host)
  qed
  ultimately show ?thesis
    using r(1,2) assms False by (auto simp: table_wf_def hosts_of_def)
qed

lemma generatePerm_Some:
  assumes "2 \<le> lt_size t" "lt_size t < 2 ^ 32"
  shows "\<exists>p. generatePerm blake2b b i t = Some (t\<lparr>permutations := permutations t @ [p]\<rparr>)
    \<and> p_next p = 0 \<and> p_index p = i \<and> hit p = 0
    \<and> offset p = sha3_512_first b mod of_int (lt_size t)
    \<and> skip p = blake2b b mod (of_int (lt_size t) - 1) + 1"
proof -
  have "(of_int (lt_size t) :: 32 word) \<noteq> 0"
    using assms by (simp add: word_of_int_eq_0_iff zdvd_not_zless)
  moreover have "(of_int (lt_size t) :: 32 word) - 1 \<noteq> 0"
  proof -
    have "(of_int (lt_size t - 1) :: 32 word) \<noteq> 0"
      using assms by (simp only: word_of_int_eq_0_iff) (simp add: zdvd_not_zless)
    then show ?thesis by simp
  qed
  ultimately show ?thesis
    by (intro exI [of _ "\<lparr>offset = sha3_512_first b mod of_int (lt_size t),
        skip = blake2b b mod (of_int (lt_size t) - 1) + 1, p_next = 0, p_index = i, hit = 0\<rparr>"])
      (simp add: generatePerm_def Let_def)
qed

definition fresh_perm :: "(string \<Rightarrow> 32 word) \<Rightarrow> int \<Rightarrow> permutation \<Rightarrow> bool" where
  "fresh_perm blake2b sz p \<longleftrightarrow> p_next p = 0 \<and> hit p = 0
     \<and> (\<exists>b. offset p = sha3_512_first b mod of_int sz \<and> skip p = blake2b b mod (of_int sz - 1) + 1)"

lemma generatePerms_loop_Some:
  assumes "2 \<le> lt_size t" "lt_size t < 2 ^ 32"
  shows "\<exists>ps. generatePerms_loop blake2b order t = Some (t\<lparr>permutations := permutations t @ ps\<rparr>)
    \<and> map p_index ps = map fst order \<and> (\<forall>p \<in> set ps. fresh_perm blake2b (lt_size t) p)"
  using assms
proof (induction order arbitrary: t)
  case Nil
  then show ?case by simp
next
  case (Cons ib order)
  obtain i b where ib: "ib = (i, b)" by fastforce
  obtain p where p: "generatePerm blake2b b i t = Some (t\<lparr>permutations := permutations t @ [p]\<rparr>)"
      "fresh_perm blake2b (lt_size t) p" "p_index p = i"
    using generatePerm_Some [OF Cons.prems, of blake2b b i] unfolding fresh_perm_def by blast
  obtain ps where "generatePerms_loop blake2b order (t\<lparr>permutations := permutations t @ [p]\<rparr>) =
      Some (t\<lparr>permutations := (permutations t @ [p]) @ ps\<rparr>)"
      "map p_index ps = map fst order" "\<forall>p \<in> set ps. fresh_perm blake2b (lt_size t) p"
    using Cons.IH [of "t\<lparr>permutations := permutations t @ [p]\<rparr>"] Cons.prems by auto
  with p show ?case by (intro exI [of _ "p # ps"]) (simp add: ib)
qed

lemma generatePerms_Some:
  assumes "2 \<le> lt_size t" "lt_size t < 2 ^ 32"
  shows "\<exists>ps. generatePerms blake2b order t = Some (t\<lparr>permutations := ps\<rparr>)
    \<and> map p_index ps = map fst order \<and> (\<forall>p \<in> set ps. fresh_perm blake2b (lt_size t) p)"
  using generatePerms_loop_Some [of "t\<lparr>permutations := []\<rparr>" blake2b order] assms
  by (auto simp: generatePerms_def)

lemma NewLookUpTable_size:
  assumes "NewLookUpTable n hosts = Inr t" and "n = 0 \<or> 2 \<le> n \<and> n < 2 ^ 32"
  shows "2 \<le> lt_size t \<and> lt_size t < 2 ^ 32"
proof (cases "n = 0")
  case True
  show ?thesis
  proof (cases "find (\<lambda>sz. int (length hosts) * 100 < sz) defaultTableSize")
    case None
    have "(999983 :: int) \<in> set defaultTableSize" by (simp add: defaultTableSize_def)
    with None have "999983 \<le> int (length hosts) * 100" unfolding find_None_iff by fastforce
    with assms True None show ?thesis
      by (simp add: NewLookUpTable_def Let_def is_prime_def split: if_splits)
  next
    case (Some sz)
    then have "sz \<in> set defaultTableSize" by (metis find_Some_iff nth_mem)
    then have "2 \<le> sz \<and> sz < 2 ^ 32" by (auto simp: defaultTableSize_def)
    with assms True Some show ?thesis
      by (auto simp: NewLookUpTable_def Let_def split: if_splits)
  qed
next
  case False
  with assms show ?thesis by (auto simp: NewLookUpTable_def Let_def split: if_splits)
qed

lemma NewLookUpTable_buckets:
  assumes "NewLookUpTable n hosts = Inr t"
  shows "buckets t = enumerate 0 hosts" "endpointNum t = length hosts" "slots t = []"
  using assms by (auto simp: NewLookUpTable_def Let_def split: if_splits)

lemma snd_enumerate [simp]: "snd ` set (enumerate n xs) = set xs"
  by (metis list.set_map map_snd_enumerate)

lemma table_populates:
  assumes "NewLookUpTable n hosts = Inr t" and "n = 0 \<or> 2 \<le> n \<and> n < 2 ^ 32"
    and "'''' \<notin> set hosts" and "mset order = mset (buckets t)"
  shows "\<exists>t'. Populate blake2b order t = Some t' \<and> table_wf t' \<and> hosts_of t' = set hosts"
proof -
  note t = NewLookUpTable_buckets [OF assms(1)]
  have sz: "2 \<le> lt_size t" "lt_size t < 2 ^ 32" using NewLookUpTable_size [OF assms(1,2)] by auto
  obtain ps where ps: "generatePerms blake2b order t = Some (t\<lparr>permutations := ps\<rparr>)"
      "map p_index ps = map fst order" "\<forall>p \<in> set ps. fresh_perm blake2b (lt_size t) p"
    using generatePerms_Some [OF sz] by blast
  let ?t = "t\<lparr>permutations := ps\<rparr>"
  have "mset (map p_index ps) = mset (map fst (buckets t))"
    unfolding ps(2) mset_map assms(4) by (rule refl)
  then have idx: "mset (map p_index (permutations ?t)) = mset (map fst (buckets ?t))" by simp
  have "\<exists>t'. populate ?t = Some t' \<and> table_wf t' \<and> buckets t' = buckets ?t"
    by (rule populate_wf [OF _ _ _ _ _ idx])
      (use sz ps(3) assms(3) t in \<open>simp_all add: hosts_of_def fresh_perm_def\<close>)
  then obtain t' where "populate ?t = Some t'" "table_wf t'" "buckets t' = buckets t" by auto
  with ps(1) t show ?thesis by (simp add: Populate_def hosts_of_def)
qed

text \<open>
  C32: a Maglev table is filled. For every table size that is accepted (the default, or from 2 to
  2^32 - 1) and whatever the hash functions and the iteration order of the map of hosts, filling the
  table ends, and in the filled table every slot holds one of the hosts (or no host, when there are
  none).
\<close>

theorem maglev_populates:
  assumes "NewLookUpTable n hosts = Inr t" and "n = 0 \<or> 2 \<le> n \<and> n < 2 ^ 32"
    and "'''' \<notin> set hosts" and "mset order = mset (buckets t)"
  shows "\<exists>t'. Populate blake2b order t = Some t' \<and> table_wf t' \<and> hosts_of t' = set hosts"
  using assms by (rule table_populates)

subsection \<open>Lookups and changes\<close>

lemma table_Get_wf:
  assumes "table_wf t"
  shows "if buckets t = [] then table_Get xxhash key t = Inl ''no host added''
    else \<exists>h \<in> hosts_of t. table_Get xxhash key t = Inr h"
proof -
  let ?i = "unat (requestHash xxhash key mod (of_int (lt_size t) :: 32 word))"
  have sz: "2 \<le> lt_size t" "lt_size t < 2 ^ 32" using assms by (auto simp: table_wf_def)
  then have "unat (of_int (lt_size t) :: 32 word) = nat (lt_size t)"
    by (intro unat_size_int) simp_all
  with sz have "?i < length (slots t)" using assms by (simp add: unat_mod table_wf_def)
  then have "slots t ! ?i \<in> set (slots t)" "slots t \<noteq> []" by auto
  with assms sz show ?thesis by (auto simp: table_Get_def table_wf_def)
qed

lemma fold_max_ge: "x \<in> set xs \<Longrightarrow> x \<le> fold max xs (n :: nat)"
  using Max_ge [of "set (n # xs)" x] unfolding Max.set_eq_fold by simp

lemma table_Add_wf:
  assumes wf: "table_wf t" and "host \<noteq> []"
  shows "\<exists>t'. table_Add blake2b host t = Some t' \<and> table_wf t' \<and> hosts_of t' = insert host (hosts_of t)"
proof (cases "host \<in> snd ` set (buckets t)")
  case True
  with wf show ?thesis by (auto simp: table_Add_def hosts_of_def insert_absorb)
next
  case False
  define dst where "dst = fold max (map fst (buckets t)) 0"
  define t1 where "t1 = resetPerms (t\<lparr>buckets := buckets t @ [(dst + 1, host)], endpointNum := endpointNum t + 1\<rparr>)"
  have fresh: "dst + 1 \<notin> fst ` set (buckets t)"
  proof
    assume "dst + 1 \<in> fst ` set (buckets t)"
    then have "dst + 1 \<le> dst" using fold_max_ge [of "dst + 1" "map fst (buckets t)" 0] by (simp add: dst_def)
    then show False by simp
  qed
  have t1: "lt_size t1 = lt_size t" "buckets t1 = buckets t @ [(dst + 1, host)]"
    "endpointNum t1 = endpointNum t + 1" "map p_index (permutations t1) = map p_index (permutations t)"
    "\<forall>p \<in> set (permutations t1). p_next p = 0"
    by (auto simp: t1_def resetPerms_def comp_def)
  have "2 \<le> lt_size t1" "lt_size t1 < 2 ^ 32" using wf t1 by (auto simp: table_wf_def)
  from generatePerm_Some [OF this, of blake2b host "dst + 1"] obtain p
    where p: "generatePerm blake2b host (dst + 1) t1 = Some (t1\<lparr>permutations := permutations t1 @ [p]\<rparr>)"
      "p_next p = 0" "p_index p = dst + 1" by blast
  let ?t2 = "t1\<lparr>permutations := permutations t1 @ [p]\<rparr>"
  have idx: "mset (map p_index (permutations ?t2)) = mset (map fst (buckets ?t2))"
    using wf t1(2,4) p(3) by (simp add: table_wf_def del: mset_map) 
  have "\<exists>t'. populate ?t2 = Some t' \<and> table_wf t' \<and> buckets t' = buckets ?t2"
    by (rule populate_wf [OF _ _ _ _ _ idx])
      (use wf t1 p fresh assms(2) in \<open>auto simp: table_wf_def hosts_of_def\<close>)
  then obtain t' where "populate ?t2 = Some t'" "table_wf t'" "buckets t' = buckets t @ [(dst + 1, host)]"
    by (auto simp: t1(2))
  moreover have "table_Add blake2b host t = Option.bind (generatePerm blake2b host (dst + 1) t1) populate"
    using False by (simp add: table_Add_def Let_def dst_def t1_def)
  ultimately show ?thesis using p(1) by (simp add: hosts_of_def)
qed

lemma mset_remove_first:
  "(\<exists>x \<in> set xs. P x) \<Longrightarrow> (\<And>x y. P x \<Longrightarrow> P y \<Longrightarrow> f x = f y) \<Longrightarrow> P z \<Longrightarrow>
     mset (map f (remove_first P xs)) = mset (map f xs) - {#f z#}"
proof (induction xs)
  case Nil
  from Nil(1) show ?case by simp
next
  case (Cons a xs)
  show ?case
  proof (cases "P a")
    case True
    then have "f a = f z" using Cons.prems(2,3) by blast
    with True show ?thesis by simp
  next
    case False
    then have IH: "mset (map f (remove_first P xs)) = mset (map f xs) - {#f z#}"
      using Cons.IH [OF _ Cons.prems(2,3)] Cons.prems(1) False by simp
    obtain x where "x \<in> set xs" "P x" using Cons.prems(1) False by auto
    then have "f z \<in> f ` set xs" using Cons.prems(2) [of z x] Cons.prems(3) by simp
    then have "f z \<in># mset (map f xs)" by simp
    with False IH show ?thesis by simp
  qed
qed

lemma mset_removeAll_distinct: "distinct xs \<Longrightarrow> mset (removeAll x xs) = mset xs - {#x#}"
  by (metis distinct_remove1_removeAll mset_remove1)

lemma table_Remove_wf:
  assumes wf: "table_wf t" and order: "mset order = mset (buckets t)"
  shows "\<exists>r t'. table_Remove order host t = Some (r, t') \<and> table_wf t'
    \<and> (r \<longleftrightarrow> host \<in> hosts_of t)
    \<and> (distinct (map snd (buckets t)) \<longrightarrow> hosts_of t' = hosts_of t - {host})"
proof (cases "find (\<lambda>(i, b). b = host) order")
  case None
  then have "host \<notin> snd ` set order" by (force simp: find_None_iff)
  then have "host \<notin> hosts_of t" using order by (metis hosts_of_def set_mset_mset)
  with wf None show ?thesis by (auto simp: table_Remove_def)
next
  case (Some ib)
  obtain i b where ib: "ib = (i, b)" by fastforce
  have mem: "b = host" "(i, host) \<in> set (buckets t)"
    using Some ib order by (auto simp: find_Some_iff) (metis nth_mem set_mset_mset)+
  then have n: "endpointNum t \<noteq> 0" using wf by (auto simp: table_wf_def)
  define t1 where "t1 = resetPerms (removePerm i (t\<lparr>buckets := AList.delete i (buckets t), endpointNum := endpointNum t - 1\<rparr>))"
  have t1: "lt_size t1 = lt_size t" "buckets t1 = AList.delete i (buckets t)" "endpointNum t1 = endpointNum t - 1"
    "map p_index (permutations t1) = map p_index (remove_first (\<lambda>p. p_index p = i) (permutations t))"
    "\<forall>p \<in> set (permutations t1). p_next p = 0"
    by (auto simp: t1_def resetPerms_def removePerm_def comp_def)
  have d: "distinct (map fst (buckets t))" using wf by (simp add: table_wf_def)
  have keys: "map fst (buckets t1) = removeAll i (map fst (buckets t))"
    by (simp add: t1(2) delete_keys)
  have sub: "set (buckets t1) = set (buckets t) - {(i, host)}"
    using d mem(2) by (auto simp: t1(2) AList.delete_eq dest: map_of_is_SomeI [OF d])
  have perms: "mset (map p_index (permutations t)) = mset (map fst (buckets t))"
    using wf by (simp add: table_wf_def)
  have "i \<in> set (map fst (buckets t))" using mem(2) by (force simp: image_iff)
  then have "i \<in> set (map p_index (permutations t))" using mset_eq_setD [OF perms] by simp
  then obtain p where p: "p \<in> set (permutations t)" "p_index p = i" by auto
  have idx: "mset (map p_index (permutations t1)) = mset (map fst (buckets t1))"
  proof -
    have "mset (map p_index (permutations t1)) = mset (map p_index (permutations t)) - {#i#}"
      unfolding t1(4) using mset_remove_first [of "permutations t" "\<lambda>p. p_index p = i" p_index p] p by auto
    then show ?thesis unfolding keys mset_removeAll_distinct [OF d] perms .
  qed
  have "length (map fst (buckets t1)) = length (buckets t) - 1"
    unfolding keys using d mem(2)
    by (metis distinct_remove1_removeAll fst_conv image_eqI length_map length_remove1 set_map)
  then have len: "endpointNum t1 = length (buckets t1)" using wf t1(3) by (simp add: table_wf_def)
  have "\<exists>t'. populate t1 = Some t' \<and> table_wf t' \<and> buckets t' = buckets t1"
    by (rule populate_wf [OF _ _ _ _ len idx])
      (use wf t1(1,5) keys sub d in \<open>auto simp: table_wf_def hosts_of_def distinct_removeAll\<close>)
  then obtain t' where "populate t1 = Some t'" "table_wf t'" "buckets t' = buckets t1" by blast
  moreover have "table_Remove order host t = map_option (Pair True) (populate t1)"
    using Some n by (simp add: table_Remove_def ib t1_def Let_def)
  moreover have "hosts_of t1 = hosts_of t - {host}" if "distinct (map snd (buckets t))"
    using inj_on_image_set_diff [of snd "set (buckets t)" "set (buckets t)" "{(i, host)}"] that mem(2)
    by (simp add: hosts_of_def sub distinct_map)
  moreover have "host \<in> hosts_of t" using mem(2) by (force simp: hosts_of_def)
  ultimately show ?thesis by (auto simp: hosts_of_def)
qed


subsection \<open>Fairness\<close>

text \<open>A permutation that visits every slot.\<close>

definition perfect :: "nat \<Rightarrow> permutation \<Rightarrow> bool" where
  "perfect sz p \<longleftrightarrow> inj_on (slot sz p) {..<sz}"

lemma coprime_prime:
  assumes "is_prime m" and "0 < s" "s < m"
  shows "coprime s m"
proof -
  have "gcd s m = 1"
  proof (rule ccontr)
    assume ne: "gcd s m \<noteq> 1"
    have "0 < gcd s m" using assms(2) by simp
    with ne have "2 \<le> gcd s m" by linarith
    moreover have "gcd s m < m" by (rule le_less_trans [OF dvd_imp_le [OF gcd_dvd1 assms(2)] assms(3)])
    ultimately have "gcd s m \<in> {2..<m}" unfolding atLeastLessThan_iff by (rule conjI)
    moreover have "gcd s m dvd m" by (rule gcd_dvd2)
    ultimately show False using assms(1) unfolding is_prime_def by blast
  qed
  then show ?thesis by (simp add: coprime_iff_gcd_eq_1)
qed

lemma mod_step_inj:
  assumes "coprime s (m :: nat)" and "(b + j * s) mod m = (b + k * s) mod m" and "j < m" "k < m"
  shows "j = k"
proof -
  have *: "j = k" if "(b + j * s) mod m = (b + k * s) mod m" "j \<le> k" "k < m" for j k
  proof -
    have "m dvd (b + k * s) - (b + j * s)" using that(1) by (metis mod_eq_dvd_iff_nat add_le_mono1
        mult_le_mono1 that(2) add.commute)
    also have "(b + k * s) - (b + j * s) = (k - j) * s" by (simp add: diff_mult_distrib)
    finally have "m dvd k - j" using assms(1) by (metis coprime_commute coprime_dvd_mult_left_iff)
    then show ?thesis using that(2,3) by (metis diff_is_0_eq dvd_imp_le le_antisym less_imp_diff_less not_le zero_less_diff)
  qed
  from * [of j k] * [of k j] assms(2-4) show ?thesis by (metis nat_le_linear)
qed

lemma perfect_prime:
  assumes "is_prime sz" "sz \<le> 65536" and "unat (offset p) < sz" and "0 < unat (skip p)" "unat (skip p) < sz"
  shows "perfect sz p"
proof -
  have eq: "slot sz p j = (unat (offset p) + j * unat (skip p)) mod sz" if "j < sz" for j
  proof -
    have "j * unat (skip p) \<le> (sz - 1) * (sz - 1)" using that assms(5) by (intro mult_le_mono) auto
    moreover have "(sz - 1) * (sz - 1) \<le> 65535 * 65535" using assms(2) by (intro mult_le_mono) auto
    ultimately have small: "unat (offset p) + j * unat (skip p) < 2 ^ 32" using assms(2,3) by simp
    have "offset p + of_nat j * skip p = (of_nat (unat (offset p) + j * unat (skip p)) :: 32 word)" by simp
    then have "unat (offset p + of_nat j * skip p) = unat (offset p) + j * unat (skip p)"
      using unat_size [OF small] by (simp only:)
    moreover have "unat (of_nat sz :: 32 word) = sz" using assms(2) by (intro unat_size) simp
    ultimately show ?thesis by (simp add: position_def unat_mod)
  qed
  have "coprime (unat (skip p)) sz" by (rule coprime_prime [OF assms(1,4,5)])
  then show ?thesis
    unfolding perfect_def by (auto intro!: inj_onI simp: eq intro: mod_step_inj)
qed

lemma perfect_finds:
  assumes "perfect sz p" "0 < sz" "sz < 2 ^ 32" and "length sl = sz" and "0 < free sl"
    and "\<And>j. j < p_next p \<Longrightarrow> sl ! slot sz p j \<noteq> []" and "p_next p \<le> sz"
  shows "p_next p < sz \<and> advance sz sl p (p_next p) < sz"
proof -
  have surj: "slot sz p ` {..<sz} = {..<sz}"
    using assms(1-3) slot_less [of sz _ p] by (intro endo_inj_surj) (auto simp: perfect_def)
  have "[] \<in> set sl" using assms(5) free_zero [of sl] by simp
  then obtain i where i: "i < sz" "sl ! i = []" using assms(4) by (auto simp: in_set_conv_nth)
  then have "i \<in> slot sz p ` {..<sz}" unfolding surj by simp
  with i(2) obtain j where j: "j < sz" "sl ! slot sz p j = []" by blast
  have le: "p_next p \<le> j"
  proof (rule ccontr)
    assume "\<not> p_next p \<le> j"
    then show False using assms(6) [of j] j(2) by simp
  qed
  have "\<not> j < advance sz sl p (p_next p)" using advance_spec [OF assms(7), of sl p] le j(2) by blast
  with le j(1) show ?thesis by simp
qed

text \<open>Filled slots and hits of each host agree over a pass.\<close>

abbreviation hits :: "(nat \<times> string) list \<Rightarrow> string \<Rightarrow> permutation list \<Rightarrow> nat" where
  "hits bs h ps \<equiv> sum_list (map hit (filter (\<lambda>p. host_at bs (p_index p) = h) ps))"

text \<open>
  A permutation is on track in a table when everything before its next position is filled. While
  all are perfect and on track, every turn fills a slot until none is free.
\<close>

definition on_track :: "nat \<Rightarrow> string list \<Rightarrow> permutation \<Rightarrow> bool" where
  "on_track sz sl p \<longleftrightarrow> perfect sz p \<and> p_next p \<le> sz \<and> (\<forall>j < p_next p. sl ! slot sz p j \<noteq> [])"

lemma on_track_update:
  assumes "on_track sz sl p" "h \<noteq> []"
  shows "on_track sz (sl[i := h]) p"
proof -
  have "sl[i := h] ! j \<noteq> []" if "sl ! j \<noteq> []" for j
    using that assms(2) by (cases "i = j"; cases "j < length sl") (auto simp: nth_list_update list_update_beyond)
  with assms(1) show ?thesis by (simp add: on_track_def)
qed

definition fair_pass ::
    "nat \<Rightarrow> (nat \<times> string) list \<Rightarrow> permutation list \<Rightarrow> string list \<Rightarrow> nat \<Rightarrow> nat
     \<Rightarrow> permutation list \<Rightarrow> string list \<Rightarrow> nat \<Rightarrow> nat \<Rightarrow> bool" where
  "fair_pass sz bs ps sl full miss ps' sl' full' miss' \<longleftrightarrow>
     full' = full + min (free sl) (length ps) \<and> miss' \<le> miss + (length ps - free sl)
     \<and> free sl' = free sl - length ps
     \<and> map hit ps' = map (\<lambda>p. hit p + 1) (take (free sl) ps) @ map hit (drop (free sl) ps)
     \<and> (\<forall>p \<in> set ps'. on_track sz sl' p)
     \<and> (\<forall>p. on_track sz sl p \<longrightarrow> on_track sz sl' p)
     \<and> (\<forall>h. h \<noteq> [] \<longrightarrow> count (mset sl') h + hits bs h ps = count (mset sl) h + hits bs h ps')"

lemma perfect_cong: "offset p = offset q \<Longrightarrow> skip p = skip q \<Longrightarrow> perfect sz p = perfect sz q"
  by (simp add: perfect_def position_def)

lemma slot_cong: "offset p = offset q \<Longrightarrow> skip p = skip q \<Longrightarrow> slot sz p j = slot sz q j"
  by (simp add: position_def)

lemma count_update:
  assumes "i < length sl" "sl ! i = []" "x \<noteq> []" "h \<noteq> []"
  shows "count (mset (sl[i := x])) h = count (mset sl) h + (if h = x then 1 else 0)"
  using assms by (auto simp: mset_update)

lemma populate_pass_fair:
  assumes "0 < sz" "sz < 2 ^ 32" and "length sl = sz"
    and "\<And>p. p \<in> set ps \<Longrightarrow> on_track sz sl p \<and> host_at bs (p_index p) \<noteq> []"
    and "populate_pass sz bs ps sl full miss = (ps', sl', full', miss')"
  shows "fair_pass sz bs ps sl full miss ps' sl' full' miss'"
  using assms(3-)
proof (induction ps arbitrary: sl full miss ps')
  case Nil
  then show ?case by (simp add: fair_pass_def)
next
  case (Cons p ps)
  define start where "start = advance sz sl p (p_next p)"
  have p: "on_track sz sl p" "host_at bs (p_index p) \<noteq> []" using Cons.prems(2) by auto
  have adv: "p_next p \<le> start" "start \<le> sz" "start < sz \<longrightarrow> sl ! slot sz p start = []"
      "\<forall>j. p_next p \<le> j \<and> j < start \<longrightarrow> sl ! slot sz p j \<noteq> []"
    using advance_spec [of "p_next p" sz sl p] p(1) by (auto simp: start_def on_track_def)
  have filled: "sl ! slot sz p j \<noteq> []" if "j < start" for j
    using that adv(4) p(1) by (cases "j < p_next p") (auto simp: on_track_def)
  show ?case
  proof (cases "0 < free sl")
    case True
    then have lt: "p_next p < sz" "start < sz"
      using perfect_finds [of sz p sl] assms(1,2) Cons.prems(1) p(1) by (auto simp: start_def on_track_def)
    define sl1 where "sl1 = sl[slot sz p start := host_at bs (p_index p)]"
    obtain qs where qs: "ps' = p\<lparr>hit := hit p + 1, p_next := start\<rparr> # qs"
        "populate_pass sz bs ps sl1 (full + 1) miss = (qs, sl', full', miss')"
      using Cons.prems(3) lt by (auto simp: Let_def start_def [symmetric] sl1_def split: prod.splits)
    have pos: "slot sz p start < length sl" using slot_less [OF assms(1,2)] Cons.prems(1) by simp
    have free1: "free sl1 + 1 = free sl" unfolding sl1_def
      by (rule free_update) (use adv lt p pos in auto)
    have cnt: "count (mset sl1) h = count (mset sl) h + (if h = host_at bs (p_index p) then 1 else 0)"
      if "h \<noteq> []" for h
      unfolding sl1_def using count_update [OF pos _ p(2) that] adv(3) lt(2) by simp
    have track: "on_track sz sl1 q" if "on_track sz sl q" for q
      unfolding sl1_def using that p(2) by (rule on_track_update)
    have fair: "fair_pass sz bs ps sl1 (full + 1) miss qs sl' full' miss'"
      by (rule Cons.IH) (use Cons.prems qs track in \<open>auto simp: sl1_def\<close>)
    have "on_track sz sl (p\<lparr>hit := hit p + 1, p_next := start\<rparr>)"
      using p(1) filled adv(2) perfect_cong [of "p\<lparr>hit := hit p + 1, p_next := start\<rparr>" p sz]
      by (simp add: on_track_def position_def)
    with track have new: "on_track sz sl' (p\<lparr>hit := hit p + 1, p_next := start\<rparr>)"
      using fair by (simp add: fair_pass_def)
    obtain f where f: "free sl = Suc f" "free sl1 = f" using free1 by simp
    show ?thesis
      unfolding fair_pass_def qs(1)
      using fair new track cnt by (auto simp: fair_pass_def f)
  next
    case False
    then have "[] \<notin> set sl" using free_zero [of sl] by simp
    have f0: "free sl = 0" using False by linarith
    from \<open>[] \<notin> set sl\<close> have none: "\<not> start < sz"
      using adv(3) slot_less [OF assms(1,2)] Cons.prems(1) by (metis nth_mem)
    show ?thesis
    proof (cases "p_next p = sz")
      case True
      with Cons.prems(3) obtain qs where qs: "ps' = p # qs"
          "populate_pass sz bs ps sl full miss = (qs, sl', full', miss')"
        by (auto split: prod.splits)
      have "fair_pass sz bs ps sl full miss qs sl' full' miss'"
        by (rule Cons.IH) (use Cons.prems qs in auto)
      with p(1) show ?thesis unfolding fair_pass_def qs(1) f0 by auto
    next
      case unf: False
      obtain qs where qs: "ps' = p\<lparr>p_next := start\<rparr> # qs"
          "populate_pass sz bs ps sl full (miss + 1) = (qs, sl', full', miss')"
        using Cons.prems(3) unf none by (auto simp: Let_def start_def [symmetric] split: prod.splits)
      have fair: "fair_pass sz bs ps sl full (miss + 1) qs sl' full' miss'"
        by (rule Cons.IH) (use Cons.prems qs in auto)
      have "on_track sz sl (p\<lparr>p_next := start\<rparr>)"
        using p(1) filled adv(2) perfect_cong [of "p\<lparr>p_next := start\<rparr>" p sz]
        by (simp add: on_track_def position_def)
      with fair show ?thesis unfolding fair_pass_def qs(1) f0 by auto
    qed
  qed
qed

lemma populate_loop_fair:
  assumes sz: "0 < sz" "sz < 2 ^ 32" and n: "n = length ps" "0 < n"
    and "length sl = sz" and "\<And>p. p \<in> set ps \<Longrightarrow> on_track sz sl p \<and> host_at bs (p_index p) \<noteq> []"
    and "full + free sl = sz" and "full = r * n" and "map hit ps = replicate n r"
    and "\<And>h. h \<noteq> [] \<Longrightarrow> count (mset sl) h = hits bs h ps"
    and "populate_loop sz n bs ps sl full 0 = Some (ps', sl', full', miss')"
  shows "full' = sz \<and> map p_index ps' = map p_index ps
    \<and> (\<forall>p \<in> set ps'. hit p = sz div n \<or> hit p = sz div n + 1)
    \<and> (\<forall>h. h \<noteq> [] \<longrightarrow> count (mset sl') h = hits bs h ps')"
  using n(1) assms(5-)
proof (induction "free sl" arbitrary: sl ps full r rule: less_induct)
  case less
  show ?case
  proof (cases "free sl = 0")
    case True
    then have "full = sz" using less.prems(4) by linarith
    with less.prems(5,6,8) n(2) True have "ps' = ps" "sl' = sl" "full' = sz" "sz div n = r"
      by (auto simp: populate_loop.simps)
    moreover have "hit p = r" if "p \<in> set ps" for p
    proof -
      have "hit p \<in> set (replicate n r)" unfolding less.prems(6) [symmetric] using that by simp
      then show ?thesis by simp
    qed
    ultimately show ?thesis using less.prems(7) by simp
  next
    case False
    obtain ps1 sl1 full1 miss1 where r: "populate_pass sz bs ps sl full 0 = (ps1, sl1, full1, miss1)"
      by (metis prod_cases4)
    have ok: "pass_ok sz bs ps sl full 0 ps1 sl1 full1 miss1"
      by (rule populate_pass_ok [OF sz less.prems(2) _ r])
        (use less.prems(3) in \<open>auto simp: on_track_def\<close>)
    have fair: "fair_pass sz bs ps sl full 0 ps1 sl1 full1 miss1"
      by (rule populate_pass_fair [OF sz less.prems(2,3) r])
    have loop: "populate_loop sz n bs ps1 sl1 full1 miss1 = Some (ps', sl', full', miss')"
      using less.prems(4,8) n(2) False r by (subst (asm) populate_loop.simps) auto
    have idx: "map p_index ps1 = map p_index ps" using ok by (simp add: pass_ok_def)
    have cnt: "count (mset sl1) h = hits bs h ps1" if "h \<noteq> []" for h
    proof -
      have "count (mset sl1) h + hits bs h ps = count (mset sl) h + hits bs h ps1"
        using fair that unfolding fair_pass_def by blast
      with less.prems(7) [OF that] show ?thesis by linarith
    qed
    show ?thesis
    proof (cases "n \<le> free sl")
      case True
      have "miss1 = 0" using fair True less.prems(1) by (simp add: fair_pass_def)
      moreover have "map hit ps1 = replicate n (r + 1)"
      proof -
        have "map hit ps1 = map Suc (map hit ps)"
          using fair True less.prems(1) by (simp add: fair_pass_def comp_def)
        then show ?thesis unfolding less.prems(6) by simp
      qed
      moreover have good: "on_track sz sl1 p \<and> host_at bs (p_index p) \<noteq> []" if "p \<in> set ps1" for p
      proof -
        have "p_index p \<in> set (map p_index ps)" using that unfolding idx [symmetric] by simp
        with less.prems(3) fair that show ?thesis by (auto simp: fair_pass_def)
      qed
      moreover have "free sl1 < free sl" "full1 + free sl1 = sz" "full1 = (r + 1) * n"
        using fair True less.prems(1,4,5) n(2) False by (auto simp: fair_pass_def)
      moreover have "length sl1 = sz" "n = length ps1"
        using ok less.prems(1,2) idx by (auto simp: pass_ok_def dest: map_eq_imp_length_eq)
      ultimately show ?thesis
        using less.hyps [of sl1 ps1 full1 "r + 1"] cnt loop idx by auto
    next
      case few: False
      have "full1 = sz" using fair few less.prems(1,4) by (simp add: fair_pass_def)
      with loop have fin: "ps' = ps1" "sl' = sl1" "full' = sz" by (auto simp: populate_loop.simps)
      have "sz = r * n + free sl" using less.prems(4,5) by simp
      with few have q: "sz div n = r" by simp
      have "set (map hit ps1) \<subseteq> {r, r + 1}"
      proof -
        have "hit p = r" if "p \<in> set ps" for p
          using that less.prems(6) by (metis in_set_replicate length_map length_replicate list.set_map imageI)
        then show ?thesis
          using fair by (auto simp: fair_pass_def dest: in_set_takeD in_set_dropD)
      qed
      with fin q idx cnt show ?thesis by auto
    qed
  qed
qed

lemma fresh_perfect:
  assumes "is_prime sz" "sz \<le> 65536" and "fresh_perm blake2b (int sz) p"
  shows "perfect sz p"
proof -
  have sz: "2 \<le> sz" "sz < 2 ^ 32" using assms(1,2) by (auto simp: is_prime_def)
  obtain b where b: "offset p = sha3_512_first b mod of_nat sz" "skip p = blake2b b mod of_nat (sz - 1) + 1"
    using assms(3) sz(1) by (auto simp: fresh_perm_def of_nat_diff)
  have "unat (of_nat (sz - 1) :: 32 word) = sz - 1" using sz by (intro unat_size) simp
  then have "unat (blake2b b mod of_nat (sz - 1)) = unat (blake2b b) mod (sz - 1)" by (simp add: unat_mod)
  moreover have "unat (blake2b b) mod (sz - 1) < sz - 1" using sz(1) by simp
  ultimately have lt: "unat (blake2b b mod of_nat (sz - 1)) < sz - 1" by simp
  have suc: "unat (w + 1) = unat w + 1" if "unat w < sz - 1" for w :: "32 word"
    using that sz(2) by (simp add: unat_word_ariths)
  have "unat (skip p) = unat (blake2b b mod of_nat (sz - 1)) + 1" unfolding b(2) by (rule suc [OF lt])
  with lt have "0 < unat (skip p)" "unat (skip p) < sz" by linarith+
  moreover have "unat (offset p) < sz" using sz by (simp add: b(1) unat_mod unat_size)
  ultimately show ?thesis using perfect_prime [OF assms(1,2)] by blast
qed

lemma filter_unique: "distinct (map f xs) \<Longrightarrow> x \<in> set xs \<Longrightarrow> filter (\<lambda>y. f y = f x) xs = [x]"
  by (induction xs) (auto simp: filter_empty_conv image_iff)

lemma hits_unique:
  assumes "distinct (map p_index ps)" and "p \<in> set ps"
    and "\<And>q. q \<in> set ps \<Longrightarrow> host_at bs (p_index q) = h \<longleftrightarrow> p_index q = p_index p"
  shows "hits bs h ps = hit p"
proof -
  have "filter (\<lambda>q. host_at bs (p_index q) = h) ps = filter (\<lambda>q. p_index q = p_index p) ps"
    using assms(3) by (rule filter_cong [OF refl])
  then show ?thesis using filter_unique [OF assms(1,2)] by simp
qed

text \<open>
  C33: slots are shared fairly. When the table size is a prime of at most 65536 and the hosts are
  distinct, filling the table gives each of n hosts either size div n or one more of the slots,
  whatever the hash functions and the iteration order.
\<close>

theorem maglev_fair:
  assumes "NewLookUpTable n hosts = Inr t" and "is_prime (nat (lt_size t))" "lt_size t \<le> 65536"
    and "[] \<notin> set hosts" "distinct hosts" and "mset order = mset (buckets t)"
    and "Populate blake2b order t = Some t'" and "h \<in> set hosts"
  shows "count_list (slots t') h = nat (lt_size t) div length hosts
    \<or> count_list (slots t') h = nat (lt_size t) div length hosts + 1"
proof -
  let ?sz = "nat (lt_size t)" and ?n = "length hosts"
  note t = NewLookUpTable_buckets [OF assms(1)]
  have sz2: "2 \<le> ?sz" using assms(2) by (simp add: is_prime_def)
  have sz: "2 \<le> lt_size t" "lt_size t < 2 ^ 32" "0 < ?sz" "?sz < 2 ^ 32" "?sz \<le> 65536"
    using sz2 assms(3) by auto
  obtain ps where ps: "generatePerms blake2b order t = Some (t\<lparr>permutations := ps\<rparr>)"
      "map p_index ps = map fst order" "\<forall>p \<in> set ps. fresh_perm blake2b (lt_size t) p"
    using generatePerms_Some [OF sz(1,2)] by blast
  have keys: "mset (map p_index ps) = mset [0..<?n]"
    unfolding ps(2) using assms(6) t(1) by (metis map_fst_enumerate mset_map add_0)
  then have len: "length ps = ?n" by (metis length_map length_upt diff_zero size_mset)
  have idx: "p_index ` set ps = {..<?n}" using mset_eq_setD [OF keys] by (auto simp: image_iff)
  have host: "host_at (buckets t) i = hosts ! i" if "i < ?n" for i
    using that map_of_zip_nth [of "[0..<?n]" hosts i] by (simp add: host_at_def t(1) enumerate_eq_zip)
  have track: "on_track ?sz (replicate ?sz []) p \<and> host_at (buckets t) (p_index p) \<noteq> []" if "p \<in> set ps" for p
  proof -
    have "p_index p < ?n" using that idx by (metis imageI lessThan_iff)
    with assms(4) host have "host_at (buckets t) (p_index p) \<noteq> []" by (metis nth_mem)
    moreover have "perfect ?sz p" "p_next p = 0"
      using that ps(3) fresh_perfect [OF assms(2) sz(5), of blake2b p] sz(1) by (auto simp: fresh_perm_def)
    ultimately show ?thesis by (simp add: on_track_def)
  qed
  have "0 < ?n" using assms(8) by (cases hosts) auto
  have zero: "map hit ps = replicate ?n 0"
    using ps(3) len by (intro replicate_eqI) (auto simp: fresh_perm_def)
  have base: "count (mset (replicate ?sz [])) g = hits (buckets t) g ps" if "g \<noteq> []" for g :: string
  proof -
    have "hits (buckets t) g ps = 0" using ps(3) by (auto simp: fresh_perm_def sum_list_eq_0_iff)
    with that show ?thesis by simp
  qed
  have unf: "filter (\<lambda>p. p_next p \<noteq> ?sz) ps = ps"
    by (rule filter_True) (use ps(3) sz(3) in \<open>simp add: fresh_perm_def\<close>)
  have good: "p_next p \<le> ?sz \<and> host_at (buckets t) (p_index p) \<noteq> []" if "p \<in> set ps" for p
    using track [OF that] by (simp add: on_track_def)
  have "\<exists>ps' sl' full' miss'.
      populate_loop ?sz ?n (buckets t) ps (replicate ?sz []) 0 0 = Some (ps', sl', full', miss')
      \<and> length sl' = ?sz \<and> set sl' \<subseteq> set (replicate ?sz []) \<union> (host_at (buckets t) \<circ> p_index) ` set ps
      \<and> map p_index ps' = map p_index ps \<and> full' + free sl' = ?sz \<and> (full' = ?sz \<or> miss' = ?n)"
    by (rule populate_loop_returns [OF sz(3,4) _ good]) (simp_all add: unf len)
  then obtain ps' sl' full' miss' where
    loop: "populate_loop ?sz ?n (buckets t) ps (replicate ?sz []) 0 0 = Some (ps', sl', full', miss')"
    by blast
  have fair: "full' = ?sz" "map p_index ps' = map p_index ps"
      "\<forall>p \<in> set ps'. hit p = ?sz div ?n \<or> hit p = ?sz div ?n + 1"
      "\<forall>g. g \<noteq> [] \<longrightarrow> count (mset sl') g = hits (buckets t) g ps'"
    using populate_loop_fair [OF sz(3,4) len [symmetric] \<open>0 < ?n\<close> _ track _ _ zero base loop]
    by auto
  have nz: "(of_int (lt_size t) :: 32 word) \<noteq> 0"
    using sz(1,2) by (simp add: word_of_int_eq_0_iff zdvd_not_zless)
  have "slots t' = sl'"
    using assms(7) ps(1) sz(1) nz loop fair(1) t(2) by (auto simp: Populate_def populate_def Let_def)
  moreover obtain i where i: "i < ?n" "hosts ! i = h" using assms(8) by (metis in_set_conv_nth)
  have "set (map p_index ps') = set (map p_index ps)" by (simp only: fair(2))
  then have idx': "p_index ` set ps' = {..<?n}" using idx by simp
  from i(1) have "i \<in> p_index ` set ps'" unfolding idx' by simp
  then obtain p where p: "p \<in> set ps'" "p_index p = i" by blast
  have "hits (buckets t) h ps' = hit p"
  proof (rule hits_unique [OF _ p(1)])
    show "distinct (map p_index ps')" unfolding fair(2)
      using keys by (metis distinct_upt mset_eq_imp_distinct_iff)
    show "host_at (buckets t) (p_index q) = h \<longleftrightarrow> p_index q = p_index p" if "q \<in> set ps'" for q
    proof -
      have "p_index q \<in> {..<?n}" using imageI [OF that, of p_index] unfolding idx' .
      then have "p_index q < ?n" by simp
      with host [OF this] i p(2) nth_eq_iff_index_eq [OF assms(5)] show ?thesis by auto
    qed
  qed
  moreover have "h \<noteq> []" using assms(4,8) by auto
  ultimately have "count_list (slots t') h = hit p" using fair(4) count_mset [of sl' h] by simp
  with bspec [OF fair(3) p(1)] show ?thesis by simp
qed

section \<open>Examples\<close>

definition two_hosts :: "string list" where
  "two_hosts = [''a'', ''b'']"

definition two_table :: LookUpTable where
  "two_table = \<lparr>slots = [], permutations = [], buckets = [(0, ''a''), (1, ''b'')], endpointNum = 2, lt_size = 7\<rparr>"

lemma two_new: "NewLookUpTable 7 two_hosts = Inr two_table"
proof -
  have "{2..<7 :: nat} = {2, 3, 4, 5, 6}" by auto
  then show ?thesis
    by (simp add: NewLookUpTable_def two_hosts_def two_table_def Let_def is_prime_def)
qed

theorem maglev_populates_witness:
  "\<exists>t'. Populate (\<lambda>s. 5) (buckets two_table) two_table = Some t' \<and> table_wf t'
     \<and> hosts_of t' = {''a'', ''b''}"
  using maglev_populates [OF two_new, of "buckets two_table" "\<lambda>s. 5"] by (simp add: two_hosts_def)

theorem maglev_fair_witness:
  "\<exists>t'. Populate (\<lambda>s. 5) (buckets two_table) two_table = Some t'
     \<and> (count_list (slots t') ''a'' = 3 \<or> count_list (slots t') ''a'' = 4)"
proof -
  have prime: "is_prime (nat (lt_size two_table))"
  proof -
    have "{2..<7 :: nat} = {2, 3, 4, 5, 6}" by auto
    then show ?thesis by (simp add: is_prime_def two_table_def)
  qed
  obtain t' where t': "Populate (\<lambda>s. 5) (buckets two_table) two_table = Some t'"
    using table_populates [OF two_new, of "buckets two_table" "\<lambda>s. 5"] by (auto simp: two_hosts_def)
  with maglev_fair [OF two_new prime _ _ _ refl t', of "''a''"] show ?thesis
    by (simp add: two_hosts_def two_table_def numeral_2_eq_2 [symmetric])
qed


end
