(* ===== verification/Pixiu_Balancers.thy ===== *)
theory Pixiu_Balancers
  imports Pixiu_Snapshots Pixiu_Maglev
begin

text \<open>
  Load balancing: \<open>pkg/cluster/loadbalancer\<close> with the balancers \<open>rand\<close>, \<open>roundrobin\<close>, \<open>weightrandom\<close>,
  \<open>ringhash\<close> and \<open>maglev\<close>. The ring hash package and the hash functions of the Maglev table are
  parameters, and so are the random numbers: \<open>rnd n\<close> is the value that \<open>rand.Intn(n)\<close> returns. A
  balancing policy is the string its \<open>GenerateHash\<close> returns. Pointers to endpoints are compared as
  values. The consistent hashes are only built for lists without nil endpoints.
\<close>

section \<open>Consistent hashes\<close>

text \<open>
  The operations of the ring hash package: a ring with optional numbers of replicas and virtual
  nodes over a list of hosts, and its lookups.
\<close>

record 'r hash_ops =
  newRing :: "int option \<Rightarrow> int option \<Rightarrow> string list \<Rightarrow> 'r"
  ringHash :: "'r \<Rightarrow> string \<Rightarrow> 32 word"
  ringGet :: "'r \<Rightarrow> string \<Rightarrow> string + string"
  ringGetHash :: "'r \<Rightarrow> 32 word \<Rightarrow> string + string"
  op_blake2b :: "string \<Rightarrow> 32 word"
  op_xxhash :: "string \<Rightarrow> 64 word"
  op_order :: "(nat \<times> string) list \<Rightarrow> (nat \<times> string) list"

text \<open>\<open>Panicked\<close> marks a construction that panics, for table sizes that cannot be filled.\<close>

datatype 'r lb_hash = Table LookUpTable | Ring 'r | Panicked

definition NewRingHash ::
    "'r hash_ops \<Rightarrow> 'r lb_hash ConsistentHash \<Rightarrow> Endpoint option list \<Rightarrow> 'r lb_hash" where
  "NewRingHash ops config endpoints =
     (let replicas = (if ReplicaNum config \<noteq> 0 then Some (ReplicaNum config) else None);
          vnodes = (if MaxVnodeNum config \<noteq> 0 then Some (MaxVnodeNum config) else None)
      in Ring (newRing ops replicas vnodes (map GetHost (somes endpoints))))"

definition NewMaglevHash ::
    "'r hash_ops \<Rightarrow> 'r lb_hash ConsistentHash \<Rightarrow> Endpoint option list \<Rightarrow> 'r lb_hash" where
  "NewMaglevHash ops config endpoints =
     (case NewLookUpTable (MaglevTableSize config) (map GetHost (somes endpoints)) of
        Inr h \<Rightarrow>
          (case Populate (op_blake2b ops) (op_order ops (buckets h)) h of
             None \<Rightarrow> Panicked
           | Some h \<Rightarrow> Table h)
      | Inl err \<Rightarrow>
          NewRingHash ops
            (if ReplicaNum config = 0
             then config\<lparr>ReplicaNum := 2 * int (length endpoints)\<rparr> else config) endpoints)"

text \<open>The registrations of the two packages.\<close>

definition ConsistentHashInitMap :: "'r hash_ops \<Rightarrow> 'r lb_hash factories" where
  "ConsistentHashInitMap ops lb =
     (if lb = ''RingHashing'' then Some (NewRingHash ops)
      else if lb = ''MaglevHashing'' then Some (NewMaglevHash ops) else None)"

definition view_Hash :: "'r hash_ops \<Rightarrow> 'r lb_hash \<Rightarrow> string \<Rightarrow> 32 word" where
  "view_Hash ops h key =
     (case h of Table t \<Rightarrow> requestHash (op_xxhash ops) key | Ring r \<Rightarrow> ringHash ops r key | Panicked \<Rightarrow> 0)"

definition view_Get :: "'r hash_ops \<Rightarrow> 'r lb_hash \<Rightarrow> string \<Rightarrow> string + string" where
  "view_Get ops h key =
     (case h of Table t \<Rightarrow> table_Get (op_xxhash ops) key t | Ring r \<Rightarrow> ringGet ops r key | Panicked \<Rightarrow> Inl ''panic'')"

definition view_GetHash :: "'r hash_ops \<Rightarrow> 'r lb_hash \<Rightarrow> 32 word \<Rightarrow> string + string" where
  "view_GetHash ops h key =
     (case h of Table t \<Rightarrow> table_GetHash key t | Ring r \<Rightarrow> ringGetHash ops r key | Panicked \<Rightarrow> Inl ''panic'')"

section \<open>Picks\<close>

record 'h PickContext =
  Config :: "'h ClusterConfig option"
  ctx_HealthyConsistentHash :: "'h option"
  ctx_AllEndpoints :: "Endpoint list option"
  ctx_HealthyEndpoints :: "Endpoint list"
  RoundRobinCursor :: "32 word option"
  HealthyByID :: "'h EndpointSnapshot option"

definition ConsistentHashForHealthyEndpoints :: "'h factories \<Rightarrow> 'h PickContext \<Rightarrow> 'h option" where
  "ConsistentHashForHealthyEndpoints fs ctx =
     (case ctx_HealthyConsistentHash ctx of
        Some h \<Rightarrow> Some h
      | None \<Rightarrow>
          (case Config ctx of
             None \<Rightarrow> None
           | Some c \<Rightarrow>
               if ctx_HealthyEndpoints ctx = [] then None
               else
                 (case fs (LbStr c) of
                    Some newConsistentHash \<Rightarrow>
                      Some (newConsistentHash (cc_ConsistentHash c) (map Some (ctx_HealthyEndpoints ctx)))
                  | None \<Rightarrow> ch_Hash (cc_ConsistentHash c))))"

subsection \<open>The balancers\<close>

text \<open>A balancer returns the endpoint it chose and the context, whose cursor it may have moved.\<close>

definition Rand_pick :: "(nat \<Rightarrow> nat) \<Rightarrow> 'h PickContext \<Rightarrow> Endpoint option \<times> 'h PickContext" where
  "Rand_pick rnd ctx =
     (let endpoints = ctx_HealthyEndpoints ctx
      in if endpoints = [] then (None, ctx) else (Some (endpoints ! rnd (length endpoints)), ctx))"

text \<open>
  Without a cursor in the context the index of the configuration is used. \<open>pickEndpoint\<close> refuses a
  nil configuration before, where this code would panic.
\<close>

definition RoundRobin_pick :: "'h PickContext \<Rightarrow> Endpoint option \<times> 'h PickContext" where
  "RoundRobin_pick ctx =
     (let endpoints = ctx_HealthyEndpoints ctx
      in if endpoints = [] then (None, ctx)
         else
           (let (index, ctx) =
              (case RoundRobinCursor ctx of
                 Some cursor \<Rightarrow> (cursor + 1 - 1, ctx\<lparr>RoundRobinCursor := Some (cursor + 1)\<rparr>)
               | None \<Rightarrow>
                   (case Config ctx of
                      Some c \<Rightarrow> (PrePickEndpointIndex c + 1 - 1,
                        ctx\<lparr>Config := Some (c\<lparr>PrePickEndpointIndex := PrePickEndpointIndex c + 1\<rparr>)\<rparr>)
                    | None \<Rightarrow> (0, ctx)))
            in (Some (endpoints ! unat (index mod of_nat (length endpoints))), ctx)))"

definition weight_of :: "Endpoint \<Rightarrow> int" where
  "weight_of endpoint =
     (case map_of (ep_Metadata endpoint) ''weight'' of
        None \<Rightarrow> 0
      | Some weightStr \<Rightarrow> (case atoi weightStr of Some w \<Rightarrow> if w \<ge> 0 then w else 0 | None \<Rightarrow> 0))"

fun total_weight :: "int \<Rightarrow> Endpoint list \<Rightarrow> int" where
  "total_weight t [] = t"
| "total_weight t (e # es) = total_weight (wrap64 (t + weight_of e)) es"

fun weighted_choice :: "int \<Rightarrow> int \<Rightarrow> Endpoint list \<Rightarrow> Endpoint option" where
  "weighted_choice r s [] = None"
| "weighted_choice r s (e # es) =
     (let s = wrap64 (s + weight_of e) in if r < s then Some e else weighted_choice r s es)"

definition WeightRandom_pick :: "(nat \<Rightarrow> nat) \<Rightarrow> 'h PickContext \<Rightarrow> Endpoint option \<times> 'h PickContext" where
  "WeightRandom_pick rnd ctx =
     (let endpoints = ctx_HealthyEndpoints ctx
      in if endpoints = [] then (None, ctx)
         else
           (let totalWeight = total_weight 0 endpoints
            in if totalWeight \<le> 0 then (Some (endpoints ! rnd (length endpoints)), ctx)
               else
                 (let randomNumber = int (rnd (nat totalWeight))
                  in case weighted_choice randomNumber 0 endpoints of
                       Some e \<Rightarrow> (Some e, ctx)
                     | None \<Rightarrow> (Some (endpoints ! 0), ctx))))"

definition endpoint_of_host :: "string \<Rightarrow> Endpoint list \<Rightarrow> Endpoint" where
  "endpoint_of_host host endpoints =
     (case find (\<lambda>e. GetHost e = host) endpoints of Some e \<Rightarrow> e | None \<Rightarrow> endpoints ! 0)"

definition RingHashing_pick ::
    "'r hash_ops \<Rightarrow> string option \<Rightarrow> 'r lb_hash PickContext \<Rightarrow> Endpoint option \<times> 'r lb_hash PickContext" where
  "RingHashing_pick ops policy ctx =
     (let endpoints = ctx_HealthyEndpoints ctx;
          hashView = ConsistentHashForHealthyEndpoints (ConsistentHashInitMap ops) ctx
      in case (hashView, policy) of
           (Some h, Some key) \<Rightarrow>
             if endpoints = [] then (None, ctx)
             else
               (case view_GetHash ops h (view_Hash ops h key) of
                  Inl err \<Rightarrow> (None, ctx)
                | Inr host \<Rightarrow> (Some (endpoint_of_host host endpoints), ctx))
         | _ \<Rightarrow> (None, ctx))"

definition MaglevHash_pick ::
    "'r hash_ops \<Rightarrow> string option \<Rightarrow> 'r lb_hash PickContext \<Rightarrow> Endpoint option \<times> 'r lb_hash PickContext" where
  "MaglevHash_pick ops policy ctx =
     (let endpoints = ctx_HealthyEndpoints ctx;
          hashView = ConsistentHashForHealthyEndpoints (ConsistentHashInitMap ops) ctx
      in case (hashView, policy) of
           (Some h, Some key) \<Rightarrow>
             if endpoints = [] then (None, ctx)
             else
               (case view_Get ops h key of
                  Inl err \<Rightarrow> (None, ctx)
                | Inr dst \<Rightarrow> (Some (endpoint_of_host dst endpoints), ctx))
         | _ \<Rightarrow> (None, ctx))"

datatype in_tree = Rand | RoundRobin | WeightRandom | RingHashing | MaglevHash

definition HandlerWithSnapshot ::
    "'r hash_ops \<Rightarrow> (nat \<Rightarrow> nat) \<Rightarrow> in_tree \<Rightarrow> string option \<Rightarrow> 'r lb_hash PickContext
     \<Rightarrow> Endpoint option \<times> 'r lb_hash PickContext" where
  "HandlerWithSnapshot ops rnd b policy ctx =
     (case b of
        Rand \<Rightarrow> Rand_pick rnd ctx
      | RoundRobin \<Rightarrow> RoundRobin_pick ctx
      | WeightRandom \<Rightarrow> WeightRandom_pick rnd ctx
      | RingHashing \<Rightarrow> RingHashing_pick ops policy ctx
      | MaglevHash \<Rightarrow> MaglevHash_pick ops policy ctx)"

text \<open>
  The handlers for a bare configuration; a nil endpoint makes \<open>GetEndpoint\<close> panic, here \<open>None\<close>. The
  hash balancers build a view when the configuration has none.
\<close>

definition handler_view ::
    "'r hash_ops \<Rightarrow> in_tree \<Rightarrow> 'r lb_hash ClusterConfig \<Rightarrow> Endpoint option list \<Rightarrow> 'r lb_hash option" where
  "handler_view ops b c endpoints =
     (let build = (case b of RingHashing \<Rightarrow> Some (NewRingHash ops) | MaglevHash \<Rightarrow> Some (NewMaglevHash ops)
                   | _ \<Rightarrow> None)
      in case build of
           None \<Rightarrow> None
         | Some new \<Rightarrow>
             (case ch_Hash (cc_ConsistentHash c) of
                Some h \<Rightarrow> Some h
              | None \<Rightarrow> if endpoints \<noteq> [] then Some (new (cc_ConsistentHash c) endpoints) else None))"

definition Handler ::
    "'r hash_ops \<Rightarrow> (nat \<Rightarrow> nat) \<Rightarrow> in_tree \<Rightarrow> string option \<Rightarrow> 'r lb_hash ClusterConfig
     \<Rightarrow> (Endpoint option \<times> 'r lb_hash ClusterConfig option) option" where
  "Handler ops rnd b policy c =
     (case GetEndpoint True c of
        None \<Rightarrow> None
      | Some endpoints \<Rightarrow>
          (let ctx = \<lparr>Config = Some c, ctx_HealthyConsistentHash = handler_view ops b c endpoints,
                 ctx_AllEndpoints = None, ctx_HealthyEndpoints = somes endpoints,
                 RoundRobinCursor = None, HealthyByID = None\<rparr>;
               (e, ctx) = HandlerWithSnapshot ops rnd b policy ctx
           in Some (e, Config ctx)))"

subsection \<open>The recheck of a pick\<close>

definition isBlankDomainPlaceholderAddress :: "SocketAddress \<Rightarrow> bool" where
  "isBlankDomainPlaceholderAddress addr \<longleftrightarrow>
     Domains addr = [''''] \<and> sa_Address addr = '''' \<and> sa_Port addr = 0"

definition sameEndpointIdentity :: "Endpoint \<Rightarrow> Endpoint \<Rightarrow> bool" where
  "sameEndpointIdentity candidate endpoint =
     (if ep_ID endpoint \<noteq> '''' \<or> ep_ID candidate \<noteq> '''' then
        (if ep_ID candidate \<noteq> ep_ID endpoint then False
         else if isBlankDomainPlaceholderAddress (ep_Address candidate) then True
         else SocketAddress_Equal (ep_Address candidate) (ep_Address endpoint))
      else SocketAddress_Equal (ep_Address candidate) (ep_Address endpoint))"

definition healthyEndpointFromSnapshot :: "Endpoint option \<Rightarrow> 'h PickContext \<Rightarrow> Endpoint option" where
  "healthyEndpointFromSnapshot endpoint ctx =
     (case endpoint of
        None \<Rightarrow> None
      | Some e \<Rightarrow>
          if ep_ID e \<noteq> '''' \<and> HealthyByID ctx \<noteq> None then
            (case HealthyEndpointByIDForPick (ep_ID e) (HealthyByID ctx) of
               None \<Rightarrow> None
             | Some candidate \<Rightarrow>
                 if candidate = e then CloneEndpoint (Some candidate)
                 else if sameEndpointIdentity candidate e then CloneEndpoint (Some candidate)
                 else None)
          else
            (case find (\<lambda>candidate. candidate = e) (ctx_HealthyEndpoints ctx) of
               Some candidate \<Rightarrow> CloneEndpoint (Some candidate)
             | None \<Rightarrow>
                 (case find (\<lambda>candidate. sameEndpointIdentity candidate e) (ctx_HealthyEndpoints ctx) of
                    Some candidate \<Rightarrow> CloneEndpoint (Some candidate)
                  | None \<Rightarrow> None)))"

definition defensiveSnapshotPickContext :: "'h PickContext \<Rightarrow> 'h PickContext" where
  "defensiveSnapshotPickContext ctx =
     ctx\<lparr>ctx_AllEndpoints := map_option (\<lambda>es. somes (CloneEndpoints (map Some es))) (ctx_AllEndpoints ctx),
         ctx_HealthyEndpoints := somes (CloneEndpoints (map Some (ctx_HealthyEndpoints ctx))),
         HealthyByID := None\<rparr>"

text \<open>
  A balancer as \<open>pickEndpoint\<close> sees it: one that takes the context, trusted with the snapshot itself
  or not, or one that takes a configuration only. The cursor and the configuration of the context
  are shared with it.
\<close>

datatype 'h load_balancer =
    SnapshotBalancer bool "'h PickContext \<Rightarrow> Endpoint option \<times> 'h PickContext"
  | LegacyBalancer "'h ClusterConfig \<Rightarrow> Endpoint option \<times> 'h ClusterConfig"

definition legacy_pick ::
    "'h factories \<Rightarrow> ('h ClusterConfig \<Rightarrow> Endpoint option \<times> 'h ClusterConfig) \<Rightarrow> 'h ClusterConfig
     \<Rightarrow> 'h PickContext \<Rightarrow> Endpoint option \<times> 'h PickContext" where
  "legacy_pick fs handler c ctx =
     (let c = EnsureConsistentHash fs c;
          ctx = ctx\<lparr>Config := Some c\<rparr>;
          allEndpoints = (case ctx_AllEndpoints ctx of Some a \<Rightarrow> a | None \<Rightarrow> ctx_HealthyEndpoints ctx);
          cursorBefore = (case RoundRobinCursor ctx of Some k \<Rightarrow> k | None \<Rightarrow> PrePickEndpointIndex c);
          config = c\<lparr>Endpoints := CloneEndpoints (map Some allEndpoints), PrePickEndpointIndex := cursorBefore\<rparr>;
          (endpoint, config) = handler config;
          cursorAfter = PrePickEndpointIndex config;
          ctx = (if cursorAfter = cursorBefore then ctx
                 else (case RoundRobinCursor ctx of
                         Some k \<Rightarrow> ctx\<lparr>RoundRobinCursor := Some (k + (cursorAfter - cursorBefore))\<rparr>
                       | None \<Rightarrow> ctx\<lparr>Config := Some (c\<lparr>PrePickEndpointIndex :=
                           PrePickEndpointIndex c + (cursorAfter - cursorBefore)\<rparr>)\<rparr>))
      in (healthyEndpointFromSnapshot endpoint ctx, ctx))"

definition pickEndpoint ::
    "'h factories \<Rightarrow> 'h load_balancer option \<Rightarrow> 'h PickContext \<Rightarrow> Endpoint option \<times> 'h PickContext" where
  "pickEndpoint fs balancer ctx =
     (case (balancer, Config ctx) of
        (Some b, Some c) \<Rightarrow>
          (case b of
             SnapshotBalancer zeroCopy handler \<Rightarrow>
               (let snapshotContext = (if zeroCopy then ctx else defensiveSnapshotPickContext ctx);
                    (endpoint, after) = handler snapshotContext;
                    ctx' = ctx\<lparr>Config := Config after, RoundRobinCursor := RoundRobinCursor after\<rparr>
                in (healthyEndpointFromSnapshot endpoint ctx, ctx'))
           | LegacyBalancer handler \<Rightarrow> legacy_pick fs handler c ctx)
      | _ \<Rightarrow> (None, ctx))"

definition lb_PickEndpoint ::
    "'h factories \<Rightarrow> 'h load_balancer option \<Rightarrow> 'h PickContext \<Rightarrow> Endpoint option \<times> 'h PickContext" where
  "lb_PickEndpoint fs balancer ctx = pickEndpoint fs balancer ctx"

text \<open>Only trusted balancers, all of which read healthy endpoints only, do without the others.\<close>

definition NeedsAllEndpoints :: "'h load_balancer \<Rightarrow> bool" where
  "NeedsAllEndpoints balancer =
     (case balancer of SnapshotBalancer zeroCopy handler \<Rightarrow> \<not> zeroCopy | LegacyBalancer handler \<Rightarrow> True)"

text \<open>\<open>RegisterLoadBalancer\<close> panics on a second registration of a name.\<close>

definition RegisterLoadBalancer ::
    "string \<Rightarrow> 'b \<Rightarrow> (string \<times> 'b) list \<Rightarrow> (string \<times> 'b) list option" where
  "RegisterLoadBalancer name balancer strategies =
     (if map_of strategies name \<noteq> None then None else Some (AList.update name balancer strategies))"

definition RegisterConsistentHashInit ::
    "string \<Rightarrow> 'f \<Rightarrow> (string \<times> 'f) list \<Rightarrow> (string \<times> 'f) list option" where
  "RegisterConsistentHashInit name f inits =
     (if map_of inits name \<noteq> None then None else Some (AList.update name f inits))"

text \<open>The strategies that the packages register.\<close>

definition LoadBalancerStrategy ::
    "'r hash_ops \<Rightarrow> (nat \<Rightarrow> nat) \<Rightarrow> string option \<Rightarrow> string \<Rightarrow> 'r lb_hash load_balancer option" where
  "LoadBalancerStrategy ops rnd policy name =
     map_option (\<lambda>b. SnapshotBalancer True (HandlerWithSnapshot ops rnd b policy))
       (map_of [(''Rand'', Rand), (''RoundRobin'', RoundRobin), (''WeightRandom'', WeightRandom),
          (''RingHashing'', RingHashing), (''MaglevHashing'', MaglevHash)] name)"

section \<open>Picks are healthy\<close>

text \<open>What the pick path passes: the index it rechecks with belongs to the endpoints it offers.\<close>

definition ctx_ok :: "'h PickContext \<Rightarrow> bool" where
  "ctx_ok ctx \<longleftrightarrow>
     (case HealthyByID ctx of
        None \<Rightarrow> True
      | Some s \<Rightarrow> snapshot_inv s \<and> es_healthy s = ctx_HealthyEndpoints ctx)"

lemma healthy_by_id:
  assumes "snapshot_inv s"
  shows "HealthyEndpointByIDForPick i (Some s) = find (\<lambda>e. ep_ID e = i) (es_healthy s)"
proof -
  have "distinct (map ep_ID (es_healthy s))"
    using assms by (simp add: snapshot_inv_def distinct_map inj_on_def)
  from map_of_indexed_by_find [OF this] show ?thesis
    using assms by (simp add: HealthyEndpointByIDForPick_def snapshot_inv_def)
qed

lemma find_member: "find P xs = Some x \<Longrightarrow> x \<in> set xs \<and> P x"
  by (auto simp: find_Some_iff)

lemma recheck_member:
  assumes "ctx_ok ctx" and "healthyEndpointFromSnapshot oe ctx = Some e"
  shows "e \<in> set (ctx_HealthyEndpoints ctx)"
  using assms
  by (auto simp: healthyEndpointFromSnapshot_def ctx_ok_def healthy_by_id
      split: option.splits if_splits dest!: find_member)

lemma recheck_accepts:
  assumes "ctx_ok ctx" and "e \<in> set (ctx_HealthyEndpoints ctx)"
  shows "healthyEndpointFromSnapshot (Some e) ctx = Some e"
proof (cases "HealthyByID ctx")
  case None
  have "find (\<lambda>c. c = e) xs = Some e" if "e \<in> set xs" for xs
    using that by (induction xs) auto
  with assms(2) None show ?thesis by (simp add: healthyEndpointFromSnapshot_def)
next
  case (Some s)
  then have s: "snapshot_inv s" "es_healthy s = ctx_HealthyEndpoints ctx" using assms(1) by (simp_all add: ctx_ok_def)
  have d: "distinct (map ep_ID (es_healthy s))"
    using s(1) by (simp add: snapshot_inv_def distinct_map inj_on_def)
  have "find (\<lambda>c. ep_ID c = ep_ID e) xs = Some e" if "e \<in> set xs" "distinct (map ep_ID xs)" for xs
    using that by (induction xs) (auto simp: image_iff)
  moreover have "find (\<lambda>c. c = e) xs = Some e" if "e \<in> set xs" for xs
    using that by (induction xs) auto
  ultimately show ?thesis
    using assms(2) Some s d by (simp add: healthyEndpointFromSnapshot_def healthy_by_id)
qed

lemma recheck_Config:
  "healthyEndpointFromSnapshot oe (ctx\<lparr>Config := c\<rparr>) = healthyEndpointFromSnapshot oe ctx"
  by (cases oe) (simp_all add: healthyEndpointFromSnapshot_def cong: option.case_cong)

lemma recheck_RoundRobinCursor:
  "healthyEndpointFromSnapshot oe (ctx\<lparr>RoundRobinCursor := k\<rparr>) = healthyEndpointFromSnapshot oe ctx"
  by (cases oe) (simp_all add: healthyEndpointFromSnapshot_def cong: option.case_cong)

lemmas recheck_fields = recheck_Config recheck_RoundRobinCursor

lemma pick_member:
  assumes "ctx_ok ctx" and "fst (pickEndpoint fs balancer ctx) = Some e"
  shows "e \<in> set (ctx_HealthyEndpoints ctx)"
proof -
  obtain oe where "healthyEndpointFromSnapshot oe ctx = Some e"
    using assms(2)
    by (auto simp: pickEndpoint_def legacy_pick_def Let_def recheck_fields
        split: option.splits load_balancer.splits prod.splits if_splits)
  with assms(1) show ?thesis by (rule recheck_member)
qed

text \<open>
  C35: a pick is healthy. Whatever a balancer does, trusted, external or legacy, and whatever
  endpoint it returns, a pick for a consistent snapshot returns nothing or one of the healthy
  endpoints of this snapshot.
\<close>

theorem pick_is_healthy:
  assumes "ctx_ok ctx" and "fst (pickEndpoint fs balancer ctx) = Some e"
  shows "e \<in> set (ctx_HealthyEndpoints ctx)
    \<and> (\<forall>s. HealthyByID ctx = Some s \<longrightarrow> \<not> UnHealthy e \<and> e \<in> set (es_all s))"
  using pick_member [OF assms] assms(1) by (auto simp: ctx_ok_def snapshot_inv_def)

section \<open>The contract of a balancer\<close>

text \<open>
  What a snapshot balancer promises: nothing when no endpoint is healthy, and otherwise, when it is
  ready, one of the healthy endpoints. The pick path then returns exactly its choice.
\<close>

locale snapshot_balancer =
  fixes pick :: "'h PickContext \<Rightarrow> Endpoint option \<times> 'h PickContext" and ready :: "'h PickContext \<Rightarrow> bool"
  assumes refuses: "ctx_HealthyEndpoints ctx = [] \<Longrightarrow> fst (pick ctx) = None"
    and chooses: "ctx_HealthyEndpoints ctx \<noteq> [] \<Longrightarrow> ready ctx \<Longrightarrow>
      \<exists>e \<in> set (ctx_HealthyEndpoints ctx). fst (pick ctx) = Some e"
begin

lemma pick_accepted:
  assumes "ctx_ok ctx" and "Config ctx \<noteq> None" and "ctx_HealthyEndpoints ctx \<noteq> []" and "ready ctx"
  shows "\<exists>e \<in> set (ctx_HealthyEndpoints ctx). fst (pick ctx) = Some e
    \<and> fst (pickEndpoint fs (Some (SnapshotBalancer True pick)) ctx) = Some e"
proof -
  obtain e where "e \<in> set (ctx_HealthyEndpoints ctx)" "fst (pick ctx) = Some e"
    using chooses [OF assms(3,4)] by blast
  with recheck_accepts [OF assms(1)] assms(2) show ?thesis
    by (intro bexI [of _ e]) (auto simp: pickEndpoint_def case_prod_beta Let_def)
qed

lemma pick_refused:
  assumes "ctx_HealthyEndpoints ctx = []"
  shows "fst (pickEndpoint fs (Some (SnapshotBalancer True pick)) ctx) = None"
  using refuses [OF assms]
  by (auto simp: pickEndpoint_def healthyEndpointFromSnapshot_def case_prod_beta Let_def split: option.split)

end

text \<open>When a balancer of the tree can choose.\<close>

definition lookup_ok :: "'r hash_ops \<Rightarrow> in_tree \<Rightarrow> 'r lb_hash \<Rightarrow> string \<Rightarrow> bool" where
  "lookup_ok ops b h key \<longleftrightarrow>
     (if b = RingHashing then \<exists>host. view_GetHash ops h (view_Hash ops h key) = Inr host
      else \<exists>host. view_Get ops h key = Inr host)"

definition in_tree_ready ::
    "'r hash_ops \<Rightarrow> (nat \<Rightarrow> nat) \<Rightarrow> in_tree \<Rightarrow> string option \<Rightarrow> 'r lb_hash PickContext \<Rightarrow> bool" where
  "in_tree_ready ops rnd b policy ctx \<longleftrightarrow>
     (if b = Rand \<or> b = WeightRandom then \<forall>n > 0. rnd n < n
      else if b = RoundRobin then length (ctx_HealthyEndpoints ctx) < 2 ^ 32
      else \<exists>key h. policy = Some key
        \<and> ConsistentHashForHealthyEndpoints (ConsistentHashInitMap ops) ctx = Some h
        \<and> lookup_ok ops b h key)"

lemma endpoint_of_host_member: "endpoints \<noteq> [] \<Longrightarrow> endpoint_of_host host endpoints \<in> set endpoints"
  by (auto simp: endpoint_of_host_def split: option.split dest: find_member)

lemma weighted_choice_member: "weighted_choice r s es = Some e \<Longrightarrow> e \<in> set es"
  by (induction r s es rule: weighted_choice.induct) (auto simp: Let_def split: if_splits)

lemma rr_index_less: "0 < n \<Longrightarrow> n < 2 ^ 32 \<Longrightarrow> unat (k mod (of_nat n :: 32 word)) < n"
  by (simp add: unat_mod unat_size)

lemma RoundRobin_member:
  assumes "ctx_HealthyEndpoints ctx \<noteq> []" "length (ctx_HealthyEndpoints ctx) < 2 ^ 32"
  shows "\<exists>e \<in> set (ctx_HealthyEndpoints ctx). fst (RoundRobin_pick ctx) = Some e"
proof -
  have "\<exists>k. fst (RoundRobin_pick ctx) =
      Some (ctx_HealthyEndpoints ctx ! unat (k mod (of_nat (length (ctx_HealthyEndpoints ctx)) :: 32 word)))"
    using assms(1) by (auto simp: RoundRobin_pick_def Let_def split: option.split intro: exI [of _ 0])
  with assms rr_index_less [of "length (ctx_HealthyEndpoints ctx)"] show ?thesis by auto
qed

lemma WeightRandom_member:
  assumes "ctx_HealthyEndpoints ctx \<noteq> []" and "\<forall>n > 0. rnd n < n"
  shows "\<exists>e \<in> set (ctx_HealthyEndpoints ctx). fst (WeightRandom_pick rnd ctx) = Some e"
  using assms
  by (auto simp: WeightRandom_pick_def Let_def split: option.split dest: weighted_choice_member)

lemma hash_member:
  assumes "ctx_HealthyEndpoints ctx \<noteq> []" and "b = RingHashing \<or> b = MaglevHash"
    and "ConsistentHashForHealthyEndpoints (ConsistentHashInitMap ops) ctx = Some h" "lookup_ok ops b h key"
  shows "\<exists>e \<in> set (ctx_HealthyEndpoints ctx). fst (HandlerWithSnapshot ops rnd b (Some key) ctx) = Some e"
  using assms endpoint_of_host_member [OF assms(1)]
  by (auto simp: HandlerWithSnapshot_def RingHashing_pick_def MaglevHash_pick_def lookup_ok_def Let_def)

interpretation in_tree_lb: snapshot_balancer "HandlerWithSnapshot ops rnd b policy" "in_tree_ready ops rnd b policy"
  for ops :: "'r hash_ops" and rnd b policy
proof
  fix ctx :: "'r lb_hash PickContext"
  assume "ctx_HealthyEndpoints ctx = []"
  then show "fst (HandlerWithSnapshot ops rnd b policy ctx) = None"
    by (cases b) (simp_all add: HandlerWithSnapshot_def Rand_pick_def RoundRobin_pick_def
        WeightRandom_pick_def RingHashing_pick_def MaglevHash_pick_def Let_def split: option.split)
next
  fix ctx :: "'r lb_hash PickContext"
  assume ne: "ctx_HealthyEndpoints ctx \<noteq> []" and ready: "in_tree_ready ops rnd b policy ctx"
  show "\<exists>e \<in> set (ctx_HealthyEndpoints ctx). fst (HandlerWithSnapshot ops rnd b policy ctx) = Some e"
  proof (cases b)
    case Rand
    with ne ready show ?thesis by (auto simp: in_tree_ready_def HandlerWithSnapshot_def Rand_pick_def Let_def)
  next
    case RoundRobin
    with ne ready show ?thesis
      using RoundRobin_member [OF ne] by (simp add: in_tree_ready_def HandlerWithSnapshot_def)
  next
    case WeightRandom
    with ne ready show ?thesis
      using WeightRandom_member [OF ne] by (simp add: in_tree_ready_def HandlerWithSnapshot_def)
  next
    case RingHashing
    with ne ready hash_member [OF ne, of b ops] show ?thesis by (auto simp: in_tree_ready_def)
  next
    case MaglevHash
    with ne ready hash_member [OF ne, of b ops] show ?thesis by (auto simp: in_tree_ready_def)
  qed
qed

text \<open>
  C36: the balancers of the tree always find an endpoint. On a context of a consistent snapshot a
  ready balancer chooses a healthy endpoint and the pick path returns exactly this endpoint; without
  healthy endpoints it returns none. A random balancer is ready when random numbers are in range,
  round robin below 2^32 endpoints, a hash balancer when there is a policy, a view and a host for
  the key.
\<close>

theorem in_tree_picks:
  assumes "ctx_ok ctx" and "Config ctx \<noteq> None" and "in_tree_ready ops rnd b policy ctx"
  shows "if ctx_HealthyEndpoints ctx = []
    then fst (pickEndpoint fs (Some (SnapshotBalancer True (HandlerWithSnapshot ops rnd b policy))) ctx) = None
    else \<exists>e \<in> set (ctx_HealthyEndpoints ctx).
      fst (HandlerWithSnapshot ops rnd b policy ctx) = Some e
      \<and> fst (pickEndpoint fs (Some (SnapshotBalancer True (HandlerWithSnapshot ops rnd b policy))) ctx) = Some e"
  using in_tree_lb.pick_refused in_tree_lb.pick_accepted [OF assms(1,2) _ assms(3)] by auto

section \<open>Round robin\<close>

text \<open>Consecutive picks.\<close>

fun rr_picks :: "nat \<Rightarrow> 'h PickContext \<Rightarrow> Endpoint option list" where
  "rr_picks 0 ctx = []"
| "rr_picks (Suc k) ctx = (let (e, ctx) = RoundRobin_pick ctx in e # rr_picks k ctx)"

lemma RoundRobin_step:
  assumes "RoundRobinCursor ctx = Some c" and "ctx_HealthyEndpoints ctx \<noteq> []"
    and "length (ctx_HealthyEndpoints ctx) < 2 ^ 32"
  shows "RoundRobin_pick ctx =
    (Some (ctx_HealthyEndpoints ctx ! (unat c mod length (ctx_HealthyEndpoints ctx))),
     ctx\<lparr>RoundRobinCursor := Some (c + 1)\<rparr>)"
  using assms by (simp add: RoundRobin_pick_def Let_def unat_mod unat_size)

lemma rr_picks_indices:
  assumes "RoundRobinCursor ctx = Some c" and "ctx_HealthyEndpoints ctx \<noteq> []"
    and "length (ctx_HealthyEndpoints ctx) < 2 ^ 32"
  shows "rr_picks k ctx =
    map (\<lambda>i. Some (ctx_HealthyEndpoints ctx ! ((unat c + i) mod 2 ^ 32 mod length (ctx_HealthyEndpoints ctx)))) [0..<k]"
  using assms
proof (induction k arbitrary: ctx c)
  case 0
  then show ?case by simp
next
  case (Suc k)
  let ?ctx = "ctx\<lparr>RoundRobinCursor := Some (c + 1)\<rparr>"
  have step: "rr_picks (Suc k) ctx =
      Some (ctx_HealthyEndpoints ctx ! (unat c mod length (ctx_HealthyEndpoints ctx))) # rr_picks k ?ctx"
    using RoundRobin_step [OF Suc.prems] by simp
  have "(unat (c + 1) + i) mod 2 ^ 32 = (unat c + Suc i) mod 2 ^ 32" for i
    by (simp add: unat_word_ariths mod_simps)
  moreover have "unat c mod 2 ^ 32 = unat c" using unsigned_less [of c, where ?'a = nat] by simp
  ultimately show ?case
    unfolding step map_upt_Suc using Suc.IH [of ?ctx "c + 1"] Suc.prems by simp
qed

lemma mset_rotation:
  assumes "0 < n"
  shows "mset (map (\<lambda>i. (c + i) mod n) [0..<n]) = mset [0..<n :: nat]"
proof -
  have "inj_on (\<lambda>i. (c + i) mod n) {..<n}"
  proof (rule inj_onI)
    fix i j assume "i \<in> {..<n}" "j \<in> {..<n}" "(c + i) mod n = (c + j) mod n"
    then show "i = j" using mod_step_inj [of 1 n c i j] by simp
  qed
  then have "distinct (map (\<lambda>i. (c + i) mod n) [0..<n])" by (simp add: distinct_map lessThan_atLeast0)
  moreover have "(\<lambda>i. (c + i) mod n) ` {..<n} = {..<n}"
    using \<open>inj_on _ _\<close> assms by (intro endo_inj_surj) auto
  ultimately show ?thesis by (intro set_eq_iff_mset_eq_distinct [THEN iffD1]) (auto simp: lessThan_atLeast0)
qed

text \<open>
  C37: round robin is fair. Consecutive picks on a snapshot take its healthy endpoints in cyclic order
  from the cursor on; the 32-bit cursor wraps. As long as it does not wrap within a round, every round
  of as many picks as there are healthy endpoints takes each of them once.
\<close>

theorem round_robin_fair:
  assumes "RoundRobinCursor ctx = Some c" and "ctx_HealthyEndpoints ctx \<noteq> []"
    and "length (ctx_HealthyEndpoints ctx) < 2 ^ 32"
  shows "rr_picks k ctx = map (\<lambda>i. Some (ctx_HealthyEndpoints ctx !
        ((unat c + i) mod 2 ^ 32 mod length (ctx_HealthyEndpoints ctx)))) [0..<k]
    \<and> (unat c + length (ctx_HealthyEndpoints ctx) \<le> 2 ^ 32 \<longrightarrow>
        mset (rr_picks (length (ctx_HealthyEndpoints ctx)) ctx) = mset (map Some (ctx_HealthyEndpoints ctx)))"
proof (intro conjI impI)
  let ?es = "ctx_HealthyEndpoints ctx"
  show "rr_picks k ctx = map (\<lambda>i. Some (?es ! ((unat c + i) mod 2 ^ 32 mod length ?es))) [0..<k]"
    by (rule rr_picks_indices [OF assms])
  assume "unat c + length ?es \<le> 2 ^ 32"
  then have "rr_picks (length ?es) ctx =
      map (\<lambda>j. Some (?es ! j)) (map (\<lambda>i. (unat c + i) mod length ?es) [0..<length ?es])"
    unfolding rr_picks_indices [OF assms] by simp
  then have "mset (rr_picks (length ?es) ctx) = image_mset (\<lambda>j. Some (?es ! j)) (mset [0..<length ?es])"
    using mset_rotation [of "length ?es" "unat c"] assms(2)
    by (simp only: mset_map length_greater_0_conv not_False_eq_True simp_thms)
  also have "\<dots> = mset (map Some (map (\<lambda>j. ?es ! j) [0..<length ?es]))" by (simp add: comp_def)
  finally show "mset (rr_picks (length ?es) ctx) = mset (map Some ?es)" by (simp only: map_nth)
qed

section \<open>Weights\<close>

definition weights :: "Endpoint list \<Rightarrow> int" where
  "weights es = sum_list (map weight_of es)"

lemma weight_of_nonneg: "0 \<le> weight_of e"
  by (simp add: weight_of_def split: option.split)

lemma weights_nonneg: "0 \<le> weights es"
  by (auto simp: weights_def intro!: sum_list_nonneg simp: weight_of_nonneg)

lemma weights_Cons [simp]: "weights (e # es) = weight_of e + weights es" "weights [] = 0"
  by (simp_all add: weights_def)

lemma wrap64_nonneg: "0 \<le> i \<Longrightarrow> i < 2 ^ 63 \<Longrightarrow> wrap64 i = i"
  by (rule wrap64_id) (simp add: in_int64_def)

lemma total_weight_sum:
  "0 \<le> t \<Longrightarrow> t + weights es < 2 ^ 63 \<Longrightarrow> total_weight t es = t + weights es"
proof (induction es arbitrary: t)
  case (Cons e es)
  have "0 \<le> t + weight_of e" "t + weight_of e < 2 ^ 63"
    using Cons.prems weight_of_nonneg [of e] weights_nonneg [of es] by auto
  with Cons show ?case by (simp add: wrap64_nonneg)
qed simp

text \<open>The numbers that choose an endpoint form an interval as long as its weight.\<close>

lemma weighted_choice_interval:
  assumes "distinct es" "i < length es" and "0 \<le> s" "s + weights es < 2 ^ 63" and "s \<le> r"
  shows "weighted_choice r s es = Some (es ! i) \<longleftrightarrow>
    s + weights (take i es) \<le> r \<and> r < s + weights (take (Suc i) es)"
  using assms
proof (induction es arbitrary: s i)
  case (Cons e es)
  have w: "0 \<le> s + weight_of e" "s + weight_of e < 2 ^ 63"
    using Cons.prems weight_of_nonneg [of e] weights_nonneg [of es] by auto
  show ?case
  proof (cases i)
    case 0
    have "weighted_choice r (s + weight_of e) es \<noteq> Some e"
      using Cons.prems(1) weighted_choice_member by force
    with 0 w Cons.prems show ?thesis by (simp add: Let_def wrap64_nonneg)
  next
    case (Suc k)
    have ne: "e \<noteq> es ! k" using Cons.prems(1,2) Suc by auto
    have "0 \<le> weights (take k es)" by (rule weights_nonneg)
    show ?thesis
    proof (cases "r < s + weight_of e")
      case True
      with w ne Suc \<open>0 \<le> weights (take k es)\<close> show ?thesis by (simp add: Let_def wrap64_nonneg)
    next
      case False
      then have "weighted_choice r (s + weight_of e) es = Some (es ! k) \<longleftrightarrow>
          s + weight_of e + weights (take k es) \<le> r \<and> r < s + weight_of e + weights (take (Suc k) es)"
        using Cons.prems w Suc by (intro Cons.IH) auto
      with False w Suc show ?thesis by (simp add: Let_def wrap64_nonneg add.assoc)
    qed
  qed
qed simp

text \<open>
  C38: weights are respected. When the weights of the healthy endpoints add up to a positive number
  below 2^63, the number of random draws that choose an endpoint is exactly its weight (zero for a
  missing, malformed or negative one), out of as many draws as the weights add up to.
\<close>

theorem weight_random_shares:
  assumes "distinct (ctx_HealthyEndpoints ctx)" and "e \<in> set (ctx_HealthyEndpoints ctx)"
    and "0 < weights (ctx_HealthyEndpoints ctx)" "weights (ctx_HealthyEndpoints ctx) < 2 ^ 63"
  shows "int (card {r. int r < weights (ctx_HealthyEndpoints ctx)
    \<and> fst (WeightRandom_pick (\<lambda>n. r) ctx) = Some e}) = weight_of e"
proof -
  let ?es = "ctx_HealthyEndpoints ctx"
  obtain i where i: "i < length ?es" "?es ! i = e" using assms(2) by (metis in_set_conv_nth)
  have tw: "total_weight 0 ?es = weights ?es" using assms(4) by (simp add: total_weight_sum)
  have ne: "?es \<noteq> []" using assms(2) by auto
  have "weights ?es = weights (take (Suc i) ?es) + weights (drop (Suc i) ?es)"
    by (metis append_take_drop_id map_append sum_list_append weights_def)
  then have le: "weights (take (Suc i) ?es) \<le> weights ?es" using weights_nonneg [of "drop (Suc i) ?es"] by simp
  have step: "weights (take (Suc i) ?es) = weights (take i ?es) + weight_of e"
    using i by (simp add: weights_def take_Suc_conv_app_nth)
  have some: "weighted_choice (int r) 0 ?es \<noteq> None" if "int r < weights ?es" for r
  proof -
    have "weighted_choice r s es \<noteq> None" if "0 \<le> s" "r < s + weights es" "s + weights es < 2 ^ 63" "s \<le> r" for r s es
      using that
    proof (induction es arbitrary: s)
      case (Cons a es)
      then show ?case using weight_of_nonneg [of a] weights_nonneg [of es]
        by (cases "r < s + weight_of a") (auto simp: Let_def wrap64_nonneg)
    qed simp
    with that assms(4) show ?thesis by force
  qed
  have "fst (WeightRandom_pick (\<lambda>n. r) ctx) = Some e \<longleftrightarrow>
      weights (take i ?es) \<le> int r \<and> int r < weights (take (Suc i) ?es)" if "int r < weights ?es" for r
  proof -
    have "fst (WeightRandom_pick (\<lambda>n. r) ctx) = weighted_choice (int r) 0 ?es"
      using some [OF that] ne assms(3) tw by (auto simp: WeightRandom_pick_def Let_def)
    with weighted_choice_interval [OF assms(1) i(1), of 0 "int r"] i(2) assms(4) show ?thesis by simp
  qed
  then have "{r. int r < weights ?es \<and> fst (WeightRandom_pick (\<lambda>n. r) ctx) = Some e} =
      {nat (weights (take i ?es))..<nat (weights (take (Suc i) ?es))}"
    using le weights_nonneg [of "take i ?es"] by (auto simp: nat_le_iff zless_nat_eq_int_zless)
  then show ?thesis
    using step weight_of_nonneg [of e] weights_nonneg [of "take i ?es"] by (simp add: nat_diff_distrib)
qed

section \<open>Consistent hashing\<close>

lemma same_hosts:
  "list_all2 sameEndpointHostForConsistentHash es es' \<Longrightarrow> map GetHost es = map GetHost es'"
  by (induction es es' rule: list_all2_induct)
    (simp_all add: sameEndpointHostForConsistentHash_def GetHost_def)

interpretation in_tree_hash: host_factories "ConsistentHashInitMap ops" for ops :: "'r hash_ops"
proof
  fix lb f and c c' :: "'r lb_hash ConsistentHash" and es es' :: "Endpoint list"
  assume f: "ConsistentHashInitMap ops lb = Some f" and c: "sameConsistentHashConfig c c'"
    and es: "list_all2 sameEndpointHostForConsistentHash es es'"
  have ring: "NewRingHash ops d (map Some es) = NewRingHash ops d' (map Some es')"
    if "ReplicaNum d = ReplicaNum d'" "MaxVnodeNum d = MaxVnodeNum d'" for d d'
    using that same_hosts [OF es] by (simp add: NewRingHash_def)
  have "NewMaglevHash ops c (map Some es) = NewMaglevHash ops c' (map Some es')"
    using c same_hosts [OF es] list_all2_lengthD [OF es]
    by (auto simp: NewMaglevHash_def sameConsistentHashConfig_def intro!: ring split: sum.split)
  moreover have "NewRingHash ops c (map Some es) = NewRingHash ops c' (map Some es')"
    using c by (intro ring) (simp_all add: sameConsistentHashConfig_def)
  ultimately show "f c (map Some es) = f c' (map Some es')"
    using f by (auto simp: ConsistentHashInitMap_def split: if_splits)
qed


lemma GetHost_nonempty [simp]: "GetHost e \<noteq> []" "[] \<noteq> GetHost e"
  by (simp_all add: GetHost_def)


section \<open>Examples\<close>

definition sample_ops :: "unit hash_ops" where
  "sample_ops = \<lparr>newRing = (\<lambda>r v hosts. ()), ringHash = (\<lambda>r s. 0), ringGet = (\<lambda>r s. Inl ''''),
     ringGetHash = (\<lambda>r k. Inl ''''), op_blake2b = (\<lambda>s. 5), op_xxhash = (\<lambda>s. 9), op_order = (\<lambda>bs. bs)\<rparr>"

definition weighted :: "string \<Rightarrow> string \<Rightarrow> Endpoint" where
  "weighted i w = (plain_endpoint i ''h'' 1)\<lparr>ep_Metadata := [(''weight'', w)]\<rparr>"

definition sample_ctx :: "unit lb_hash PickContext" where
  "sample_ctx = \<lparr>Config = Some \<lparr>cc_Name = ''c'', TypeStr = '''', cc_Type = 0, eds_ServiceName = '''',
        LbStr = ''MaglevHashing'',
        cc_ConsistentHash = \<lparr>ReplicaNum = 0, MaxVnodeNum = 0, MaglevTableSize = 7, ch_Hash = None\<rparr>,
        HealthChecks = [], Endpoints = [], PrePickEndpointIndex = 0, ConfigID = 1\<rparr>,
      ctx_HealthyConsistentHash = None, ctx_AllEndpoints = None,
      ctx_HealthyEndpoints = [weighted ''a'' ''2'', weighted ''b'' ''3''],
      RoundRobinCursor = Some 4294967295, HealthyByID = None\<rparr>"

lemma sample_ctx_ok: "ctx_ok sample_ctx" "Config sample_ctx \<noteq> None"
  "ctx_HealthyEndpoints sample_ctx = [weighted ''a'' ''2'', weighted ''b'' ''3'']"
  "RoundRobinCursor sample_ctx = Some 4294967295"
  by (simp_all add: ctx_ok_def sample_ctx_def)

theorem pick_is_healthy_witness:
  "fst (pickEndpoint (\<lambda>lb. None) (Some (LegacyBalancer (\<lambda>c. (Some (weighted ''a'' ''7''), c)))) sample_ctx)
     = Some (weighted ''a'' ''2'')
   \<and> weighted ''a'' ''2'' \<in> set (ctx_HealthyEndpoints sample_ctx)"
proof -
  have "fst (pickEndpoint (\<lambda>lb. None) (Some (LegacyBalancer (\<lambda>c. (Some (weighted ''a'' ''7''), c)))) sample_ctx)
     = Some (weighted ''a'' ''2'')"
    by (simp add: pickEndpoint_def legacy_pick_def sample_ctx_def EnsureConsistentHash_def
        CreateConsistentHash_def healthyEndpointFromSnapshot_def weighted_def plain_endpoint_def
        sameEndpointIdentity_def isBlankDomainPlaceholderAddress_def Let_def)
  with pick_is_healthy [OF sample_ctx_ok(1) this] show ?thesis by simp
qed

theorem in_tree_picks_witness:
  "\<exists>e \<in> set (ctx_HealthyEndpoints sample_ctx).
     fst (pickEndpoint (\<lambda>lb. None)
       (Some (SnapshotBalancer True (HandlerWithSnapshot sample_ops (\<lambda>n. 0) RoundRobin None))) sample_ctx) = Some e"
  using in_tree_picks [OF sample_ctx_ok(1,2), of sample_ops "\<lambda>n. 0" RoundRobin None "\<lambda>lb. None"]
  by (auto simp: in_tree_ready_def sample_ctx_ok)

theorem round_robin_fair_witness:
  "rr_picks 3 sample_ctx =
     [Some (weighted ''b'' ''3''), Some (weighted ''a'' ''2''), Some (weighted ''b'' ''3'')]"
  using round_robin_fair [OF sample_ctx_ok(4), of 3]
  by (simp add: sample_ctx_ok upt_rec numeral_2_eq_2 [symmetric])

theorem weight_random_shares_witness:
  "int (card {r. int r < 5 \<and> fst (WeightRandom_pick (\<lambda>n. r) sample_ctx) = Some (weighted ''a'' ''2'')}) = 2"
proof -
  have w: "weight_of (weighted ''a'' ''2'') = 2" "weight_of (weighted ''b'' ''3'') = 3"
    by (code_simp, code_simp)
  then have "weights (ctx_HealthyEndpoints sample_ctx) = 5" by (simp add: sample_ctx_ok)
  with weight_random_shares [of sample_ctx "weighted ''a'' ''2''"] w show ?thesis
    by (simp add: sample_ctx_ok weighted_def plain_endpoint_def)
qed



end
