(* ===== verification/Pixiu_ClusterManager.thy ===== *)
theory Pixiu_ClusterManager
  imports Pixiu_StoreRepair Pixiu_Balancers "HOL-Library.Char_ord" "HOL-Library.List_Lexorder"
begin

text \<open>
  The cluster manager: \<open>ClusterManager\<close> of \<open>pkg/server/cluster_manager.go\<close>, over the store of
  \<open>Pixiu_ClusterStore\<close>, the runtimes of \<open>Pixiu_Snapshots\<close> and the balancers of \<open>Pixiu_Balancers\<close>.
  Operations hold the lock of the manager, so they are steps on the system state: the process, the
  manager, and the calls made to the registered endpoint handlers. A handler is its number; a
  panic is \<open>None\<close>, an error is \<open>Inl\<close>. Sets of names are lists without duplicates; the order in which Go
  iterates over a map is the order of the list, and no property depends on it.
\<close>

section \<open>Endpoint events\<close>

type_synonym addresses = "(string \<times> string list) list"

definition has_address :: "addresses \<Rightarrow> string \<Rightarrow> string \<Rightarrow> bool" where
  "has_address m name address =
     (case map_of m name of None \<Rightarrow> False | Some as \<Rightarrow> address \<in> set as)"

definition add_addresses :: "'h ClusterConfig \<Rightarrow> addresses \<Rightarrow> addresses" where
  "add_addresses config result =
     (let old = (case map_of result (cc_Name config) of None \<Rightarrow> [] | Some as \<Rightarrow> as)
      in AList.update (cc_Name config)
           (fold (\<lambda>e as. List.insert (GetAddress (ep_Address e)) as) (somes (Endpoints config)) old) result)"

definition endpointAddressSnapshot :: "'h ClusterConfig option list \<Rightarrow> addresses" where
  "endpointAddressSnapshot cs = fold add_addresses (somes cs) []"

record endpointStateChange =
  ch_clusterName :: string
  ch_address :: string
  present :: bool
  ch_version :: "64 word"

definition endpointStateChanges :: "addresses \<Rightarrow> addresses \<Rightarrow> 64 word \<Rightarrow> endpointStateChange list" where
  "endpointStateChanges old new ver =
     concat (map (\<lambda>(name, as). map (\<lambda>a. \<lparr>ch_clusterName = name, ch_address = a, present = False, ch_version = ver\<rparr>)
       (filter (\<lambda>a. \<not> has_address new name a) as)) old)
     @ concat (map (\<lambda>(name, as). map (\<lambda>a. \<lparr>ch_clusterName = name, ch_address = a, present = True, ch_version = ver\<rparr>)
       (filter (\<lambda>a. \<not> has_address old name a) as)) new)"

text \<open>\<open>removedEndpointAddresses\<close> remembers what it reported under a key joined with a NUL byte.\<close>

definition removal_key :: "string \<Rightarrow> string \<Rightarrow> string" where
  "removal_key name address = name @ [CHR 0x00] @ address"

fun removals_of :: "addresses \<Rightarrow> string \<Rightarrow> string list \<Rightarrow> string list \<Rightarrow> (string \<times> string) list \<times> string list" where
  "removals_of new name seen [] = ([], seen)"
| "removals_of new name seen (a # as) =
     (if has_address new name a then removals_of new name seen as
      else if removal_key name a \<in> set seen then removals_of new name seen as
      else (let (rs, seen) = removals_of new name (removal_key name a # seen) as in ((name, a) # rs, seen)))"

fun removals :: "addresses \<Rightarrow> string list \<Rightarrow> 'h ClusterConfig list \<Rightarrow> (string \<times> string) list" where
  "removals new seen [] = []"
| "removals new seen (c # cs) =
     (let (rs, seen) = removals_of new (cc_Name c) seen (map (\<lambda>e. GetAddress (ep_Address e)) (somes (Endpoints c)))
      in rs @ removals new seen cs)"

definition removedEndpointAddresses ::
    "'h ClusterConfig option list \<Rightarrow> 'h ClusterConfig option list \<Rightarrow> (string \<times> string) list" where
  "removedEndpointAddresses oldConfigs newConfigs =
     removals (endpointAddressSnapshot newConfigs) [] (somes oldConfigs)"

section \<open>The manager\<close>

record 'h ClusterManager =
  cm_store :: "'h ClusterStore"
  xdsManaged :: "string list"
  endpointRemovalHandlers :: "64 word list"
  endpointStateHandlers :: "64 word list"
  nextEndpointHandlerID :: "64 word"
  nextEndpointEventID :: "64 word"

datatype handler_call = StateCall "64 word" endpointStateChange | RemovalCall "64 word" string string

record 'h system =
  proc :: "'h process"
  mgr :: "'h ClusterManager"
  calls :: "handler_call list"

definition AddEndpointRemovalHandler :: "'h ClusterManager \<Rightarrow> 64 word \<times> 'h ClusterManager" where
  "AddEndpointRemovalHandler cm =
     (let i = nextEndpointHandlerID cm + 1
      in (i, cm\<lparr>nextEndpointHandlerID := i,
             endpointRemovalHandlers := List.insert i (endpointRemovalHandlers cm)\<rparr>))"

definition RemoveEndpointRemovalHandler :: "64 word \<Rightarrow> 'h ClusterManager \<Rightarrow> 'h ClusterManager" where
  "RemoveEndpointRemovalHandler i cm =
     cm\<lparr>endpointRemovalHandlers := removeAll i (endpointRemovalHandlers cm)\<rparr>"

definition AddEndpointStateHandler :: "'h ClusterManager \<Rightarrow> 64 word \<times> 'h ClusterManager" where
  "AddEndpointStateHandler cm =
     (let i = nextEndpointHandlerID cm + 1
      in (i, cm\<lparr>nextEndpointHandlerID := i,
             endpointStateHandlers := List.insert i (endpointStateHandlers cm)\<rparr>))"

definition RemoveEndpointStateHandler :: "64 word \<Rightarrow> 'h ClusterManager \<Rightarrow> 'h ClusterManager" where
  "RemoveEndpointStateHandler i cm =
     cm\<lparr>endpointStateHandlers := removeAll i (endpointStateHandlers cm)\<rparr>"

definition notifyEndpointRemovals :: "(string \<times> string) list \<Rightarrow> 'h system \<Rightarrow> 'h system" where
  "notifyEndpointRemovals rs sys =
     sys\<lparr>calls := calls sys @ concat (map (\<lambda>(name, address).
       if address = '''' then []
       else map (\<lambda>h. RemovalCall h name address) (endpointRemovalHandlers (mgr sys))) rs)\<rparr>"

definition notifyEndpointRemoval :: "string \<Rightarrow> string \<Rightarrow> 'h system \<Rightarrow> 'h system" where
  "notifyEndpointRemoval name address sys = notifyEndpointRemovals [(name, address)] sys"

definition notifyEndpointChanges :: "endpointStateChange list \<Rightarrow> 'h system \<Rightarrow> 'h system" where
  "notifyEndpointChanges changes sys =
     sys\<lparr>calls := calls sys @ concat (map (\<lambda>change.
       map (\<lambda>h. StateCall h change) (endpointStateHandlers (mgr sys)) @
       (if present change then []
        else map (\<lambda>h. RemovalCall h (ch_clusterName change) (ch_address change))
               (endpointRemovalHandlers (mgr sys)))) changes)\<rparr>"

definition nextEndpointEventIDLocked :: "'h ClusterManager \<Rightarrow> 64 word \<times> 'h ClusterManager" where
  "nextEndpointEventIDLocked cm =
     (nextEndpointEventID cm + 1, cm\<lparr>nextEndpointEventID := nextEndpointEventID cm + 1\<rparr>)"

definition releaseXDSOwnership :: "string \<Rightarrow> 'h ClusterManager \<Rightarrow> 'h ClusterManager" where
  "releaseXDSOwnership name cm =
     (if name \<noteq> '''' then cm\<lparr>xdsManaged := removeAll name (xdsManaged cm)\<rparr> else cm)"

fun add_clusters :: "'h factories \<Rightarrow> 'h ClusterConfig list \<Rightarrow> 'h process \<Rightarrow> 'h ClusterStore \<Rightarrow> 'h process \<times> 'h ClusterStore" where
  "add_clusters fs [] p s = (p, s)"
| "add_clusters fs (c # cs) p s = (let (c, p, s) = store_AddCluster fs c p s in add_clusters fs cs p s)"

definition newClusterStore ::
    "'h factories \<Rightarrow> 'h ClusterConfig list \<Rightarrow> 'h process \<Rightarrow> 'h process \<times> 'h ClusterStore" where
  "newClusterStore fs clusters p =
     add_clusters fs clusters p \<lparr>st_Config = [], Version = 0, clustersMap = []\<rparr>"

definition CreateDefaultClusterManager ::
    "'h factories \<Rightarrow> 'h ClusterConfig list \<Rightarrow> 'h process \<Rightarrow> 'h system" where
  "CreateDefaultClusterManager fs clusters p =
     (let (p, s) = newClusterStore fs clusters p
      in \<lparr>proc = p, mgr = \<lparr>cm_store = s, xdsManaged = [], endpointRemovalHandlers = [],
            endpointStateHandlers = [], nextEndpointHandlerID = 0, nextEndpointEventID = 0\<rparr>, calls = []\<rparr>)"

subsection \<open>Clusters\<close>

definition AddCluster :: "'h factories \<Rightarrow> 'h ClusterConfig \<Rightarrow> 'h system \<Rightarrow> 'h system" where
  "AddCluster fs c sys =
     (let cm = releaseXDSOwnership (cc_Name c) (mgr sys);
          old = endpointAddressSnapshot ([] :: 'h ClusterConfig option list);
          (ver, cm) = nextEndpointEventIDLocked cm;
          (c, p, s) = store_AddCluster fs c (proc sys) (IncreaseVersion (cm_store cm));
          new = endpointAddressSnapshot [Some c]
      in notifyEndpointChanges (endpointStateChanges old new ver)
           (sys\<lparr>proc := p, mgr := cm\<lparr>cm_store := s\<rparr>\<rparr>))"

definition UpdateCluster :: "'h factories \<Rightarrow> 'h ClusterConfig \<Rightarrow> 'h system \<Rightarrow> 'h system" where
  "UpdateCluster fs c sys =
     (let cm = releaseXDSOwnership (cc_Name c) (mgr sys);
          oldConfig = findClusterConfig (cc_Name c) (cm_store cm);
          old = endpointAddressSnapshot [oldConfig];
          new = (if oldConfig \<noteq> None then endpointAddressSnapshot [Some c] else old);
          (ver, cm) = nextEndpointEventIDLocked cm;
          (p, s) = store_UpdateCluster fs c (proc sys) (IncreaseVersion (cm_store cm))
      in notifyEndpointChanges (endpointStateChanges old new ver)
           (sys\<lparr>proc := p, mgr := cm\<lparr>cm_store := s\<rparr>\<rparr>))"

definition SetEndpoint :: "'h factories \<Rightarrow> string \<Rightarrow> Endpoint option \<Rightarrow> 'h system \<Rightarrow> 'h system" where
  "SetEndpoint fs name endpoint sys =
     (let cm = releaseXDSOwnership name (mgr sys);
          old = endpointAddressSnapshot [findClusterConfig name (cm_store cm)];
          (ver, cm) = nextEndpointEventIDLocked cm;
          (_, p, s) = store_SetEndpoint fs name endpoint (proc sys) (IncreaseVersion (cm_store cm));
          new = endpointAddressSnapshot [findClusterConfig name s]
      in notifyEndpointChanges (endpointStateChanges old new ver)
           (sys\<lparr>proc := p, mgr := cm\<lparr>cm_store := s\<rparr>\<rparr>))"

definition DeleteEndpoint :: "'h factories \<Rightarrow> string \<Rightarrow> string \<Rightarrow> 'h system \<Rightarrow> 'h system option" where
  "DeleteEndpoint fs name endpointID sys =
     (let cm = releaseXDSOwnership name (mgr sys);
          old = endpointAddressSnapshot [findClusterConfig name (cm_store cm)];
          (ver, cm) = nextEndpointEventIDLocked cm
      in case store_DeleteEndpoint fs name endpointID (proc sys) (IncreaseVersion (cm_store cm)) of
           None \<Rightarrow> None
         | Some (p, s) \<Rightarrow>
             (let new = endpointAddressSnapshot [findClusterConfig name s]
              in Some (notifyEndpointChanges (endpointStateChanges old new ver)
                   (sys\<lparr>proc := p, mgr := cm\<lparr>cm_store := s\<rparr>\<rparr>))))"

subsection \<open>Clusters of xDS\<close>

text \<open>The errors that \<open>fmt.Errorf\<close> words.\<close>

datatype xds_error = NoName | Duplicate string | Conflict string

definition UpsertXDSCluster ::
    "'h factories \<Rightarrow> 'h ClusterConfig option \<Rightarrow> 'h system \<Rightarrow> ((xds_error + unit) \<times> 'h system) option" where
  "UpsertXDSCluster fs config sys =
     (case config of
        None \<Rightarrow> Some (Inl NoName, sys)
      | Some c \<Rightarrow>
          if cc_Name c = '''' then Some (Inl NoName, sys)
          else
            (let cm = mgr sys; owned = (cc_Name c \<in> set (xdsManaged cm))
             in case store_HasCluster (cc_Name c) (cm_store cm) of
                  None \<Rightarrow> None
                | Some has \<Rightarrow>
                    if has \<and> \<not> owned then Some (Inl (Conflict (cc_Name c)), sys)
                    else
                      (let s = IncreaseVersion (cm_store cm)
                       in if owned then
                            (let (p, s) = store_UpdateCluster fs c (proc sys) s
                             in Some (Inr (), sys\<lparr>proc := p, mgr := cm\<lparr>cm_store := s\<rparr>\<rparr>))
                          else
                            (let (c, p, s) = store_AddCluster fs c (proc sys) s
                             in Some (Inr (), sys\<lparr>proc := p, mgr := cm\<lparr>cm_store := s,
                                  xdsManaged := List.insert (cc_Name c) (xdsManaged cm)\<rparr>\<rparr>)))))"

text \<open>The part of the store that xDS does not own, kept as it is.\<close>

definition static_configs :: "'h ClusterManager \<Rightarrow> 'h ClusterConfig list" where
  "static_configs cm = filter (\<lambda>c. cc_Name c \<notin> set (xdsManaged cm)) (somes (st_Config (cm_store cm)))"

fun static_runtimes :: "(string \<times> nat) list \<Rightarrow> 'h ClusterConfig list \<Rightarrow> (string \<times> nat) list \<Rightarrow> (string \<times> nat) list" where
  "static_runtimes old [] m = m"
| "static_runtimes old (c # cs) m =
     static_runtimes old cs
       (case map_of old (cc_Name c) of None \<Rightarrow> m | Some r \<Rightarrow> AList.update (cc_Name c) r m)"

fun validate_xds :: "string list \<Rightarrow> string list \<Rightarrow> 'h ClusterConfig option list \<Rightarrow> xds_error + string list" where
  "validate_xds static managed [] = Inr managed"
| "validate_xds static managed (None # cs) = Inl NoName"
| "validate_xds static managed (Some c # cs) =
     (if cc_Name c = '''' then Inl NoName
      else if cc_Name c \<in> set managed then Inl (Duplicate (cc_Name c))
      else if cc_Name c \<in> set static then Inl (Conflict (cc_Name c))
      else validate_xds static (managed @ [cc_Name c]) cs)"

fun build_xds ::
    "'h factories \<Rightarrow> 'h ClusterStore \<Rightarrow> 'h ClusterConfig list \<Rightarrow> 'h process \<Rightarrow> 'h ClusterStore
     \<Rightarrow> 'h process \<times> 'h ClusterStore" where
  "build_xds fs current [] p s = (p, s)"
| "build_xds fs current (c # cs) p s =
     (let (c, p) = prepareClusterConfig fs c p;
          s = s\<lparr>st_Config := st_Config s @ [Some c]\<rparr>;
          (previous, p) = snapshotForRuntimeReplacement current (cc_Name c) p;
          (_, p, s) = replaceClusterRuntimeWithSnapshot fs (cc_Name c) c previous p s
      in build_xds fs current cs p s)"

definition ReplaceXDSClusters ::
    "'h factories \<Rightarrow> 'h ClusterConfig option list \<Rightarrow> 'h system \<Rightarrow> (xds_error + unit) \<times> 'h system" where
  "ReplaceXDSClusters fs clusters sys =
     (let cm = mgr sys; current = cm_store cm;
          oldEndpoints = endpointAddressSnapshot (st_Config current);
          static = static_configs cm;
          candidate = \<lparr>st_Config = map Some static, Version = Version current,
            clustersMap = static_runtimes (clustersMap current) static []\<rparr>
      in case validate_xds (map cc_Name static) [] clusters of
           Inl err \<Rightarrow> (Inl err, sys)
         | Inr newManaged \<Rightarrow>
             (let (p, candidate) = build_xds fs current (somes clusters) (proc sys) candidate;
                  candidate = IncreaseVersion candidate;
                  newEndpoints = endpointAddressSnapshot (st_Config candidate);
                  (ver, cm) = nextEndpointEventIDLocked cm;
                  changes = endpointStateChanges oldEndpoints newEndpoints ver;
                  replaced = map (map_of (clustersMap current)) (xdsManaged cm);
                  cm = cm\<lparr>cm_store := candidate, xdsManaged := newManaged\<rparr>
              in (Inr (), notifyEndpointChanges changes
                    (sys\<lparr>proc := stopClusters replaced p, mgr := cm\<rparr>))))"

definition XDSClusterNames :: "'h ClusterManager \<Rightarrow> string list" where
  "XDSClusterNames cm = sort (xdsManaged cm)"

subsection \<open>Removal\<close>

text \<open>
  The loops of \<open>removeClustersLocked\<close>: a configuration at a position, and the names to delete. A name
  that occurs twice finds the configuration gone and dereferences nil.
\<close>

fun remove_names ::
    "string list \<Rightarrow> nat \<Rightarrow> string \<Rightarrow> 'h process \<Rightarrow> 'h ClusterStore \<Rightarrow> ('h process \<times> 'h ClusterStore) option" where
  "remove_names [] i name p s = Some (p, s)"
| "remove_names (n # ns) i name p s =
     (if n = name then
        (case st_Config s ! i of
           None \<Rightarrow> None
         | Some removed \<Rightarrow>
             (let p = stopClusters [map_of (clustersMap s) (cc_Name removed)] p
              in remove_names ns i name p
                   (s\<lparr>st_Config := (st_Config s)[i := None],
                      clustersMap := AList.delete (cc_Name removed) (clustersMap s)\<rparr>)))
      else remove_names ns i name p s)"

fun remove_loop ::
    "string list \<Rightarrow> nat \<Rightarrow> 'h ClusterConfig option list \<Rightarrow> 'h process \<Rightarrow> 'h ClusterStore
     \<Rightarrow> ('h process \<times> 'h ClusterStore) option" where
  "remove_loop namesToDel i [] p s = Some (p, s)"
| "remove_loop namesToDel i (None # cs) p s = remove_loop namesToDel (i + 1) cs p s"
| "remove_loop namesToDel i (Some c # cs) p s =
     (case remove_names namesToDel i (cc_Name c) p s of
        None \<Rightarrow> None
      | Some (p, s) \<Rightarrow> remove_loop namesToDel (i + 1) cs p s)"

definition removeClustersLocked ::
    "string list \<Rightarrow> 'h process \<Rightarrow> 'h ClusterStore \<Rightarrow> ('h process \<times> 'h ClusterStore) option" where
  "removeClustersLocked namesToDel p s =
     (case remove_loop namesToDel 0 (st_Config s) p s of
        None \<Rightarrow> None
      | Some (p, s) \<Rightarrow> Some (p, IncreaseVersion (s\<lparr>st_Config := filter (\<lambda>c. c \<noteq> None) (st_Config s)\<rparr>)))"

definition RemoveCluster :: "string list \<Rightarrow> 'h system \<Rightarrow> 'h system option" where
  "RemoveCluster namesToDel sys =
     (let old = endpointAddressSnapshot (st_Config (cm_store (mgr sys)));
          (ver, cm) = nextEndpointEventIDLocked (mgr sys);
          cm = fold releaseXDSOwnership namesToDel cm
      in case removeClustersLocked namesToDel (proc sys) (cm_store cm) of
           None \<Rightarrow> None
         | Some (p, s) \<Rightarrow>
             (let new = endpointAddressSnapshot (st_Config s)
              in Some (notifyEndpointChanges (endpointStateChanges old new ver)
                   (sys\<lparr>proc := p, mgr := cm\<lparr>cm_store := s\<rparr>\<rparr>))))"

fun owned_names :: "string list \<Rightarrow> string list \<Rightarrow> string list \<times> string list" where
  "owned_names [] managed = ([], managed)"
| "owned_names (n # ns) managed =
     (if n \<notin> set managed then owned_names ns managed
      else (let (owned, managed) = owned_names ns (removeAll n managed) in (n # owned, managed)))"

definition RemoveXDSClusters :: "string list \<Rightarrow> 'h system \<Rightarrow> 'h system option" where
  "RemoveXDSClusters ns sys =
     (let old = endpointAddressSnapshot (st_Config (cm_store (mgr sys)));
          (ver, cm) = nextEndpointEventIDLocked (mgr sys);
          (ownedNames, managed) = owned_names ns (xdsManaged cm);
          cm = cm\<lparr>xdsManaged := managed\<rparr>
      in if ownedNames = [] then Some (sys\<lparr>mgr := cm\<rparr>)
         else
           (case removeClustersLocked ownedNames (proc sys) (cm_store cm) of
              None \<Rightarrow> None
            | Some (p, s) \<Rightarrow>
                (let new = endpointAddressSnapshot (st_Config s)
                 in Some (notifyEndpointChanges (endpointStateChanges old new ver)
                      (sys\<lparr>proc := p, mgr := cm\<lparr>cm_store := s\<rparr>\<rparr>)))))"

definition HasCluster :: "string \<Rightarrow> 'h ClusterManager \<Rightarrow> bool option" where
  "HasCluster name cm = store_HasCluster name (cm_store cm)"

subsection \<open>Swapping the store\<close>

text \<open>
  \<open>CloneStore\<close> writes the store to YAML and reads it back: the parameter \<open>reread\<close> is this round trip on
  the exported fields, and the copy starts without runtimes.
\<close>

definition cloneClusterStore ::
    "('h ClusterConfig option list \<times> 32 word \<Rightarrow> string + 'h ClusterConfig option list \<times> 32 word)
     \<Rightarrow> 'h ClusterStore \<Rightarrow> string + 'h ClusterStore" where
  "cloneClusterStore reread s =
     (case reread (st_Config s, Version s) of
        Inl err \<Rightarrow> Inl err
      | Inr (cs, v) \<Rightarrow> Inr \<lparr>st_Config = cs, Version = v, clustersMap = []\<rparr>)"

definition CloneStore ::
    "('h ClusterConfig option list \<times> 32 word \<Rightarrow> string + 'h ClusterConfig option list \<times> 32 word)
     \<Rightarrow> 'h ClusterManager \<Rightarrow> string + 'h ClusterStore" where
  "CloneStore reread cm = cloneClusterStore reread (cm_store cm)"

definition NewStore :: "32 word \<Rightarrow> 'h ClusterStore" where
  "NewStore v = \<lparr>st_Config = [], Version = v, clustersMap = []\<rparr>"

text \<open>
  \<open>compareAndSetStore\<close> on a candidate, or on the current store itself (\<open>None\<close>): whether it swapped,
  the runtimes to stop, and the events.
\<close>

definition compareAndSetStore ::
    "'h factories \<Rightarrow> 'h ClusterStore option \<Rightarrow> 'h system
     \<Rightarrow> bool \<times> nat option list \<times> endpointStateChange list \<times> 'h system" where
  "compareAndSetStore fs candidate sys =
     (let cm = mgr sys; current = cm_store cm;
          store = (case candidate of None \<Rightarrow> current | Some s \<Rightarrow> s)
      in if Version store \<noteq> Version current then (False, [], [], sys)
         else
           (let (ver, cm) = nextEndpointEventIDLocked cm;
                old = endpointAddressSnapshot (st_Config current);
                new = endpointAddressSnapshot (st_Config store);
                (replaced, p, store) =
                  (if candidate = None then ensureRuntimeClusters fs (proc sys) store
                   else ensureRuntimeClustersFrom fs current (proc sys) store);
                p = carryOverRuntimeStateFrom (if candidate = None then store else current) store p;
                replaced = (if candidate = None then replaced
                            else replaced @ map Some (runtimeClustersNotIn store current))
            in (True, replaced, endpointStateChanges old new ver,
                sys\<lparr>proc := p, mgr := cm\<lparr>cm_store := store, xdsManaged := []\<rparr>\<rparr>)))"

definition CompareAndSetStore ::
    "'h factories \<Rightarrow> 'h ClusterStore option \<Rightarrow> 'h system \<Rightarrow> bool \<times> 'h system" where
  "CompareAndSetStore fs candidate sys =
     (let (swapped, replaced, changes, sys) = compareAndSetStore fs candidate sys
      in if \<not> swapped then (False, sys)
         else (True, notifyEndpointChanges changes (sys\<lparr>proc := stopClusters replaced (proc sys)\<rparr>)))"

text \<open>
  What the registry reconciliation of \<open>pkg/adapter/springcloud/cloud.go\<close> does to the clusters: a new
  store of the version that was read is filled with endpoints and swapped in.
\<close>

fun set_endpoints ::
    "'h factories \<Rightarrow> (string \<times> Endpoint) list \<Rightarrow> 'h process \<Rightarrow> 'h ClusterStore \<Rightarrow> 'h process \<times> 'h ClusterStore" where
  "set_endpoints fs [] p s = (p, s)"
| "set_endpoints fs ((name, e) # es) p s =
     (let (_, p, s) = store_SetEndpoint fs name (Some e) p s in set_endpoints fs es p s)"

definition swap_in_endpoints ::
    "'h factories \<Rightarrow> 32 word \<Rightarrow> (string \<times> Endpoint) list \<Rightarrow> 'h system \<Rightarrow> bool \<times> 'h system" where
  "swap_in_endpoints fs v instances sys =
     (let (p, newStore) = set_endpoints fs instances (proc sys) (NewStore v)
      in CompareAndSetStore fs (Some newStore) (sys\<lparr>proc := p\<rparr>))"

subsection \<open>Reading\<close>

definition getRuntimeCluster :: "string \<Rightarrow> 'h system \<Rightarrow> nat option" where
  "getRuntimeCluster name sys = map_of (clustersMap (cm_store (mgr sys))) name"

text \<open>
  A pick may move the cursor of the runtime, fill the consistent hash of its snapshot and, for a
  legacy balancer, of its configuration.
\<close>

definition pick_context ::
    "'h factories \<Rightarrow> 'h load_balancer option \<Rightarrow> 'h Cluster \<Rightarrow> 'h EndpointSnapshot \<Rightarrow> 'h PickContext \<times> 'h EndpointSnapshot" where
  "pick_context fs loadBalancer t snapshot =
     (let needsAll = (case loadBalancer of None \<Rightarrow> True | Some b \<Rightarrow> NeedsAllEndpoints b);
          (hash, snapshot') = HealthyConsistentHash fs snapshot
      in (\<lparr>Config = Some (c_config t), ctx_HealthyConsistentHash = hash,
           ctx_AllEndpoints = (if needsAll then Some (es_all snapshot) else None),
           ctx_HealthyEndpoints = es_healthy snapshot,
           RoundRobinCursor = Some (roundRobinCursor t), HealthyByID = Some snapshot\<rparr>, snapshot'))"

definition pickOneEndpoint ::
    "'h factories \<Rightarrow> (string \<Rightarrow> 'h load_balancer option) \<Rightarrow> nat \<Rightarrow> 'h process \<Rightarrow> Endpoint option \<times> 'h process" where
  "pickOneEndpoint fs strategies r p =
     (let t = runtimes p ! r
      in case c_endpoints t of
           None \<Rightarrow> (None, p)
         | Some snapshot \<Rightarrow>
             if HealthyEndpointCount (Some snapshot) = 0 then (None, p)
             else
               (let loadBalancer = (case strategies (LbStr (c_config t)) of
                      Some b \<Rightarrow> Some b | None \<Rightarrow> strategies ''Rand'');
                    (ctx, snapshot') = pick_context fs loadBalancer t snapshot;
                    (e, after) = lb_PickEndpoint fs loadBalancer ctx
                in (e, change_runtime r (\<lambda>t. t\<lparr>c_endpoints := Some snapshot',
                      c_config := (case Config after of None \<Rightarrow> c_config t | Some c \<Rightarrow> c),
                      roundRobinCursor := (case RoundRobinCursor after of None \<Rightarrow> roundRobinCursor t | Some k \<Rightarrow> k)\<rparr>) p)))"

definition PickEndpoint ::
    "'h factories \<Rightarrow> (string \<Rightarrow> 'h load_balancer option) \<Rightarrow> string \<Rightarrow> 'h system \<Rightarrow> Endpoint option \<times> 'h system" where
  "PickEndpoint fs strategies name sys =
     (case getRuntimeCluster name sys of
        None \<Rightarrow> (None, sys)
      | Some r \<Rightarrow>
          (let (e, p) = pickOneEndpoint fs strategies r (proc sys) in (e, sys\<lparr>proc := p\<rparr>)))"

definition snapshot_named :: "string \<Rightarrow> 'h system \<Rightarrow> 'h EndpointSnapshot option option" where
  "snapshot_named name sys =
     (case getRuntimeCluster name sys of None \<Rightarrow> None | Some r \<Rightarrow> Some (c_endpoints (runtimes (proc sys) ! r)))"

definition PickNextEndpoint :: "string \<Rightarrow> string \<Rightarrow> 'h system \<Rightarrow> Endpoint option" where
  "PickNextEndpoint name curEndpointID sys =
     (case snapshot_named name sys of None \<Rightarrow> None | Some sn \<Rightarrow> NextHealthyEndpoint curEndpointID sn)"

definition GetHealthyEndpointByID :: "string \<Rightarrow> string \<Rightarrow> 'h system \<Rightarrow> Endpoint option" where
  "GetHealthyEndpointByID name endpointID sys =
     (case snapshot_named name sys of None \<Rightarrow> None | Some sn \<Rightarrow> HealthyEndpointByID endpointID sn)"

definition GetEndpointByID :: "string \<Rightarrow> string \<Rightarrow> 'h system \<Rightarrow> Endpoint option" where
  "GetEndpointByID name endpointID sys = GetHealthyEndpointByID name endpointID sys"

definition GetAnyEndpointByID :: "string \<Rightarrow> string \<Rightarrow> 'h system \<Rightarrow> Endpoint option" where
  "GetAnyEndpointByID name endpointID sys =
     (case snapshot_named name sys of None \<Rightarrow> None | Some sn \<Rightarrow> EndpointByID endpointID sn)"

definition HasEndpointAddress :: "string \<Rightarrow> string \<Rightarrow> 'h system \<Rightarrow> bool" where
  "HasEndpointAddress name address sys =
     (case snapshot_named name sys of
        None \<Rightarrow> False
      | Some sn \<Rightarrow> (\<exists>e \<in> set (somes (AllEndpoints sn)). GetAddress (ep_Address e) = address))"

text \<open>A result of a health check session reaches the runtime that started it.\<close>

definition HealthEvent :: "nat \<Rightarrow> EndpointHealthEvent \<Rightarrow> 'h system \<Rightarrow> 'h system" where
  "HealthEvent r event sys = sys\<lparr>proc := change_runtime r (handleEndpointHealth event) (proc sys)\<rparr>"

end
