(* ===== verification/Pixiu_ManagerSteps.thy ===== *)
theory Pixiu_ManagerSteps
  imports Pixiu_ClusterManager
begin

text \<open>
  What the operations of the cluster manager do to the system: the well-formedness of the store and
  the accounting of runtimes, and the events they send.
\<close>

section \<open>Well-formed systems\<close>

abbreviation store_of :: "'h system \<Rightarrow> 'h ClusterStore" where
  "store_of sys \<equiv> cm_store (mgr sys)"

text \<open>Every runtime ever created is referred to by the store or has no running session.\<close>

definition accounted :: "'h process \<Rightarrow> nat set \<Rightarrow> bool" where
  "accounted p live \<longleftrightarrow> (\<forall>r < length (runtimes p). r \<notin> live \<longrightarrow> quiet (runtimes p ! r))"

definition system_ok :: "'h system \<Rightarrow> bool" where
  "system_ok sys \<longleftrightarrow>
     store_ok (proc sys) (store_of sys) \<and> accounted (proc sys) (ptrs (store_of sys))
     \<and> set (xdsManaged (mgr sys)) \<subseteq> names (store_of sys)
     \<and> distinct (endpointStateHandlers (mgr sys))"

definition address_pairs :: "'h ClusterConfig list \<Rightarrow> (string \<times> string) set" where
  "address_pairs cs = {(cc_Name c, address_of e) |c e. c \<in> set cs \<and> e \<in> set (somes (Endpoints c))}"

abbreviation addresses_of :: "'h system \<Rightarrow> (string \<times> string) set" where
  "addresses_of sys \<equiv> address_pairs (configs (store_of sys))"

lemma accounted_moved:
  assumes "accounted p (ptrs s)" and "moved p s p' s'"
  shows "accounted p' (ptrs s')"
  unfolding accounted_def
proof (intro allI impI)
  fix r assume r: "r < length (runtimes p')" "r \<notin> ptrs s'"
  show "quiet (runtimes p' ! r)"
  proof (cases "r \<in> ptrs s \<or> length (runtimes p) \<le> r")
    case True
    with assms(2) r show ?thesis by (auto simp: moved_def)
  next
    case False
    then have "r < length (runtimes p)" "r \<notin> ptrs s" by auto
    with assms show ?thesis by (auto simp: moved_def accounted_def)
  qed
qed

lemma IncreaseVersion_simps [simp]:
  "st_Config (IncreaseVersion s) = st_Config s" "clustersMap (IncreaseVersion s) = clustersMap s"
  "Version (IncreaseVersion s) = Version s + 1"
  "ptrs (IncreaseVersion s) = ptrs s" "store_ok p (IncreaseVersion s) = store_ok p s"
  by (simp_all add: IncreaseVersion_def ptrs_def store_ok_def)

lemma moved_IncreaseVersion [simp]:
  "moved p (IncreaseVersion s) p' s' = moved p s p' s'" "moved p s p' (IncreaseVersion s') = moved p s p' s'"
  by (simp_all add: moved_def)

lemma notify_simps [simp]:
  "proc (notifyEndpointChanges chs sys) = proc sys" "mgr (notifyEndpointChanges chs sys) = mgr sys"
  by (simp_all add: notifyEndpointChanges_def)

lemma release_simps [simp]:
  "cm_store (releaseXDSOwnership n cm) = cm_store cm"
  "endpointStateHandlers (releaseXDSOwnership n cm) = endpointStateHandlers cm"
  "nextEndpointEventID (releaseXDSOwnership n cm) = nextEndpointEventID cm"
  by (auto simp: releaseXDSOwnership_def)

section \<open>Events\<close>

lemma fold_insert_set: "set (fold (\<lambda>e as. List.insert (f e) as) es as) = f ` set es \<union> set as"
  by (induction es arbitrary: as) auto

lemma has_address_add:
  "has_address (add_addresses c m) n a \<longleftrightarrow>
     has_address m n a \<or> n = cc_Name c \<and> a \<in> address_of ` set (somes (Endpoints c))"
  by (auto simp: add_addresses_def has_address_def update_conv' Let_def fold_insert_set
      split: option.split if_splits simp del: set_somes)

lemma has_address_fold:
  "has_address (fold add_addresses cs m) n a \<longleftrightarrow> has_address m n a \<or> (n, a) \<in> address_pairs cs"
  by (induction cs arbitrary: m) (auto simp: has_address_add address_pairs_def simp del: set_somes)

lemma has_address_snapshot:
  "has_address (endpointAddressSnapshot cs) n a \<longleftrightarrow> (n, a) \<in> address_pairs (somes cs)"
  by (simp add: endpointAddressSnapshot_def has_address_fold) (simp add: has_address_def)

lemma distinct_fold_addresses: "distinct (map fst m) \<Longrightarrow> distinct (map fst (fold add_addresses cs m))"
  by (induction cs arbitrary: m) (auto simp: add_addresses_def distinct_update Let_def)

lemma distinct_snapshot: "distinct (map fst (endpointAddressSnapshot cs))"
  by (simp add: endpointAddressSnapshot_def distinct_fold_addresses)

lemma in_snapshot:
  assumes "distinct (map fst m)"
  shows "has_address m n a \<longleftrightarrow> (\<exists>as. (n, as) \<in> set m \<and> a \<in> set as)"
proof -
  have "(n, as) \<in> set m \<longleftrightarrow> map_of m n = Some as" for as using assms by simp
  then show ?thesis by (auto simp: has_address_def simp del: map_of_eq_Some_iff split: option.split)
qed

lemma set_some_changes:
  assumes "distinct (map fst m)"
  shows "set (concat (map (\<lambda>(n, as). map (f n) (filter (P n) as)) m)) = {f n a |n a. has_address m n a \<and> P n a}"
  unfolding in_snapshot [OF assms] by force

lemma set_endpointStateChanges:
  assumes "distinct (map fst old)" and "distinct (map fst new)"
  shows "set (endpointStateChanges old new v) =
    {\<lparr>ch_clusterName = n, ch_address = a, present = False, ch_version = v\<rparr> |n a. has_address old n a \<and> \<not> has_address new n a}
    \<union> {\<lparr>ch_clusterName = n, ch_address = a, present = True, ch_version = v\<rparr> |n a. has_address new n a \<and> \<not> has_address old n a}"
  unfolding endpointStateChanges_def set_append
    set_some_changes [OF assms(1), of "\<lambda>n a. \<lparr>ch_clusterName = n, ch_address = a, present = False, ch_version = v\<rparr>"]
    set_some_changes [OF assms(2), of "\<lambda>n a. \<lparr>ch_clusterName = n, ch_address = a, present = True, ch_version = v\<rparr>"]
  by (rule refl)

text \<open>What a handler of endpoint states makes of its calls.\<close>

definition pair_of :: "endpointStateChange \<Rightarrow> string \<times> string" where
  "pair_of ch = (ch_clusterName ch, ch_address ch)"

definition apply_change :: "endpointStateChange \<Rightarrow> (string \<times> string) set \<Rightarrow> (string \<times> string) set" where
  "apply_change ch known = (if present ch then insert (pair_of ch) known else known - {pair_of ch})"

definition heard :: "64 word \<Rightarrow> handler_call list \<Rightarrow> endpointStateChange list" where
  "heard h cl = List.map_filter (\<lambda>c. case c of StateCall h' ch \<Rightarrow> if h' = h then Some ch else None | _ \<Rightarrow> None) cl"

definition came :: "endpointStateChange list \<Rightarrow> (string \<times> string) set" where
  "came chs = pair_of ` {ch \<in> set chs. present ch}"

definition went :: "endpointStateChange list \<Rightarrow> (string \<times> string) set" where
  "went chs = pair_of ` {ch \<in> set chs. \<not> present ch}"

lemma came_went_simps [simp]:
  "came [] = {}" "went [] = {}"
  "present ch \<Longrightarrow> came (ch # chs) = insert (pair_of ch) (came chs)" "present ch \<Longrightarrow> went (ch # chs) = went chs"
  "\<not> present ch \<Longrightarrow> came (ch # chs) = came chs" "\<not> present ch \<Longrightarrow> went (ch # chs) = insert (pair_of ch) (went chs)"
  by (auto simp: came_def went_def)

lemma apply_changes:
  "came chs \<inter> went chs = {} \<Longrightarrow> fold apply_change chs known = (known - went chs) \<union> came chs"
proof (induction chs arbitrary: known)
  case (Cons ch chs)
  show ?case
  proof (cases "present ch")
    case True
    with Cons.prems Cons.IH [of "insert (pair_of ch) known"] show ?thesis by (auto simp: apply_change_def)
  next
    case False
    with Cons.prems Cons.IH [of "known - {pair_of ch}"] show ?thesis by (auto simp: apply_change_def)
  qed
qed simp

text \<open>
  Told the difference of two snapshots, a handler that knows the addresses of the one, among others,
  knows those of the other.
\<close>

lemma apply_endpointStateChanges:
  "fold apply_change (endpointStateChanges (endpointAddressSnapshot cs) (endpointAddressSnapshot cs') v) known =
     (known - (address_pairs (somes cs) - address_pairs (somes cs')))
     \<union> (address_pairs (somes cs') - address_pairs (somes cs))"
proof -
  let ?chs = "endpointStateChanges (endpointAddressSnapshot cs) (endpointAddressSnapshot cs') v"
  note s = set_endpointStateChanges [OF distinct_snapshot distinct_snapshot, of cs cs' v, unfolded has_address_snapshot]
  have "went ?chs = address_pairs (somes cs) - address_pairs (somes cs')"
    unfolding went_def s by (force simp: pair_of_def image_iff)
  moreover have "came ?chs = address_pairs (somes cs') - address_pairs (somes cs)"
    unfolding came_def s by (force simp: pair_of_def image_iff)
  ultimately show ?thesis using apply_changes [of ?chs known] by auto
qed

text \<open>
  A step tells every registered handler what it needs to know the addresses afterwards, with one
  number for the step.
\<close>

definition told :: "'h system \<Rightarrow> 'h system \<Rightarrow> bool" where
  "told sys sys' \<longleftrightarrow>
     (\<exists>new. calls sys' = calls sys @ new
       \<and> (\<forall>h \<in> set (endpointStateHandlers (mgr sys)).
            fold apply_change (heard h new) (addresses_of sys) = addresses_of sys'
            \<and> (\<forall>ch \<in> set (heard h new). ch_version ch = nextEndpointEventID (mgr sys'))))"

lemma heard_simps [simp]:
  "heard h [] = []" "heard h (StateCall h' ch # cl) = (if h' = h then ch # heard h cl else heard h cl)"
  "heard h (RemovalCall h' n a # cl) = heard h cl" "heard h (cl @ cl') = heard h cl @ heard h cl'"
  by (simp_all add: heard_def List.map_filter_def)

lemma heard_other: "heard h (map (\<lambda>h'. RemovalCall h' n a) hs) = []"
  by (induction hs) auto

lemma heard_own: "distinct hs \<Longrightarrow> heard h (map (\<lambda>h'. StateCall h' ch) hs) = (if h \<in> set hs then [ch] else [])"
  by (induction hs) auto

lemma heard_notify:
  assumes "distinct hs" and "h \<in> set hs"
  shows "heard h (concat (map (\<lambda>ch. map (\<lambda>h. StateCall h ch) hs @
    (if present ch then [] else map (\<lambda>h. RemovalCall h (ch_clusterName ch) (ch_address ch)) hs')) chs)) = chs"
  using assms by (induction chs) (simp_all add: heard_own heard_other)

lemma version_of_changes: "ch \<in> set (endpointStateChanges old new v) \<Longrightarrow> ch_version ch = v"
  by (auto simp: endpointStateChanges_def)

lemma told_notify:
  assumes "distinct (endpointStateHandlers (mgr sys))" and "calls sys1 = calls sys"
    and "endpointStateHandlers (mgr sys1) = endpointStateHandlers (mgr sys)" and "nextEndpointEventID (mgr sys1) = v"
    and "addresses_of sys1 = (addresses_of sys - (address_pairs (somes cs) - address_pairs (somes cs')))
      \<union> (address_pairs (somes cs') - address_pairs (somes cs))"
  shows "told sys (notifyEndpointChanges (endpointStateChanges (endpointAddressSnapshot cs) (endpointAddressSnapshot cs') v) sys1)"
  unfolding told_def notifyEndpointChanges_def
  using assms heard_notify [OF assms(1)] version_of_changes by (auto simp: apply_endpointStateChanges)

lemma told_silent: "calls sys' = calls sys \<Longrightarrow> addresses_of sys' = addresses_of sys \<Longrightarrow> told sys sys'"
  by (simp add: told_def)

subsection \<open>Addresses of configurations\<close>

lemma address_pairs_simps [simp]:
  "address_pairs [] = {}" "address_pairs (cs @ cs') = address_pairs cs \<union> address_pairs cs'"
  "address_pairs (c # cs) = {cc_Name c} \<times> (address_of ` set (somes (Endpoints c))) \<union> address_pairs cs"
  by (auto simp: address_pairs_def simp del: set_somes)

lemma same_addresses:
  assumes "map ep_Address es = map ep_Address es'"
  shows "address_of ` set es = address_of ` set es'"
  using arg_cong [OF assms, of "\<lambda>as. GetAddress ` set as"] by (simp add: image_image)

lemma address_pairs_names: "(n, a) \<in> address_pairs cs \<Longrightarrow> n \<in> cc_Name ` set cs"
  by (auto simp: address_pairs_def)

lemma address_pairs_update:
  assumes "distinct (map cc_Name cs)" and "i < length cs" and "cc_Name c = cc_Name (cs ! i)"
  shows "address_pairs (cs[i := c]) =
    (address_pairs cs - (address_pairs [cs ! i] - address_pairs [c])) \<union> (address_pairs [c] - address_pairs [cs ! i])"
proof -
  let ?rest = "address_pairs (take i cs @ drop (Suc i) cs)"
  have split: "cs = take i cs @ cs ! i # drop (Suc i) cs" using assms(2) by (simp add: id_take_nth_drop)
  have "address_pairs cs = address_pairs [cs ! i] \<union> ?rest" by (subst split) auto
  moreover have "address_pairs (cs[i := c]) = address_pairs [c] \<union> ?rest"
    using assms(2) by (auto simp: upd_conv_take_nth_drop)
  moreover have "cc_Name (cs ! i) \<notin> cc_Name ` set (take i cs @ drop (Suc i) cs)"
    using assms(1) by (subst (asm) split) auto
  then have "?rest \<inter> address_pairs [cs ! i] = {}" "?rest \<inter> address_pairs [c] = {}"
    using assms(3) address_pairs_names by fastforce+
  ultimately show ?thesis by blast
qed

lemma found_pairs:
  assumes "store_ok p s" and "config_index n (st_Config s) = Some i" and "cc_Name c = n"
    and "st_Config s' = (st_Config s)[i := Some c]"
  shows "address_pairs (configs s') = (address_pairs (configs s) - (address_pairs [configs s ! i] - address_pairs [c]))
    \<union> (address_pairs [c] - address_pairs [configs s ! i])"
    and "findClusterConfig n s = Some (configs s ! i)"
proof -
  note f = found_config [OF assms(1,2)]
  have "cand_ok p s" using assms(1) store_ok_cand by blast
  from configs_update [OF this assms(4)] show "address_pairs (configs s') =
      (address_pairs (configs s) - (address_pairs [configs s ! i] - address_pairs [c]))
    \<union> (address_pairs [c] - address_pairs [configs s ! i])"
    using address_pairs_update [of "configs s" i c] f assms(1,3) by (simp add: store_ok_def)
  show "findClusterConfig n s = Some (configs s ! i)" using f assms(2) by (simp add: findClusterConfig_def)
qed

lemma found_names:
  assumes "store_ok p s" and "config_index n (st_Config s) = Some i" and "cc_Name c = n"
    and "st_Config s' = (st_Config s)[i := Some c]"
  shows "names s' = names s"
proof -
  note f = found_config [OF assms(1,2)]
  have "cand_ok p s" using assms(1) store_ok_cand by blast
  from configs_update [OF this assms(4)] have "map cc_Name (configs s') = map cc_Name (configs s)"
    using f assms(3) by (simp add: map_update list_update_same_conv)
  then show ?thesis by (metis set_map)
qed

section \<open>Steps on clusters and endpoints\<close>

lemma released:
  "system_ok sys \<Longrightarrow> set (xdsManaged (releaseXDSOwnership n (mgr sys))) \<subseteq> names (store_of sys)"
  by (auto simp: releaseXDSOwnership_def system_ok_def simp del: set_somes)

lemma system_ok_step:
  assumes "system_ok sys" and "store_ok (proc sys') (store_of sys')"
    and "moved (proc sys) (store_of sys) (proc sys') (store_of sys')"
    and "set (xdsManaged (mgr sys')) \<subseteq> names (store_of sys')"
    and "endpointStateHandlers (mgr sys') = endpointStateHandlers (mgr sys)"
  shows "system_ok sys'"
  using assms accounted_moved [OF _ assms(3)] by (simp add: system_ok_def del: set_somes)

lemma AddCluster_step:
  assumes ok: "system_ok sys" and fresh: "given_name c (proc sys) \<notin> names (store_of sys)"
  shows "system_ok (AddCluster fs c sys) \<and> told sys (AddCluster fs c sys)"
proof -
  let ?cm = "releaseXDSOwnership (cc_Name c) (mgr sys)"
  obtain c' p s where op: "store_AddCluster fs c (proc sys) (IncreaseVersion (store_of sys)) = (c', p, s)"
    by (metis prod.exhaust)
  have st: "store_ok (proc sys) (IncreaseVersion (store_of sys))" using ok by (simp add: system_ok_def)
  have "given_name c (proc sys) \<notin> names (IncreaseVersion (store_of sys))" using fresh by simp
  note a = AddCluster_ok [OF st this op]
  have cfg: "configs s = configs (store_of sys) @ [c']" using a by simp
  define sys1 where "sys1 = sys\<lparr>proc := p, mgr := ?cm\<lparr>nextEndpointEventID := nextEndpointEventID ?cm + 1, cm_store := s\<rparr>\<rparr>"
  have eq: "AddCluster fs c sys = notifyEndpointChanges (endpointStateChanges
      (endpointAddressSnapshot ([] :: 'a ClusterConfig option list)) (endpointAddressSnapshot [Some c'])
      (nextEndpointEventID (mgr sys) + 1)) sys1"
    using op by (simp add: AddCluster_def nextEndpointEventIDLocked_def sys1_def Let_def)
  have "system_ok (AddCluster fs c sys)"
    by (rule system_ok_step [OF ok])
      (use a ok cfg released [OF ok, of "cc_Name c"] in \<open>auto simp: eq sys1_def system_ok_def simp del: set_somes\<close>)
  moreover have "told sys (AddCluster fs c sys)"
    unfolding eq by (rule told_notify) (use ok cfg in \<open>simp_all add: sys1_def system_ok_def del: set_somes\<close>)
  ultimately show ?thesis by simp
qed

lemma UpdateCluster_step:
  assumes ok: "system_ok sys"
  shows "system_ok (UpdateCluster fs c sys) \<and> told sys (UpdateCluster fs c sys)"
proof -
  let ?cm = "releaseXDSOwnership (cc_Name c) (mgr sys)" and ?n = "cc_Name c" and ?s = "store_of sys"
  obtain p s where op: "store_UpdateCluster fs c (proc sys) (IncreaseVersion ?s) = (p, s)" by force
  have st: "store_ok (proc sys) (IncreaseVersion ?s)" and st': "store_ok (proc sys) ?s"
    using ok by (simp_all add: system_ok_def)
  note u = UpdateCluster_ok [OF st op, simplified]
  define sys1 where "sys1 = sys\<lparr>proc := p, mgr := ?cm\<lparr>nextEndpointEventID := nextEndpointEventID ?cm + 1, cm_store := s\<rparr>\<rparr>"
  define old where "old = findClusterConfig ?n ?s"
  define new where "new = (if old \<noteq> None then Some c else old)"
  have eq: "UpdateCluster fs c sys = notifyEndpointChanges (endpointStateChanges
      (endpointAddressSnapshot [old]) (endpointAddressSnapshot [new]) (nextEndpointEventID (mgr sys) + 1)) sys1"
    using op by (auto simp: UpdateCluster_def nextEndpointEventIDLocked_def sys1_def old_def new_def Let_def)
  have key: "names s = names ?s \<and> address_pairs (configs s) =
      (address_pairs (configs ?s) - (address_pairs (somes [old]) - address_pairs (somes [new])))
      \<union> (address_pairs (somes [new]) - address_pairs (somes [old]))"
  proof (cases "config_index ?n (st_Config ?s)")
    case None
    with u show ?thesis by (simp add: old_def new_def findClusterConfig_def)
  next
    case (Some i)
    with u obtain c' where c': "st_Config s = (st_Config ?s)[i := Some c']" "same_cluster c c'"
      "map ep_Address (somes (Endpoints c')) = map ep_Address (somes (Endpoints c))" by auto
    have "address_pairs [c'] = address_pairs [c]"
      using c'(2) same_addresses [OF c'(3)] by (simp add: same_cluster_def del: set_somes)
    moreover have n: "cc_Name c' = ?n" using c'(2) by (simp add: same_cluster_def)
    ultimately show ?thesis
      using found_pairs [OF st' Some n c'(1)] found_names [OF st' Some n c'(1)]
      by (simp add: old_def new_def del: set_somes)
  qed
  have "system_ok (UpdateCluster fs c sys)"
    by (rule system_ok_step [OF ok])
      (use u ok key released [OF ok, of ?n] in \<open>auto simp: eq sys1_def system_ok_def simp del: set_somes\<close>)
  moreover have "told sys (UpdateCluster fs c sys)"
    unfolding eq by (rule told_notify) (use ok key in \<open>simp_all add: sys1_def system_ok_def del: set_somes\<close>)
  ultimately show ?thesis by simp
qed

text \<open>A change of one cluster is seen in what is found under its name.\<close>

definition one_cluster :: "string \<Rightarrow> 'h ClusterStore \<Rightarrow> 'h ClusterStore \<Rightarrow> bool" where
  "one_cluster n s s' \<longleftrightarrow> names s \<subseteq> names s' \<and>
     (let old = address_pairs (somes [findClusterConfig n s]); new = address_pairs (somes [findClusterConfig n s'])
      in address_pairs (configs s') = (address_pairs (configs s) - (old - new)) \<union> (new - old))"

lemma one_cluster_refl: "st_Config s' = st_Config s \<Longrightarrow> one_cluster n s s'"
  by (simp add: one_cluster_def findClusterConfig_def Let_def cong: option.case_cong)

lemma one_cluster_IncreaseVersion [simp]: "one_cluster n (IncreaseVersion s) s' = one_cluster n s s'"
  by (simp add: one_cluster_def findClusterConfig_def del: set_somes cong: option.case_cong)

lemma one_cluster_update:
  assumes "store_ok p s" and "config_index n (st_Config s) = Some i" and "cc_Name c = n"
    and "st_Config s' = (st_Config s)[i := Some c]"
  shows "one_cluster n s s'"
proof -
  have eq: "config_index n (xs[i := Some c]) = Some i" if "config_index n xs = Some i" for xs :: "'a ClusterConfig option list"
    using that assms(3) by (induction n xs arbitrary: i rule: config_index.induct) (auto split: if_splits nat.splits)
  have "i < length (st_Config s)" using found_config(1) [OF assms(1,2)] store_configs [OF assms(1)] by (metis length_map)
  with eq [OF assms(2)] have "findClusterConfig n s' = Some c" by (simp add: findClusterConfig_def assms(4))
  with found_pairs [OF assms] found_names [OF assms] show ?thesis by (simp add: one_cluster_def del: set_somes)
qed

lemma one_cluster_added:
  assumes "store_ok p s" and "config_index n (st_Config s) = None" and "cc_Name c = n"
    and "st_Config s' = st_Config s @ [Some c]"
  shows "one_cluster n s s'"
proof -
  have "findClusterConfig n s' = Some c" "findClusterConfig n s = None"
    using config_index_snoc [OF assms(2,3)] by (simp_all add: findClusterConfig_def assms(2,4))
  then show ?thesis by (auto simp: one_cluster_def assms(4))
qed

lemma one_cluster_step:
  assumes ok: "system_ok sys" and st: "store_ok p s" "moved (proc sys) (store_of sys) p s"
    and one: "one_cluster n (store_of sys) s"
    and sys1: "sys1 = sys\<lparr>proc := p, mgr := (releaseXDSOwnership n (mgr sys))\<lparr>nextEndpointEventID := v, cm_store := s\<rparr>\<rparr>"
    and sys': "sys' = notifyEndpointChanges (endpointStateChanges (endpointAddressSnapshot [findClusterConfig n (store_of sys)])
      (endpointAddressSnapshot [findClusterConfig n s]) v) sys1"
  shows "system_ok sys' \<and> told sys sys'"
proof
  have sub: "names (store_of sys) \<subseteq> names s" using one by (simp add: one_cluster_def del: set_somes)
  show "system_ok sys'"
    by (rule system_ok_step [OF ok])
      (use st sub released [OF ok, of n] in \<open>auto simp: sys' sys1 simp del: set_somes\<close>)
  show "told sys sys'"
    unfolding sys' by (rule told_notify)
      (use ok one in \<open>simp_all add: sys1 system_ok_def one_cluster_def Let_def del: set_somes\<close>)
qed

lemma SetEndpoint_step:
  assumes ok: "system_ok sys" and n: "n \<noteq> ''''"
  shows "system_ok (SetEndpoint fs n e sys) \<and> told sys (SetEndpoint fs n e sys)"
proof -
  let ?s = "IncreaseVersion (store_of sys)"
  obtain a p s where op: "store_SetEndpoint fs n e (proc sys) ?s = (a, p, s)" by (metis prod.exhaust)
  have st: "store_ok (proc sys) ?s" using ok by (simp add: system_ok_def)
  have res: "store_ok p s \<and> moved (proc sys) ?s p s \<and> one_cluster n ?s s"
  proof (cases e)
    case None
    with op st show ?thesis by (simp add: store_SetEndpoint_def one_cluster_refl)
  next
    case (Some e')
    note o = SetEndpoint_ok [OF st n op [unfolded Some]]
    show ?thesis
    proof (cases "config_index n (st_Config ?s)")
      case None
      with o one_cluster_added [OF st None] show ?thesis by auto
    next
      case (Some i)
      with o obtain c where c: "st_Config s = (st_Config ?s)[i := Some c]" "same_cluster (configs ?s ! i) c" by auto
      have "cc_Name c = n" using c(2) found_config(2) [OF st Some] by (simp add: same_cluster_def)
      from one_cluster_update [OF st Some this c(1)] o show ?thesis by blast
    qed
  qed
  have "one_cluster n (store_of sys) s" using res by simp
  then show ?thesis
    by (rule one_cluster_step [OF ok, of p s n _ "nextEndpointEventID (mgr sys) + 1", rotated 2])
      (use op res in \<open>simp_all add: SetEndpoint_def nextEndpointEventIDLocked_def Let_def\<close>)
qed

lemma DeleteEndpoint_step:
  assumes ok: "system_ok sys" and op: "DeleteEndpoint fs n i sys = Some sys'"
  shows "system_ok sys' \<and> told sys sys'"
proof -
  let ?s = "IncreaseVersion (store_of sys)"
  obtain p s where del: "store_DeleteEndpoint fs n i (proc sys) ?s = Some (p, s)"
    and sys': "sys' = notifyEndpointChanges (endpointStateChanges (endpointAddressSnapshot [findClusterConfig n (store_of sys)])
      (endpointAddressSnapshot [findClusterConfig n s]) (nextEndpointEventID (mgr sys) + 1))
      (sys\<lparr>proc := p, mgr := (releaseXDSOwnership n (mgr sys))\<lparr>nextEndpointEventID := nextEndpointEventID (mgr sys) + 1, cm_store := s\<rparr>\<rparr>)"
    using op by (auto simp: DeleteEndpoint_def nextEndpointEventIDLocked_def Let_def split: option.splits)
  have st: "store_ok (proc sys) ?s" using ok by (simp add: system_ok_def)
  note o = DeleteEndpoint_ok [OF st del]
  have "one_cluster n ?s s"
  proof (cases "config_index n (st_Config ?s)")
    case None
    with o show ?thesis by (simp add: one_cluster_refl)
  next
    case (Some k)
    with o obtain c where c: "st_Config s = (st_Config ?s)[k := Some c]" "same_cluster (configs ?s ! k) c" by auto
    have "cc_Name c = n" using c(2) found_config(2) [OF st Some] by (simp add: same_cluster_def)
    from one_cluster_update [OF st Some this c(1)] show ?thesis .
  qed
  then have "one_cluster n (store_of sys) s" by simp
  then show ?thesis by (rule one_cluster_step [OF ok _ _ _ refl sys', rotated 2]) (use o in simp_all)
qed

section \<open>Removal\<close>

lemma remove_names_absent: "name \<notin> set ns \<Longrightarrow> remove_names ns i name p s = Some (p, s)"
  by (induction ns) auto

lemma remove_names_once:
  assumes "distinct ns" and "st_Config s ! i = Some c" and "cc_Name c = name"
  shows "remove_names ns i name p s =
    Some (if name \<in> set ns
      then (stopClusters [map_of (clustersMap s) name] p,
            s\<lparr>st_Config := (st_Config s)[i := None], clustersMap := AList.delete name (clustersMap s)\<rparr>)
      else (p, s))"
  using assms by (induction ns) (auto simp: remove_names_absent Let_def)

text \<open>The pointers of the clusters among given ones that are named.\<close>

definition dropped :: "string list \<Rightarrow> 'h ClusterConfig list \<Rightarrow> 'h ClusterStore \<Rightarrow> nat set" where
  "dropped ns cs s = {q. \<exists>n \<in> set ns \<inter> cc_Name ` set cs. map_of (clustersMap s) n = Some q}"

lemma remove_loop_effect:
  assumes "distinct ns" and "distinct (map cc_Name cs)" and "drop i (st_Config s) = map Some cs"
    and "distinct (map fst (clustersMap s))" "distinct (map snd (clustersMap s))"
  shows "\<exists>p' s'. remove_loop ns i (map Some cs) p s = Some (p', s')
    \<and> st_Config s' = take i (st_Config s) @ map (\<lambda>c. if cc_Name c \<in> set ns then None else Some c) cs
    \<and> clustersMap s' = filter (\<lambda>x. fst x \<notin> set ns \<inter> cc_Name ` set cs) (clustersMap s)
    \<and> length (runtimes p') = length (runtimes p)
    \<and> (\<forall>q < length (runtimes p). if q \<in> dropped ns cs s then quiet (runtimes p' ! q) else runtimes p' ! q = runtimes p ! q)"
  using assms
proof (induction cs arbitrary: i p s)
  case Nil
  then show ?case by (auto simp: dropped_def)
next
  case (Cons c cs)
  let ?n = "cc_Name c"
  have i: "i < length (st_Config s)" using Cons.prems(3) by (metis drop_all leI list.distinct(1) list.map(2))
  have ci: "st_Config s ! i = Some c" using Cons.prems(3) i by (metis Cons_nth_drop_Suc list.inject list.map(2))
  have rest: "drop (i + 1) (st_Config s) = map Some cs"
    using Cons.prems(3) by (metis Suc_eq_plus1 drop_Suc list.map(2) list.sel(3) tl_drop)
  have take: "take (i + 1) (st_Config s) = take i (st_Config s) @ [Some c]" using i ci by (simp add: take_Suc_conv_app_nth)
  show ?case
  proof (cases "?n \<in> set ns")
    case False
    from Cons.IH [OF Cons.prems(1) _ rest Cons.prems(4,5), of p] Cons.prems(2)
    obtain p' s' where r: "remove_loop ns (i + 1) (map Some cs) p s = Some (p', s')"
      "st_Config s' = take (i + 1) (st_Config s) @ map (\<lambda>c. if cc_Name c \<in> set ns then None else Some c) cs"
      "clustersMap s' = filter (\<lambda>x. fst x \<notin> set ns \<inter> cc_Name ` set cs) (clustersMap s)"
      "length (runtimes p') = length (runtimes p)"
      "\<forall>q < length (runtimes p). if q \<in> dropped ns cs s then quiet (runtimes p' ! q) else runtimes p' ! q = runtimes p ! q"
      by auto
    have "dropped ns (c # cs) s = dropped ns cs s" "set ns \<inter> cc_Name ` set (c # cs) = set ns \<inter> cc_Name ` set cs"
      using False by (auto simp: dropped_def)
    with r False take show ?thesis
      using remove_names_once [OF Cons.prems(1) ci refl, of p] by (intro exI [of _ p'] exI [of _ s']) simp
  next
    case True
    define p1 where "p1 = stopClusters [map_of (clustersMap s) ?n] p"
    define s1 where "s1 = s\<lparr>st_Config := (st_Config s)[i := None], clustersMap := AList.delete ?n (clustersMap s)\<rparr>"
    have m1: "clustersMap s1 = filter (\<lambda>x. fst x \<noteq> ?n) (clustersMap s)"
      by (auto simp: s1_def AList.delete_eq case_prod_beta intro: filter_cong)
    have "drop (i + 1) (st_Config s1) = map Some cs" using rest by (simp add: s1_def)
    moreover have "distinct (map fst (clustersMap s1))" "distinct (map snd (clustersMap s1))"
      using Cons.prems(4,5) by (simp_all add: m1 distinct_map_filter)
    ultimately obtain p' s' where r: "remove_loop ns (i + 1) (map Some cs) p1 s1 = Some (p', s')"
      "st_Config s' = take (i + 1) (st_Config s1) @ map (\<lambda>c. if cc_Name c \<in> set ns then None else Some c) cs"
      "clustersMap s' = filter (\<lambda>x. fst x \<notin> set ns \<inter> cc_Name ` set cs) (clustersMap s1)"
      "length (runtimes p') = length (runtimes p1)"
      "\<forall>q < length (runtimes p1). if q \<in> dropped ns cs s1 then quiet (runtimes p' ! q) else runtimes p' ! q = runtimes p1 ! q"
      using Cons.IH [OF Cons.prems(1), of "i + 1" s1 p1] Cons.prems(2) by auto
    have lookup: "map_of (clustersMap s1) n = map_of (clustersMap s) n" if "n \<noteq> ?n" for n
      using that by (simp add: s1_def delete_conv')
    have dr: "dropped ns (c # cs) s = dropped ns cs s1 \<union> {q. map_of (clustersMap s) ?n = Some q}"
    proof -
      have "?n \<notin> cc_Name ` set cs" using Cons.prems(2) by simp
      then have "n \<in> cc_Name ` set cs \<Longrightarrow> map_of (clustersMap s1) n = map_of (clustersMap s) n" for n
        using lookup by metis
      with True show ?thesis by (auto simp: dropped_def simp del: map_of_eq_Some_iff)
    qed
    have "take (i + 1) (st_Config s1) = take i (st_Config s) @ [None]"
      using i by (simp add: s1_def take_Suc_conv_app_nth)
    moreover have "clustersMap s' = filter (\<lambda>x. fst x \<notin> set ns \<inter> cc_Name ` set (c # cs)) (clustersMap s)"
      using r(3) True by (auto simp: m1 intro: filter_cong)
    moreover have "if q \<in> dropped ns (c # cs) s then quiet (runtimes p' ! q) else runtimes p' ! q = runtimes p ! q"
      if q: "q < length (runtimes p)" for q
    proof -
      have "if q \<in> dropped ns cs s1 then quiet (runtimes p' ! q) else runtimes p' ! q = runtimes p1 ! q"
        using r(5) q by (simp add: p1_def)
      then show ?thesis
        using q by (cases "q \<in> dropped ns cs s1"; cases "map_of (clustersMap s) ?n = Some q")
          (simp_all add: dr p1_def del: map_of_eq_Some_iff)
    qed
    ultimately show ?thesis
      using r(1,2,4) True remove_names_once [OF Cons.prems(1) ci refl, of p]
      by (intro exI [of _ p'] exI [of _ s']) (simp add: p1_def s1_def)
  qed
qed

lemma filter_removed:
  "filter (\<lambda>c. c \<noteq> None) (map (\<lambda>c. if P c then None else Some c) cs) = map Some (filter (\<lambda>c. \<not> P c) cs)"
  by (induction cs) auto

lemma map_of_filter_key: "P n \<Longrightarrow> map_of (filter (\<lambda>x. P (fst x)) m) n = map_of m n"
  by (induction m) auto

lemma removeClusters_ok:
  assumes ok: "store_ok p s" and ns: "distinct ns"
  shows "\<exists>p' s'. removeClustersLocked ns p s = Some (p', s') \<and> store_ok p' s' \<and> moved p s p' s'
    \<and> configs s' = filter (\<lambda>c. cc_Name c \<notin> set ns) (configs s)"
proof -
  note maps = store_ok_maps [OF ok]
  have d: "distinct (map cc_Name (configs s))" using ok by (simp add: store_ok_def)
  obtain p' s1 where r: "remove_loop ns 0 (st_Config s) p s = Some (p', s1)"
      "st_Config s1 = map (\<lambda>c. if cc_Name c \<in> set ns then None else Some c) (configs s)"
      "clustersMap s1 = filter (\<lambda>x. fst x \<notin> set ns \<inter> names s) (clustersMap s)"
      "length (runtimes p') = length (runtimes p)"
      "\<And>q. q < length (runtimes p) \<Longrightarrow>
         if q \<in> dropped ns (configs s) s then quiet (runtimes p' ! q) else runtimes p' ! q = runtimes p ! q"
    using remove_loop_effect [OF ns d, of 0 s p] maps store_configs [OF ok] by auto
  define s' where "s' = IncreaseVersion (s1\<lparr>st_Config := filter (\<lambda>c. c \<noteq> None) (st_Config s1)\<rparr>)"
  have op: "removeClustersLocked ns p s = Some (p', s')" using r(1) by (simp add: removeClustersLocked_def s'_def)
  have cfg: "st_Config s' = map Some (filter (\<lambda>c. cc_Name c \<notin> set ns) (configs s))"
    using filter_removed [of "\<lambda>c. cc_Name c \<in> set ns" "configs s"] by (simp add: s'_def r(2))
  then have cs: "configs s' = filter (\<lambda>c. cc_Name c \<notin> set ns) (configs s)" by simp
  have keys: "fst ` set (clustersMap s) = names s" using ok by (simp add: store_ok_def del: set_somes)
  have m: "clustersMap s' = filter (\<lambda>x. fst x \<notin> set ns) (clustersMap s)"
    unfolding s'_def r(3) IncreaseVersion_simps using keys
    by (auto simp: r(3) image_iff intro!: filter_cong simp del: set_somes)
  have ptr: "r \<in> ptrs s' \<longleftrightarrow> r \<in> ptrs s \<and> r \<notin> dropped ns (configs s) s" for r
  proof -
    have "r \<in> ptrs s' \<longleftrightarrow> (\<exists>n. n \<notin> set ns \<and> (n, r) \<in> set (clustersMap s))" by (force simp: ptrs_def m)
    moreover have "r \<in> dropped ns (configs s) s \<longleftrightarrow> (\<exists>n. n \<in> set ns \<and> (n, r) \<in> set (clustersMap s))"
      using maps keys by (force simp: dropped_def simp del: set_somes)
    moreover have "n = n'" if "(n, r) \<in> set (clustersMap s)" "(n', r) \<in> set (clustersMap s)" for n n'
      using that maps by (metis Pair_inject distinct_map inj_onD snd_conv)
    moreover have "r \<in> ptrs s \<longleftrightarrow> (\<exists>n. (n, r) \<in> set (clustersMap s))" by (force simp: ptrs_def)
    ultimately show ?thesis by metis
  qed
  have "store_ok p' s'"
    unfolding store_ok_def
  proof (intro conjI ballI allI impI)
    have "fst ` {x \<in> set (clustersMap s). fst x \<notin> set ns} = fst ` set (clustersMap s) - set ns" by blast
    moreover have "cc_Name ` {c \<in> set (configs s). cc_Name c \<notin> set ns} = names s - set ns" by blast
    ultimately show "fst ` set (clustersMap s') = names s'" unfolding m cs set_filter keys by (rule trans [OF _ sym])
    fix c assume c: "c \<in> set (configs s')"
    then have c': "c \<in> set (configs s)" "cc_Name c \<notin> set ns" by (auto simp: cs simp del: set_somes)
    show "assembled (Endpoints c)" using ok c'(1) by (simp add: store_ok_def del: set_somes)
    fix r assume r': "map_of (clustersMap s') (cc_Name c) = Some r"
    then have rs: "map_of (clustersMap s) (cc_Name c) = Some r"
      using map_of_filter_key [of "\<lambda>n. n \<notin> set ns" "cc_Name c" "clustersMap s"] c'(2) m by simp
    from live_runtime [OF ok c'(1)] rs have live: "r < length (runtimes p)" "serves c (runtimes p ! r)" by auto
    moreover have "r \<notin> dropped ns (configs s) s" using ptr map_of_ptrs [OF r'] by blast
    ultimately show "r < length (runtimes p')" "serves c (runtimes p' ! r)" using r(4) r(5) [of r] by simp_all
  qed (use ok cfg cs maps m in \<open>auto simp: store_ok_def distinct_map_filter simp del: set_somes\<close>)
  moreover have "moved p s p' s'"
    unfolding moved_def using r(4,5) ptr ptr_bound [OF ok]
  proof (intro conjI allI impI)
    fix q assume q: "q < length (runtimes p)" "q \<notin> ptrs s"
    then have "q \<notin> dropped ns (configs s) s" using map_of_ptrs by (auto simp: dropped_def)
    then show "q \<notin> ptrs s'" "runtimes p' ! q = runtimes p ! q" using q ptr r(5) [of q] by auto
  next
    fix q assume q: "q < length (runtimes p')" "q \<notin> ptrs s'" "q \<in> ptrs s \<or> length (runtimes p) \<le> q"
    then have "q \<in> dropped ns (configs s) s" using ptr r(4) by auto
    then show "quiet (runtimes p' ! q)" using q(1) r(4) r(5) [of q] by simp
  qed simp
  ultimately show ?thesis using op cs by blast
qed

lemma fold_release:
  "cm_store (fold releaseXDSOwnership ns cm) = cm_store cm"
  "endpointStateHandlers (fold releaseXDSOwnership ns cm) = endpointStateHandlers cm"
  "nextEndpointEventID (fold releaseXDSOwnership ns cm) = nextEndpointEventID cm"
  "set (xdsManaged (fold releaseXDSOwnership ns cm)) = {n \<in> set (xdsManaged cm). n \<notin> set ns \<or> n = ''''}"
  by (induction ns arbitrary: cm) (auto simp: releaseXDSOwnership_def)

text \<open>When all clusters are compared, the handler knows the new ones.\<close>

lemma told_all:
  assumes "distinct (endpointStateHandlers (mgr sys))" and "calls sys1 = calls sys"
    and "endpointStateHandlers (mgr sys1) = endpointStateHandlers (mgr sys)" and "nextEndpointEventID (mgr sys1) = v"
    and "addresses_of sys1 = address_pairs (somes cs)"
  shows "told sys (notifyEndpointChanges (endpointStateChanges (endpointAddressSnapshot (st_Config (store_of sys)))
    (endpointAddressSnapshot cs) v) sys1)"
  by (rule told_notify) (use assms in \<open>auto simp del: set_somes\<close>)

end
