(* ===== verification/Pixiu_XDSSteps.thy ===== *)
theory Pixiu_XDSSteps
  imports Pixiu_ManagerSteps
begin

text \<open>
  Steps of the cluster manager that remove clusters and that change the clusters owned by xDS:
  \<open>RemoveCluster\<close>, \<open>RemoveXDSClusters\<close>, \<open>UpsertXDSCluster\<close> and \<open>ReplaceXDSClusters\<close>.
\<close>

section \<open>Removal\<close>

lemma names_filtered: "configs s' = filter (\<lambda>c. cc_Name c \<notin> A) (configs s) \<Longrightarrow> names s' = names s - A"
  by (auto simp del: set_somes)

lemma RemoveCluster_step:
  assumes ok: "system_ok sys" and ns: "distinct ns"
  shows "\<exists>sys'. RemoveCluster ns sys = Some sys' \<and> system_ok sys' \<and> told sys sys'
    \<and> configs (store_of sys') = filter (\<lambda>c. cc_Name c \<notin> set ns) (configs (store_of sys))"
proof -
  let ?s = "store_of sys"
  define cm where "cm = fold releaseXDSOwnership ns ((mgr sys)\<lparr>nextEndpointEventID := nextEndpointEventID (mgr sys) + 1\<rparr>)"
  have st: "store_ok (proc sys) ?s" and dh: "distinct (endpointStateHandlers (mgr sys))"
    and xs: "set (xdsManaged (mgr sys)) \<subseteq> names ?s" using ok by (simp_all add: system_ok_def del: set_somes)
  from removeClusters_ok [OF st ns] obtain p' s' where r: "removeClustersLocked ns (proc sys) ?s = Some (p', s')"
      "store_ok p' s'" "moved (proc sys) ?s p' s'" "configs s' = filter (\<lambda>c. cc_Name c \<notin> set ns) (configs ?s)" by blast
  define sys1 where "sys1 = sys\<lparr>proc := p', mgr := cm\<lparr>cm_store := s'\<rparr>\<rparr>"
  define sys' where "sys' = notifyEndpointChanges (endpointStateChanges (endpointAddressSnapshot (st_Config ?s))
    (endpointAddressSnapshot (st_Config s')) (nextEndpointEventID (mgr sys) + 1)) sys1"
  have op: "RemoveCluster ns sys = Some sys'"
    using r(1) by (simp add: RemoveCluster_def nextEndpointEventIDLocked_def sys'_def sys1_def cm_def fold_release)
  have nm: "names s' = names ?s - set ns" by (rule names_filtered) (rule r(4))
  have "'''' \<notin> names ?s" using st by (simp add: store_ok_def del: set_somes)
  then have "set (xdsManaged cm) \<subseteq> names s'"
    unfolding nm cm_def fold_release using xs by auto
  then have "system_ok sys'"
    using r by (intro system_ok_step [OF ok]) (simp_all add: sys'_def sys1_def cm_def fold_release del: set_somes)
  moreover have "told sys sys'"
    unfolding sys'_def
    by (rule told_all [OF dh]) (simp_all add: sys1_def cm_def fold_release del: set_somes)
  ultimately show ?thesis using op r(4) by (auto simp: sys'_def sys1_def)
qed

lemma owned_names_spec:
  "owned_names ns managed = (owned, managed') \<Longrightarrow>
     distinct owned \<and> set owned = set ns \<inter> set managed \<and> set managed' = set managed - set owned"
proof (induction ns arbitrary: managed owned)
  case (Cons n ns)
  show ?case
  proof (cases "n \<in> set managed")
    case True
    with Cons.prems obtain o' where o': "owned_names ns (removeAll n managed) = (o', managed')" "owned = n # o'"
      by (auto split: prod.splits)
    from Cons.IH [OF o'(1)] o'(2) True show ?thesis by auto
  qed (use Cons in auto)
qed simp

lemma RemoveXDSClusters_step:
  assumes ok: "system_ok sys"
  shows "\<exists>sys'. RemoveXDSClusters ns sys = Some sys' \<and> system_ok sys' \<and> told sys sys'
    \<and> configs (store_of sys') =
        filter (\<lambda>c. cc_Name c \<notin> set ns \<inter> set (xdsManaged (mgr sys))) (configs (store_of sys))"
proof -
  let ?s = "store_of sys"
  obtain owned managed where o: "owned_names ns (xdsManaged (mgr sys)) = (owned, managed)" by force
  note o' = owned_names_spec [OF o]
  define cm where "cm = (mgr sys)\<lparr>nextEndpointEventID := nextEndpointEventID (mgr sys) + 1, xdsManaged := managed\<rparr>"
  have st: "store_ok (proc sys) ?s" and dh: "distinct (endpointStateHandlers (mgr sys))"
    and xs: "set (xdsManaged (mgr sys)) \<subseteq> names ?s" using ok by (simp_all add: system_ok_def del: set_somes)
  have d: "distinct owned" and os: "set owned = set ns \<inter> set (xdsManaged (mgr sys))" using o' by auto
  show ?thesis
  proof (cases "owned = []")
    case True
    then have op: "RemoveXDSClusters ns sys = Some (sys\<lparr>mgr := cm\<rparr>)"
      using o by (simp add: RemoveXDSClusters_def nextEndpointEventIDLocked_def cm_def)
    have "system_ok (sys\<lparr>mgr := cm\<rparr>)"
      using o' st xs by (intro system_ok_step [OF ok]) (auto simp: cm_def simp del: set_somes)
    moreover have "told sys (sys\<lparr>mgr := cm\<rparr>)" by (rule told_silent) (simp_all add: cm_def)
    moreover have "set ns \<inter> set (xdsManaged (mgr sys)) = {}" using os True by simp
    ultimately show ?thesis using op by (simp add: cm_def del: set_somes)
  next
    case False
    from removeClusters_ok [OF st d] obtain p' s' where r: "removeClustersLocked owned (proc sys) ?s = Some (p', s')"
      "store_ok p' s'" "moved (proc sys) ?s p' s'" "configs s' = filter (\<lambda>c. cc_Name c \<notin> set owned) (configs ?s)" by blast
    define sys1 where "sys1 = sys\<lparr>proc := p', mgr := cm\<lparr>cm_store := s'\<rparr>\<rparr>"
    define sys' where "sys' = notifyEndpointChanges (endpointStateChanges (endpointAddressSnapshot (st_Config ?s))
      (endpointAddressSnapshot (st_Config s')) (nextEndpointEventID (mgr sys) + 1)) sys1"
    have op: "RemoveXDSClusters ns sys = Some sys'"
      using r(1) o False by (simp add: RemoveXDSClusters_def nextEndpointEventIDLocked_def sys'_def sys1_def cm_def)
    have nm: "names s' = names ?s - set owned" by (rule names_filtered) (rule r(4))
    have "set (xdsManaged cm) \<subseteq> names s'" unfolding nm using xs o' by (auto simp: cm_def simp del: set_somes)
    then have "system_ok sys'"
      using r by (intro system_ok_step [OF ok]) (simp_all add: sys'_def sys1_def cm_def del: set_somes)
    moreover have "told sys sys'"
      unfolding sys'_def by (rule told_all [OF dh]) (simp_all add: sys1_def cm_def del: set_somes)
    ultimately show ?thesis using op r(4) os by (auto simp: sys'_def sys1_def)
  qed
qed

section \<open>One cluster of xDS\<close>

lemma has_cluster_map: "has_cluster n (map Some cs) = Some (n \<in> cc_Name ` set cs)"
  by (induction cs) auto

lemma store_HasCluster_ok: "store_ok p s \<Longrightarrow> store_HasCluster n s = Some (n \<in> names s)"
  using has_cluster_map [of n "configs s"] store_configs [of p s] by (simp add: store_HasCluster_def del: set_somes)

text \<open>
  \<open>UpsertXDSCluster\<close> always returns and keeps the system well-formed. An error changes nothing; a success
  has the cluster in the store and owned by xDS. It sends no events.
\<close>

lemma UpsertXDSCluster_step:
  assumes ok: "system_ok sys"
  shows "\<exists>res sys'. UpsertXDSCluster fs config sys = Some (res, sys') \<and> system_ok sys'
    \<and> calls sys' = calls sys \<and> endpointStateHandlers (mgr sys') = endpointStateHandlers (mgr sys)
    \<and> (case res of Inl _ \<Rightarrow> sys' = sys
       | Inr _ \<Rightarrow> \<exists>c. config = Some c \<and> set (xdsManaged (mgr sys')) = insert (cc_Name c) (set (xdsManaged (mgr sys))))"
proof (cases config)
  case None
  then show ?thesis using ok by (simp add: UpsertXDSCluster_def)
next
  case (Some c)
  let ?s = "store_of sys"
  have st: "store_ok (proc sys) ?s" and st': "store_ok (proc sys) (IncreaseVersion ?s)"
    and xs: "set (xdsManaged (mgr sys)) \<subseteq> names ?s" using ok by (simp_all add: system_ok_def del: set_somes)
  note has = store_HasCluster_ok [OF st, of "cc_Name c"]
  consider (bad) "cc_Name c = '''' \<or> cc_Name c \<in> names ?s \<and> cc_Name c \<notin> set (xdsManaged (mgr sys))"
    | (owned) "cc_Name c \<noteq> ''''" "cc_Name c \<in> set (xdsManaged (mgr sys))"
    | (new) "cc_Name c \<noteq> ''''" "cc_Name c \<notin> names ?s" "cc_Name c \<notin> set (xdsManaged (mgr sys))"
    using xs by blast
  then show ?thesis
  proof cases
    case bad
    then show ?thesis using ok has Some by (auto simp: UpsertXDSCluster_def Let_def simp del: set_somes)
  next
    case owned
    obtain p' s' where op: "store_UpdateCluster fs c (proc sys) (IncreaseVersion ?s) = (p', s')" by force
    note u = UpdateCluster_ok [OF st' op, simplified]
    define sys' where "sys' = sys\<lparr>proc := p', mgr := (mgr sys)\<lparr>cm_store := s'\<rparr>\<rparr>"
    have "cc_Name c \<in> names ?s" using xs owned by blast
    with owned Some has op have eq: "UpsertXDSCluster fs config sys = Some (Inr (), sys')"
      by (simp add: UpsertXDSCluster_def sys'_def Let_def del: set_somes)
    have nm: "names s' = names ?s"
    proof (cases "config_index (cc_Name c) (st_Config ?s)")
      case (Some i)
      with u obtain c' where c': "st_Config s' = (st_Config ?s)[i := Some c']" "same_cluster c c'" by auto
      then show ?thesis by (intro found_names [OF st Some]) (simp_all add: same_cluster_def)
    qed (use u in simp)
    have "system_ok sys'"
      using u xs nm by (intro system_ok_step [OF ok]) (simp_all add: sys'_def del: set_somes)
    then show ?thesis using eq Some owned by (auto simp: sys'_def)
  next
    case new
    obtain c' p' s' where op: "store_AddCluster fs c (proc sys) (IncreaseVersion ?s) = (c', p', s')" by (metis prod.exhaust)
    have g: "given_name c (proc sys) = cc_Name c" using new by (simp add: given_name_def)
    have "given_name c (proc sys) \<notin> names (IncreaseVersion ?s)" using new by (simp add: g del: set_somes)
    note a = AddCluster_ok [OF st' this op, unfolded g, simplified]
    define sys' where "sys' = sys\<lparr>proc := p', mgr := (mgr sys)\<lparr>cm_store := s',
      xdsManaged := List.insert (cc_Name c) (xdsManaged (mgr sys))\<rparr>\<rparr>"
    from new Some has op a have eq: "UpsertXDSCluster fs config sys = Some (Inr (), sys')"
      by (simp add: UpsertXDSCluster_def sys'_def Let_def del: set_somes)
    have "configs s' = configs ?s @ [c']" using a by simp
    then have nm: "names s' = insert (cc_Name c) (names ?s)" using a by simp
    have "system_ok sys'"
      using a xs nm by (intro system_ok_step [OF ok]) (auto simp: sys'_def simp del: set_somes)
    then show ?thesis using eq Some by (auto simp: sys'_def)
  qed
qed

section \<open>All clusters of xDS\<close>

lemma store_ok_heap:
  assumes "store_ok p s" and "length (runtimes p) \<le> length (runtimes p')"
    and "\<And>r. r \<in> ptrs s \<Longrightarrow> runtimes p' ! r = runtimes p ! r"
  shows "store_ok p' s"
proof -
  have "r < length (runtimes p') \<and> serves c (runtimes p' ! r)"
    if "c \<in> set (configs s)" "map_of (clustersMap s) (cc_Name c) = Some r" for c r
    using live_runtime [OF assms(1) that(1)] that(2) assms(2,3) map_of_ptrs [OF that(2)] by auto
  with assms(1) show ?thesis by (simp add: store_ok_def del: set_somes)
qed

subsection \<open>The part that is kept\<close>

lemma static_runtimes_map:
  "map_of (static_runtimes old cs m) n =
     (if n \<in> cc_Name ` set cs \<and> map_of old n \<noteq> None then map_of old n else map_of m n)"
  by (induction cs arbitrary: m) (auto simp: update_conv' split: option.split)

lemma static_runtimes_distinct: "distinct (map fst m) \<Longrightarrow> distinct (map fst (static_runtimes old cs m))"
  by (induction cs arbitrary: m) (auto simp: distinct_update split: option.split)

lemma distinct_submap:
  assumes "distinct (map fst m)" and "distinct (map snd old)" and "set m \<subseteq> set old"
  shows "distinct (map snd m)"
  using assms by (auto simp: distinct_map intro: inj_on_subset)

lemma static_part:
  assumes ok: "store_ok p s" and cfg: "cs = filter P (configs s)"
    and k: "k = \<lparr>st_Config = map Some cs, Version = v, clustersMap = static_runtimes (clustersMap s) cs []\<rparr>"
  shows "store_ok p k" "names k = cc_Name ` set cs"
    "ptrs k = {r. \<exists>c \<in> set cs. map_of (clustersMap s) (cc_Name c) = Some r}"
    "\<And>n. map_of (clustersMap k) n = (if n \<in> cc_Name ` set cs then map_of (clustersMap s) n else None)"
proof -
  note maps = store_ok_maps [OF ok]
  have cs: "configs k = cs" by (simp add: k)
  have sub: "c \<in> set (configs s)" if "c \<in> set cs" for c using that cfg by simp
  have live: "\<exists>r. map_of (clustersMap s) (cc_Name c) = Some r \<and> r < length (runtimes p) \<and> serves c (runtimes p ! r)"
    if "c \<in> set cs" for c using live_runtime [OF ok sub [OF that]] .
  show m: "map_of (clustersMap k) n = (if n \<in> cc_Name ` set cs then map_of (clustersMap s) n else None)" for n
    using live by (auto simp: k static_runtimes_map)
  have d: "distinct (map fst (clustersMap k))" by (simp add: k static_runtimes_distinct)
  have e: "(n, r) \<in> set (clustersMap k) \<longleftrightarrow> n \<in> cc_Name ` set cs \<and> map_of (clustersMap s) n = Some r" for n r
    using m [of n] d by (metis map_of_eq_Some_iff option.distinct(1))
  have "set (clustersMap k) \<subseteq> set (clustersMap s)" using e maps by auto
  then have d2: "distinct (map snd (clustersMap k))" using distinct_submap [OF d] maps by blast
  have keys: "fst ` set (clustersMap k) = cc_Name ` set cs"
  proof (rule set_eqI)
    fix n
    show "n \<in> fst ` set (clustersMap k) \<longleftrightarrow> n \<in> cc_Name ` set cs" using e live by (force simp: image_iff)
  qed
  show "names k = cc_Name ` set cs" by (simp add: cs)
  show "ptrs k = {r. \<exists>c \<in> set cs. map_of (clustersMap s) (cc_Name c) = Some r}"
    using e by (force simp: ptrs_def image_iff)
  have "'''' \<notin> names s" "distinct (map cc_Name (configs s))" using ok by (simp_all add: store_ok_def del: set_somes)
  then have "'''' \<notin> cc_Name ` set cs" "distinct (map cc_Name cs)" using sub by (blast, simp add: cfg distinct_map_filter)
  moreover have "assembled (Endpoints c) \<and> (\<forall>r. map_of (clustersMap k) (cc_Name c) = Some r \<longrightarrow>
      r < length (runtimes p) \<and> serves c (runtimes p ! r))" if c: "c \<in> set cs" for c
    using live [OF c] sub [OF c] ok c by (auto simp: m store_ok_def simp del: set_somes map_of_eq_Some_iff)
  moreover have "st_Config k = map Some cs" by (simp add: k)
  ultimately show "store_ok p k" unfolding store_ok_def cs using d d2 keys by blast
qed

subsection \<open>The part that is built\<close>

lemma fresh_ptrs:
  assumes "store_ok p s" and "n \<notin> names s" and "clustersMap s' = AList.update n r (clustersMap s)"
  shows "ptrs s' = insert r (ptrs s)" "map_of (clustersMap s) n = None"
proof -
  have "fst ` set (clustersMap s) = names s" using assms(1) by (simp add: store_ok_def del: set_somes)
  then show none: "map_of (clustersMap s) n = None" using assms(2) by (simp add: map_of_eq_None_iff)
  with ptrs_update [OF _ assms(3)] other_ptrs [of s n] store_ok_maps [OF assms(1)]
  show "ptrs s' = insert r (ptrs s)" by simp
qed

lemma build_step:
  assumes ok: "store_ok p s" and n: "cc_Name c \<notin> names s" "cc_Name c \<noteq> ''''"
    and apart: "\<And>r. map_of (clustersMap cur) (cc_Name c) = Some r \<Longrightarrow> r \<notin> ptrs s"
    and prep: "prepareClusterConfig fs c p = (c1, p1)"
    and fr: "snapshotForRuntimeReplacement cur (cc_Name c1) p1 = (previous, p2)"
    and rep: "replaceClusterRuntimeWithSnapshot fs (cc_Name c1) c1 previous p2 (s\<lparr>st_Config := st_Config s @ [Some c1]\<rparr>) = (old, p3, s3)"
  shows "store_ok p3 s3 \<and> st_Config s3 = st_Config s @ [Some c1] \<and> listed c1 = listed c
    \<and> length (runtimes p3) = length (runtimes p) + 1
    \<and> clustersMap s3 = AList.update (cc_Name c) (length (runtimes p)) (clustersMap s)
    \<and> (\<forall>q < length (runtimes p). map_of (clustersMap cur) (cc_Name c) \<noteq> Some q \<longrightarrow> runtimes p3 ! q = runtimes p ! q)"
proof -
  note e = prepare_effect [OF prep]
  have n1: "cc_Name c1 = cc_Name c" using e(1) by (simp add: same_cluster_def)
  note f = freeze_effect [OF fr, unfolded n1 e(3)] and r = replaceWith_effect [OF rep]
  let ?r = "length (runtimes p)"
  have m: "clustersMap s3 = AList.update (cc_Name c) ?r (clustersMap s)" using r(2) f(1) n1 by simp
  have len: "length (runtimes p3) = ?r + 1" using r(3) f(1) by simp
  have same: "runtimes p3 ! q = runtimes p ! q" if "q < ?r" "map_of (clustersMap cur) (cc_Name c) \<noteq> Some q" for q
    using f(2) [of q] that r(3) f(1) by (simp add: nth_append del: map_of_eq_Some_iff)
  have new: "serves c1 (runtimes p3 ! ?r)" using new_runtime_serves [OF e(4)] r(3) f(1) by (simp add: nth_append)
  have cs: "st_Config s3 = map Some (configs s @ [c1])" using r(2) store_configs [OF ok] by simp
  have nm: "'''' \<notin> names s" "distinct (map cc_Name (configs s))" using ok by (simp_all add: store_ok_def del: set_somes)
  have "store_ok p3 s3"
  proof (rule store_ok_change [OF ok cs _ _ _ m])
    show "assembled (Endpoints c') \<and> serves c' (runtimes p3 ! ?r)" if "c' \<in> set (configs s @ [c1])" "cc_Name c' = cc_Name c" for c'
    proof -
      have "c' \<notin> set (configs s)" using that(2) n(1) by (metis image_eqI)
      then have "c' = c1" using that(1) by (simp del: set_somes)
      then show ?thesis using new e(4) by simp
    qed
    show "runtimes p3 ! q = runtimes p ! q" if "q \<in> ptrs s" for q
      using that same apart ptr_bound [OF ok that] by blast
  qed (use n n1 nm len ptr_bound [OF ok] in \<open>auto simp del: set_somes\<close>)
  then show ?thesis using m len same prepare_listed [OF prep] cs store_configs [OF ok] by simp
qed

lemma build_xds_ok:
  assumes "store_ok p s" and "distinct (map cc_Name cs)" and "cc_Name ` set cs \<inter> names s = {}" "'''' \<notin> cc_Name ` set cs"
    and "\<forall>c \<in> set cs. \<forall>r. map_of (clustersMap cur) (cc_Name c) = Some r \<longrightarrow> r \<notin> ptrs s \<and> r < length (runtimes p)"
    and "build_xds fs cur cs p s = (p', s')"
  shows "store_ok p' s' \<and> (\<exists>cs'. st_Config s' = st_Config s @ map Some cs' \<and> map listed cs' = map listed cs)
    \<and> length (runtimes p) \<le> length (runtimes p')
    \<and> ptrs s' = ptrs s \<union> {length (runtimes p) ..< length (runtimes p')}
    \<and> (\<forall>q < length (runtimes p). (\<forall>c \<in> set cs. map_of (clustersMap cur) (cc_Name c) \<noteq> Some q) \<longrightarrow> runtimes p' ! q = runtimes p ! q)
    \<and> (\<forall>n \<in> names s. map_of (clustersMap s') n = map_of (clustersMap s) n)"
  using assms
proof (induction cs arbitrary: p s)
  case Nil
  then show ?case by (auto intro: exI [of _ "[]"])
next
  case (Cons c cs)
  obtain c1 p1 where prep: "prepareClusterConfig fs c p = (c1, p1)" by force
  obtain previous p2 where fr: "snapshotForRuntimeReplacement cur (cc_Name c1) p1 = (previous, p2)" by force
  obtain old p3 s3 where rep: "replaceClusterRuntimeWithSnapshot fs (cc_Name c1) c1 previous p2 (s\<lparr>st_Config := st_Config s @ [Some c1]\<rparr>) = (old, p3, s3)"
    by (metis prod.exhaust)
  have rest: "build_xds fs cur cs p3 s3 = (p', s')" using Cons.prems(6) prep fr rep by (simp add: Let_def)
  have n: "cc_Name c \<notin> names s" "cc_Name c \<noteq> ''''" using Cons.prems(3,4) by (auto simp del: set_somes)
  have apart: "r \<notin> ptrs s" "r < length (runtimes p)" if "map_of (clustersMap cur) (cc_Name c) = Some r" for r
    using Cons.prems(5) that by simp_all
  note b = build_step [OF Cons.prems(1) n apart(1) prep fr rep]
  have m: "clustersMap s3 = AList.update (cc_Name c) (length (runtimes p)) (clustersMap s)" using b by blast
  note ptr = fresh_ptrs [OF Cons.prems(1) n(1) m]
  have c1: "cc_Name c1 = cc_Name c" using b by (simp add: listed_def)
  have "configs s3 = configs s @ [c1]" using b by simp
  then have nm: "names s3 = insert (cc_Name c) (names s)" using c1 by simp
  have "r \<notin> ptrs s3 \<and> r < length (runtimes p3)"
    if "c' \<in> set cs" "map_of (clustersMap cur) (cc_Name c') = Some r" for c' r
    using Cons.prems(5) [rule_format, of c' r] that b ptr(1) by auto
  moreover have "cc_Name ` set cs \<inter> names s3 = {}" using nm Cons.prems(2,3) by (auto simp del: set_somes)
  ultimately have ih: "store_ok p' s'" "\<exists>cs'. st_Config s' = st_Config s3 @ map Some cs' \<and> map listed cs' = map listed cs"
    "length (runtimes p3) \<le> length (runtimes p')"
    "ptrs s' = ptrs s3 \<union> {length (runtimes p3) ..< length (runtimes p')}"
    "\<forall>q < length (runtimes p3). (\<forall>c \<in> set cs. map_of (clustersMap cur) (cc_Name c) \<noteq> Some q) \<longrightarrow> runtimes p' ! q = runtimes p3 ! q"
    "\<forall>n \<in> names s3. map_of (clustersMap s') n = map_of (clustersMap s3) n"
    using Cons.IH [OF _ _ _ _ _ rest] b Cons.prems(2,4) by simp_all
  have "ptrs s' = ptrs s \<union> {length (runtimes p) ..< length (runtimes p')}"
    using ih(3,4) ptr(1) b by auto
  moreover from ih(2) obtain cs' where "st_Config s' = st_Config s3 @ map Some cs'" "map listed cs' = map listed cs" by blast
  then have "st_Config s' = st_Config s @ map Some (c1 # cs') \<and> map listed (c1 # cs') = map listed (c # cs)" using b by simp
  moreover have "runtimes p' ! q = runtimes p ! q"
    if "q < length (runtimes p)" "\<forall>c \<in> set (c # cs). map_of (clustersMap cur) (cc_Name c) \<noteq> Some q" for q
    using that ih(5) b by simp
  moreover have "map_of (clustersMap s') n = map_of (clustersMap s) n" if "n \<in> names s" for n
  proof -
    have "n \<noteq> cc_Name c" "n \<in> names s3" using that n(1) nm by blast+
    moreover from this(2) have "map_of (clustersMap s') n = map_of (clustersMap s3) n" using ih(6) by blast
    ultimately show ?thesis using m by (simp add: update_conv')
  qed
  moreover have "length (runtimes p) \<le> length (runtimes p')" using b ih(3) by linarith
  ultimately show ?case using ih(1) by blast
qed

lemma validate_xds_Inr:
  "validate_xds static managed clusters = Inr ns \<Longrightarrow> clusters = map Some (somes clusters)
     \<and> ns = managed @ map cc_Name (somes clusters) \<and> distinct (map cc_Name (somes clusters))
     \<and> cc_Name ` set (somes clusters) \<inter> (insert '''' (set static \<union> set managed)) = {}"
proof (induction static managed clusters rule: validate_xds.induct)
  case (3 static managed c cs)
  then have "cc_Name c \<noteq> ''''" "cc_Name c \<notin> set managed" "cc_Name c \<notin> set static"
    "validate_xds static (managed @ [cc_Name c]) cs = Inr ns"
    by (auto split: if_splits)
  with 3 show ?case by (auto simp del: set_somes)
qed auto

lemma validate_xds_accepts:
  "distinct (map cc_Name cs) \<Longrightarrow> cc_Name ` set cs \<inter> (insert '''' (set static \<union> set managed)) = {} \<Longrightarrow>
   validate_xds static managed (map Some cs) = Inr (managed @ map cc_Name cs)"
  by (induction cs arbitrary: managed) auto

text \<open>
  \<open>ReplaceXDSClusters\<close> rejects and changes nothing, or has exactly the given clusters owned by xDS
  after the others, which keep their configurations and their runtimes as they are.
\<close>

definition xds_replaced :: "'h ClusterConfig option list \<Rightarrow> 'h system \<Rightarrow> 'h system \<Rightarrow> bool" where
  "xds_replaced clusters sys sys' \<longleftrightarrow>
     (\<exists>cs. configs (store_of sys') = static_configs (mgr sys) @ cs \<and> map listed cs = map listed (somes clusters))
     \<and> xdsManaged (mgr sys') = map cc_Name (somes clusters)
     \<and> (\<forall>c \<in> set (static_configs (mgr sys)). \<exists>r.
          map_of (clustersMap (store_of sys)) (cc_Name c) = Some r
          \<and> map_of (clustersMap (store_of sys')) (cc_Name c) = Some r
          \<and> runtimes (proc sys') ! r = runtimes (proc sys) ! r)"

lemma ptr_name:
  assumes "store_ok p s" and "map_of (clustersMap s) n = Some r" and "map_of (clustersMap s) n' = Some r"
  shows "n = n'"
  using assms store_ok_maps [OF assms(1)] by (metis Pair_inject distinct_map inj_onD map_of_SomeD snd_conv)

lemma other_name:
  assumes ok: "store_ok p s" and r: "map_of (clustersMap s) n = Some r" and n: "n \<notin> cc_Name ` set cs"
  shows "r \<notin> {r. \<exists>c \<in> set cs. map_of (clustersMap s) (cc_Name c) = Some r}"
proof
  assume "r \<in> {r. \<exists>c \<in> set cs. map_of (clustersMap s) (cc_Name c) = Some r}"
  then obtain c where c: "c \<in> set cs" "map_of (clustersMap s) (cc_Name c) = Some r" by blast
  with ptr_name [OF ok r c(2)] n show False by blast
qed

lemma ReplaceXDSClusters_step:
  assumes ok: "system_ok sys" and op: "ReplaceXDSClusters fs clusters sys = (res, sys')"
  shows "case res of Inl _ \<Rightarrow> sys' = sys | Inr _ \<Rightarrow> system_ok sys' \<and> told sys sys' \<and> xds_replaced clusters sys sys'"
proof (cases "validate_xds (map cc_Name (static_configs (mgr sys))) [] clusters")
  case (Inl e)
  then show ?thesis using op by (auto simp: ReplaceXDSClusters_def Let_def)
next
  case (Inr ns)
  let ?cur = "store_of sys" and ?p = "proc sys" and ?st = "static_configs (mgr sys)"
  have ns: "ns = map cc_Name (somes clusters)" and d: "distinct (map cc_Name (somes clusters))"
    and v: "cc_Name ` set (somes clusters) \<inter> (insert '''' (cc_Name ` set ?st)) = {}"
    using validate_xds_Inr [OF Inr] by (simp_all del: set_somes)
  have st: "store_ok ?p ?cur" and dh: "distinct (endpointStateHandlers (mgr sys))"
    and acc: "accounted ?p (ptrs ?cur)" using ok by (simp_all add: system_ok_def del: set_somes)
  define k where "k = \<lparr>st_Config = map Some ?st, Version = Version ?cur, clustersMap = static_runtimes (clustersMap ?cur) ?st []\<rparr>"
  note s = static_part [OF st static_configs_def k_def]
  obtain p' s' where b: "build_xds fs ?cur (somes clusters) ?p k = (p', s')" by force
  have apart: "r \<notin> ptrs k \<and> r < length (runtimes ?p)"
    if "c \<in> set (somes clusters)" "map_of (clustersMap ?cur) (cc_Name c) = Some r" for c r
  proof -
    have "cc_Name c \<notin> cc_Name ` set ?st" using v that(1) by blast
    with that(2) have "r \<notin> ptrs k" unfolding s(3) by (rule other_name [OF st])
    then show ?thesis using ptr_bound [OF st map_of_ptrs [OF that(2)]] by blast
  qed
  have "cc_Name ` set (somes clusters) \<inter> names k = {}" "'''' \<notin> cc_Name ` set (somes clusters)"
    using v unfolding s(2) by blast+
  note x = build_xds_ok [OF s(1) d this _ b]
  have "\<forall>c \<in> set (somes clusters). \<forall>r. map_of (clustersMap ?cur) (cc_Name c) = Some r \<longrightarrow> r \<notin> ptrs k \<and> r < length (runtimes ?p)"
    using apart by blast
  note x = x [OF this]
  define replaced where "replaced = map (map_of (clustersMap ?cur)) (xdsManaged (mgr sys))"
  define sys1 where "sys1 = sys\<lparr>proc := stopClusters replaced p', mgr := (mgr sys)\<lparr>nextEndpointEventID := nextEndpointEventID (mgr sys) + 1,
    cm_store := IncreaseVersion s', xdsManaged := ns\<rparr>\<rparr>"
  have eq: "res = Inr ()" "sys' = notifyEndpointChanges (endpointStateChanges (endpointAddressSnapshot (st_Config ?cur))
      (endpointAddressSnapshot (st_Config s')) (nextEndpointEventID (mgr sys) + 1)) sys1"
    using op Inr b
    by (simp_all add: ReplaceXDSClusters_def Let_def k_def nextEndpointEventIDLocked_def sys1_def replaced_def)
  have x': "store_ok p' s'" "length (runtimes ?p) \<le> length (runtimes p')"
      "ptrs s' = ptrs k \<union> {length (runtimes ?p) ..< length (runtimes p')}"
      "\<And>q. q < length (runtimes ?p) \<Longrightarrow> \<forall>c \<in> set (somes clusters). map_of (clustersMap ?cur) (cc_Name c) \<noteq> Some q \<Longrightarrow>
         runtimes p' ! q = runtimes ?p ! q"
      "\<And>c. c \<in> set ?st \<Longrightarrow> map_of (clustersMap s') (cc_Name c) = map_of (clustersMap ?cur) (cc_Name c)"
    using x s(4) by (simp_all add: s(2) del: set_somes)
  have owned: "n \<notin> cc_Name ` set ?st" if "n \<in> set (xdsManaged (mgr sys))" for n
    using that by (auto simp: static_configs_def simp del: set_somes)
  have gone: "r < length (runtimes ?p) \<and> r \<notin> ptrs s'" if r: "Some r \<in> set replaced" for r
  proof -
    obtain n where n: "n \<in> set (xdsManaged (mgr sys))" "map_of (clustersMap ?cur) n = Some r"
      using r by (auto simp: replaced_def simp del: map_of_eq_Some_iff)
    have "r \<notin> ptrs k" unfolding s(3) using n(2) owned [OF n(1)] by (rule other_name [OF st])
    then show ?thesis using x'(3) ptr_bound [OF st map_of_ptrs [OF n(2)]] by simp
  qed
  have sok: "store_ok (proc sys1) (store_of sys1)"
    using gone ptr_bound [OF x'(1)] by (auto simp: sys1_def intro!: store_ok_heap [OF x'(1)])
  have quiet: "quiet (runtimes (proc sys1) ! r)" if r: "r < length (runtimes (proc sys1))" "r \<notin> ptrs s'" for r
  proof -
    have rp: "r < length (runtimes ?p)" "r < length (runtimes p')" "r \<notin> ptrs k" using r x'(2,3) by (auto simp: sys1_def)
    show ?thesis
    proof (cases "r \<in> ptrs ?cur")
      case True
      then obtain c where c: "c \<in> set (configs ?cur)" "map_of (clustersMap ?cur) (cc_Name c) = Some r"
        using ptr_config [OF st] by blast
      with rp(3) have "c \<notin> set ?st" unfolding s(3) by blast
      with c(1) have "cc_Name c \<in> set (xdsManaged (mgr sys))" by (simp add: static_configs_def del: set_somes)
      with c(2) have "Some r \<in> set replaced" unfolding replaced_def by (metis image_eqI list.set_map)
      then show ?thesis using rp by (simp add: sys1_def)
    next
      case False
      then have "runtimes p' ! r = runtimes ?p ! r" using x'(4) [OF rp(1)] map_of_ptrs by blast
      moreover have "quiet (runtimes ?p ! r)" using acc False rp(1) by (simp add: accounted_def)
      ultimately show ?thesis using rp by (simp add: sys1_def)
    qed
  qed
  from x obtain cs' where cs': "st_Config s' = st_Config k @ map Some cs'" "map listed cs' = map listed (somes clusters)" by auto
  have cfg: "configs s' = ?st @ cs'" by (simp add: cs'(1) k_def)
  have nm: "map cc_Name cs' = map cc_Name (somes clusters)"
    using cs'(2) by (metis (no_types, lifting) comp_apply fst_conv listed_def map_eq_conv map_map)

  have "set ns \<subseteq> names s'" unfolding ns cfg nm [symmetric] by auto
  with sok quiet dh have "system_ok sys'"
    by (simp add: eq system_ok_def accounted_def sys1_def del: set_somes)
  moreover have "told sys sys'" unfolding eq(2) by (rule told_all [OF dh]) (simp_all add: sys1_def del: set_somes)
  moreover have "xds_replaced clusters sys sys'"
    unfolding xds_replaced_def
  proof (intro conjI ballI)
    fix c assume c: "c \<in> set ?st"
    then obtain r where r: "map_of (clustersMap ?cur) (cc_Name c) = Some r"
      using live_runtime [OF st, of c] by (auto simp: static_configs_def simp del: map_of_eq_Some_iff)
    have rk: "r \<in> ptrs s'" using c r unfolding x'(3) s(3) by blast
    have rl: "r < length (runtimes ?p)" using ptr_bound [OF st map_of_ptrs [OF r]] .
    have "runtimes p' ! r = runtimes ?p ! r"
      using x'(4) [OF rl] apart rk x'(3) rl by (metis Un_iff atLeastLessThan_iff not_le)
    moreover have "Some r \<notin> set replaced" using gone rk by blast
    ultimately have "runtimes (proc sys') ! r = runtimes ?p ! r" using rl x'(2) by (simp add: eq sys1_def)
    then show "\<exists>r. map_of (clustersMap ?cur) (cc_Name c) = Some r \<and> map_of (clustersMap (store_of sys')) (cc_Name c) = Some r
        \<and> runtimes (proc sys') ! r = runtimes ?p ! r"
      using r x'(5) [OF c] by (simp add: eq sys1_def del: map_of_eq_Some_iff)
  qed (use cfg cs'(2) ns in \<open>auto simp: eq sys1_def\<close>)
  ultimately show ?thesis by (simp add: eq(1))
qed

end
