(* ===== verification/Pixiu_SwapSteps.thy ===== *)
theory Pixiu_SwapSteps
  imports Pixiu_XDSSteps
begin

text \<open>
  Steps of the cluster manager that swap in a store that was built aside: \<open>CompareAndSetStore\<close>, and the
  reconciliation of the Spring Cloud adapter that uses it.
\<close>

section \<open>Cursors carried over\<close>

text \<open>A runtime that differs in its cursor only.\<close>

definition kept :: "'h Cluster \<Rightarrow> 'h Cluster \<Rightarrow> bool" where
  "kept t t' \<longleftrightarrow> HealthCheck t' = HealthCheck t \<and> (\<forall>c. serves c t \<longrightarrow> serves c t')"

lemma kept_refl: "kept t t"
  by (simp add: kept_def)

lemma kept_CarryOver: "kept t t' \<Longrightarrow> kept t (CarryOverCursorTo t' t'')"
  by (simp add: kept_def CarryOverCursorTo_def [symmetric]) (simp add: CarryOverCursorTo_def)

lemma kept_quiet: "kept t t' \<Longrightarrow> quiet t' = quiet t"
  by (simp add: kept_def quiet_def)

lemma carry_over_effect:
  "length (runtimes (carryOverRuntimeStateFrom old s p)) = length (runtimes p)"
  "q < length (runtimes p) \<Longrightarrow> kept (runtimes p ! q) (runtimes (carryOverRuntimeStateFrom old s p) ! q)"
proof -
  let ?f = "\<lambda>c. carry_cursor old s (cc_Name c)"
  have "length (runtimes (fold ?f cs p')) = length (runtimes p') \<and> (\<forall>t. q < length (runtimes p') \<longrightarrow>
      kept t (runtimes p' ! q) \<longrightarrow> kept t (runtimes (fold ?f cs p') ! q))" for cs p'
  proof (induction cs arbitrary: p')
    case (Cons c cs)
    have "length (runtimes (?f c p')) = length (runtimes p')"
      "q < length (runtimes p') \<Longrightarrow> kept t (runtimes p' ! q) \<Longrightarrow> kept t (runtimes (?f c p') ! q)" for t
      by (auto simp: carry_cursor_def kept_CarryOver split: option.split)
    with Cons.IH [of "?f c p'"] show ?case by simp
  qed simp
  from this [of "configs s" p] kept_refl [of "runtimes p ! q"] show "length (runtimes (carryOverRuntimeStateFrom old s p)) = length (runtimes p)"
    "q < length (runtimes p) \<Longrightarrow> kept (runtimes p ! q) (runtimes (carryOverRuntimeStateFrom old s p) ! q)"
    by (simp_all add: carryOverRuntimeStateFrom_def)
qed

lemma store_ok_kept:
  assumes "store_ok p s" and "length (runtimes p) \<le> length (runtimes p')"
    and "\<And>r. r \<in> ptrs s \<Longrightarrow> kept (runtimes p ! r) (runtimes p' ! r)"
  shows "store_ok p' s"
proof -
  have "r < length (runtimes p') \<and> serves c (runtimes p' ! r)"
    if "c \<in> set (configs s)" "map_of (clustersMap s) (cc_Name c) = Some r" for c r
    using live_runtime [OF assms(1) that(1)] that(2) assms(2) assms(3) [OF map_of_ptrs [OF that(2)]] by (auto simp: kept_def)
  with assms(1) show ?thesis by (simp add: store_ok_def del: set_somes)
qed

section \<open>Publishing a store\<close>

lemma published:
  assumes st: "store_ok p1 k1" and rep: "repaired p k rs p1 k1" and acc: "accounted p (ptrs cur \<union> ptrs k)"
    and rs': "\<And>r. r \<in> ptrs cur \<Longrightarrow> r \<notin> ptrs k \<Longrightarrow> r \<notin> ptrs k1 \<Longrightarrow> Some r \<in> set rs'"
      "\<And>r. Some r \<in> set rs' \<Longrightarrow> r \<notin> ptrs k1"
    and p': "p' = stopClusters (rs @ rs') (carryOverRuntimeStateFrom old k1 p1)"
  shows "store_ok p' k1 \<and> accounted p' (ptrs k1)"
proof
  note carry = carry_over_effect [where old = old and s = k1 and p = p1] and rp = repairedD [OF rep]
  have len: "length (runtimes p') = length (runtimes p1)" using carry(1) by (simp add: p')
  have stop: "Some r \<notin> set (rs @ rs')" if "r \<in> ptrs k1" for r using that rp(5) [of r] rs'(2) [of r] by auto
  show "store_ok p' k1"
  proof (rule store_ok_kept [OF st])
    fix r assume r: "r \<in> ptrs k1"
    with ptr_bound [OF st] stop carry show "kept (runtimes p1 ! r) (runtimes p' ! r)" by (simp add: p')
  qed (simp add: len)
  show "accounted p' (ptrs k1)"
    unfolding accounted_def
  proof (intro allI impI)
    fix r assume r: "r < length (runtimes p')" "r \<notin> ptrs k1"
    show "quiet (runtimes p' ! r)"
    proof (cases "Some r \<in> set (rs @ rs')")
      case True
      then show ?thesis using r(1) len carry(1) by (simp add: p')
    next
      case False
      with r rp(4) [of r] len have "\<not> (r \<in> ptrs k \<or> length (runtimes p) \<le> r)" by auto
      then have "r \<notin> ptrs k" "r < length (runtimes p)" by auto
      moreover from this have "r \<notin> ptrs cur" using False r(2) rs'(1) [of r] by auto
      ultimately have "r \<notin> ptrs k" "r < length (runtimes p)" "r \<notin> ptrs cur" by auto
      then have "quiet (runtimes p ! r)" "HealthCheck (runtimes p1 ! r) = HealthCheck (runtimes p ! r)"
        using acc rp(3) by (auto simp: accounted_def)
      then show ?thesis using False r(1) len carry kept_quiet [OF carry(2), of r] by (simp add: p' quiet_def)
    qed
  qed
qed

lemma address_pairs_listed:
  "address_pairs cs = (\<Union>(n, as) \<in> listed ` set cs. {n} \<times> (GetAddress ` set as))"
  by (force simp: address_pairs_def listed_def simp del: set_somes)

lemma listed_address_pairs:
  assumes "map listed cs = map listed cs'"
  shows "address_pairs cs = address_pairs cs'"
proof -
  have "listed ` set cs = listed ` set cs'" using assms by (metis set_map)
  then show ?thesis by (simp only: address_pairs_listed)
qed

lemma swap_step:
  assumes st: "store_ok (proc sys) (store_of sys)" and dh: "distinct (endpointStateHandlers (mgr sys))"
    and k: "cand_ok (proc sys) k" "ptrs k \<inter> ptrs (store_of sys) = {}"
    and acc: "accounted (proc sys) (ptrs (store_of sys) \<union> ptrs k)"
    and v: "Version k = Version (store_of sys)"
    and op: "CompareAndSetStore fs (Some k) sys = (b, sys')"
  shows "b \<and> system_ok sys' \<and> told sys sys' \<and> map listed (configs (store_of sys')) = map listed (configs k)"
proof -
  let ?cur = "store_of sys"
  obtain rs p1 k1 where e: "ensureRuntimeClustersFrom fs ?cur (proc sys) k = (rs, p1, k1)" by (metis prod.exhaust)
  have "\<forall>r \<in> ptrs ?cur. r < length (runtimes (proc sys))" using ptr_bound [OF st] by blast
  note r = ensureRuntimeClustersFrom_ok [OF k this e]
  define rs' where "rs' = map Some (runtimeClustersNotIn k1 ?cur)"
  define p' where "p' = stopClusters (rs @ rs') (carryOverRuntimeStateFrom ?cur k1 p1)"
  have "store_ok p' k1 \<and> accounted p' (ptrs k1)"
    by (rule published [OF _ _ acc _ _ p'_def]) (use r in \<open>auto simp: rs'_def runtimeClustersNotIn_def ptrs_def\<close>)
  note pub = this
  define sys1 where "sys1 = sys\<lparr>mgr := (mgr sys)\<lparr>nextEndpointEventID := nextEndpointEventID (mgr sys) + 1,
    cm_store := k1, xdsManaged := []\<rparr>, proc := p'\<rparr>"
  have eq: "b" "sys' = notifyEndpointChanges (endpointStateChanges (endpointAddressSnapshot (st_Config ?cur))
      (endpointAddressSnapshot (st_Config k)) (nextEndpointEventID (mgr sys) + 1)) sys1"
    using op e v by (auto simp: CompareAndSetStore_def compareAndSetStore_def nextEndpointEventIDLocked_def Let_def
        sys1_def p'_def rs'_def)
  have "system_ok sys'" using pub dh by (simp add: eq(2) system_ok_def sys1_def)
  moreover have "address_pairs (configs k1) = address_pairs (configs k)" using r listed_address_pairs by blast
  then have "told sys sys'" unfolding eq(2) by (intro told_all [OF dh]) (simp_all add: sys1_def del: set_somes)
  ultimately show ?thesis using eq r by (simp add: sys1_def)
qed

lemma CompareAndSetStore_fresh:
  assumes ok: "system_ok sys" and k: "cand_ok (proc sys) k" "clustersMap k = []"
    and op: "CompareAndSetStore fs (Some k) sys = (b, sys')"
  shows "system_ok sys' \<and> told sys sys' \<and> (b \<longleftrightarrow> Version k = Version (store_of sys))
    \<and> (if b then map listed (configs (store_of sys')) = map listed (configs k) else sys' = sys)"
proof (cases "Version k = Version (store_of sys)")
  case True
  have "ptrs k = {}" using k(2) by (simp add: ptrs_def)
  with swap_step [OF _ _ k(1) _ _ True op] ok True show ?thesis by (simp add: system_ok_def del: set_somes)
next
  case False
  then show ?thesis using op ok
    by (auto simp: CompareAndSetStore_def compareAndSetStore_def Let_def told_silent)
qed

lemma CompareAndSetStore_current:
  assumes ok: "system_ok sys" and op: "CompareAndSetStore fs None sys = (b, sys')"
  shows "b \<and> system_ok sys' \<and> told sys sys' \<and> map listed (configs (store_of sys')) = map listed (configs (store_of sys))"
proof -
  let ?cur = "store_of sys"
  have st: "store_ok (proc sys) ?cur" and dh: "distinct (endpointStateHandlers (mgr sys))"
    and acc: "accounted (proc sys) (ptrs ?cur \<union> ptrs ?cur)" using ok by (simp_all add: system_ok_def)
  obtain rs p1 k1 where e: "ensureRuntimeClusters fs (proc sys) ?cur = (rs, p1, k1)" by (metis prod.exhaust)
  have "cand_ok (proc sys) ?cur" using st store_ok_cand by blast
  note r = ensureRuntimeClusters_ok [OF this e]
  define p' where "p' = stopClusters (rs @ []) (carryOverRuntimeStateFrom k1 k1 p1)"
  have "store_ok p' k1 \<and> accounted p' (ptrs k1)"
    by (rule published [OF _ _ acc _ _ p'_def]) (use r in simp_all)
  note pub = this
  define sys1 where "sys1 = sys\<lparr>mgr := (mgr sys)\<lparr>nextEndpointEventID := nextEndpointEventID (mgr sys) + 1,
    cm_store := k1, xdsManaged := []\<rparr>, proc := p'\<rparr>"
  have eq: "b" "sys' = notifyEndpointChanges (endpointStateChanges (endpointAddressSnapshot (st_Config ?cur))
      (endpointAddressSnapshot (st_Config ?cur)) (nextEndpointEventID (mgr sys) + 1)) sys1"
    using op e by (auto simp: CompareAndSetStore_def compareAndSetStore_def nextEndpointEventIDLocked_def Let_def
        sys1_def p'_def)
  have "system_ok sys'" using pub dh by (simp add: eq(2) system_ok_def sys1_def)
  moreover have "address_pairs (configs k1) = address_pairs (configs ?cur)" using r listed_address_pairs by blast
  then have "told sys sys'" unfolding eq(2) by (intro told_all [OF dh]) (simp_all add: sys1_def del: set_somes)
  ultimately show ?thesis using eq r by (simp add: sys1_def)
qed

section \<open>A store filled from a registry\<close>

lemma NewStore_ok: "store_ok p (NewStore v)" "ptrs (NewStore v) = {}" "configs (NewStore v) = []"
  by (simp_all add: store_ok_def NewStore_def ptrs_def)

lemma Version_replace [simp]:
  "replaceClusterRuntime fs n c p s = (old, p', s') \<Longrightarrow> Version s' = Version s"
  using replace_effect(2) by fastforce

lemma Version_SetEndpoint:
  assumes "store_SetEndpoint fs n e p s = (a, p', s')"
  shows "Version s' = Version s"
proof -
  have cur: "Version s' = Version s" if "current_runtime fs n c p s = (r, p', s')" for c r p p' and s s' :: "'a ClusterStore"
    using that by (auto simp: current_runtime_def Let_def split: option.splits if_splits prod.splits)
  have old: "Version s' = Version s" if "set_existing fs n e i p s = (a, p', s')" for e i a p p' and s s' :: "'a ClusterStore"
    using that by (auto simp: set_existing_def Let_def split: prod.splits dest!: cur)
  have add: "Version s' = Version s" if "store_AddCluster fs c p s = (c', p', s')" for c c' p p' and s s' :: "'a ClusterStore"
    using that by (auto simp: store_AddCluster_def Let_def split: prod.splits if_splits dest!: Version_replace)
  show ?thesis
    using assms by (auto simp: store_SetEndpoint_def Let_def split: option.splits prod.splits dest!: old add)
qed

lemma SetEndpoint_unchecked:
  assumes ok: "store_ok p s" and n: "n \<noteq> ''''" and hc: "\<forall>c \<in> set (configs s). HealthChecks c = []"
    and op: "store_SetEndpoint fs n (Some e) p s = (a, p', s')"
  shows "store_ok p' s' \<and> moved p s p' s' \<and> (\<forall>c \<in> set (configs s'). HealthChecks c = [])
    \<and> names s' = insert n (names s)"
proof -
  note o = SetEndpoint_ok [OF ok n op]
  show ?thesis
  proof (cases "config_index n (st_Config s)")
    case None
    with o obtain c where c: "st_Config s' = st_Config s @ [Some c]" "HealthChecks c = []" "cc_Name c = n" by auto
    then have "configs s' = configs s @ [c]" by simp
    with o hc c(2,3) show ?thesis by (auto simp del: set_somes)
  next
    case (Some i)
    note i = found_config [OF ok Some]
    from Some o obtain c where c: "st_Config s' = (st_Config s)[i := Some c]" "same_cluster (configs s ! i) c" by auto
    have "HealthChecks c = []" using c(2) hc nth_mem [OF i(1)] by (simp add: same_cluster_def del: set_somes)
    moreover have "configs s' = (configs s)[i := c]" using configs_update [OF _ c(1)] ok store_ok_cand by blast
    moreover have "set ((configs s)[i := c]) \<subseteq> insert c (set (configs s))" by (rule set_update_subset_insert)
    ultimately have "\<forall>c \<in> set (configs s'). HealthChecks c = []" using hc by (metis insertE subsetD)
    moreover have "names s' = names s"
      using c(2) i(2) by (intro found_names [OF ok Some _ c(1)]) (simp add: same_cluster_def)
    moreover have "n \<in> names s" using no_config [OF ok, of n] Some by auto
    ultimately show ?thesis using o by blast
  qed
qed

lemma set_endpoints_ok:
  "store_ok p s \<Longrightarrow> \<forall>c \<in> set (configs s). HealthChecks c = [] \<Longrightarrow> '''' \<notin> fst ` set es \<Longrightarrow>
   set_endpoints fs es p s = (p', s') \<Longrightarrow>
     store_ok p' s' \<and> moved p s p' s' \<and> (\<forall>c \<in> set (configs s'). HealthChecks c = [])
     \<and> names s' = names s \<union> fst ` set es \<and> Version s' = Version s"
proof (induction es arbitrary: p s)
  case (Cons x es)
  obtain n e where x: "x = (n, e)" by force
  obtain a p1 s1 where op: "store_SetEndpoint fs n (Some e) p s = (a, p1, s1)" by (metis prod.exhaust)
  have n: "n \<noteq> ''''" using Cons.prems(3) x by auto
  note s1 = SetEndpoint_unchecked [OF Cons.prems(1) n Cons.prems(2) op] Version_SetEndpoint [OF op]
  have rest: "set_endpoints fs es p1 s1 = (p', s')" using Cons.prems(4) x op by simp
  have "'''' \<notin> fst ` set es" using Cons.prems(3) by auto
  from Cons.IH [OF _ _ this rest] s1 have ih: "store_ok p' s'" "moved p1 s1 p' s'" "\<forall>c \<in> set (configs s'). HealthChecks c = []"
    "names s' = names s1 \<union> fst ` set es" "Version s' = Version s" by simp_all
  moreover have "names s' = names s \<union> fst ` set (x # es)" using ih(4) s1(1) x by auto
  moreover have "moved p s p1 s1" using s1(1) by (rule conjE) (elim conjE)
  from moved_trans [OF this ih(2)] have "moved p s p' s'" .
  ultimately show ?case by (intro conjI)
qed simp

lemma quiet_unchecked:
  assumes "store_ok p s" and "\<forall>c \<in> set (configs s). HealthChecks c = []" and "r \<in> ptrs s"
  shows "quiet (runtimes p ! r)"
proof -
  obtain c where c: "c \<in> set (configs s)" "map_of (clustersMap s) (cc_Name c) = Some r"
    using ptr_config [OF assms(1,3)] by blast
  have "serves c (runtimes p ! r)" using live_runtime [OF assms(1) c(1)] c(2) by auto
  moreover have "HealthChecks c = []" using assms(2) c(1) by blast
  ultimately show ?thesis by (auto simp: serves_def checked_def quiet_def split: option.splits)
qed

text \<open>
  The reconciliation leaves a well-formed system and leaks no runtime, whether or not its store is
  still of the version it read; the store is swapped in only if it is.
\<close>

lemma swap_in_endpoints_step:
  assumes ok: "system_ok sys" and es: "'''' \<notin> fst ` set es" and op: "swap_in_endpoints fs v es sys = (b, sys')"
  shows "system_ok sys' \<and> told sys sys' \<and> (b \<longleftrightarrow> v = Version (store_of sys))
    \<and> (if b then names (store_of sys') = fst ` set es else store_of sys' = store_of sys)"
proof -
  let ?cur = "store_of sys" and ?p = "proc sys"
  have st: "store_ok ?p ?cur" and dh: "distinct (endpointStateHandlers (mgr sys))"
    and acc: "accounted ?p (ptrs ?cur)" and xs: "set (xdsManaged (mgr sys)) \<subseteq> names ?cur"
    using ok by (simp_all add: system_ok_def del: set_somes)
  obtain p k where f: "set_endpoints fs es ?p (NewStore v) = (p, k)" by force
  have "\<forall>c \<in> set (configs (NewStore v :: 'a ClusterStore)). HealthChecks c = []" by (simp add: NewStore_def)
  from set_endpoints_ok [OF NewStore_ok(1) this es f]
  have k: "store_ok p k" "moved ?p (NewStore v) p k" "\<forall>c \<in> set (configs k). HealthChecks c = []"
    "names k = fst ` set es" "Version k = v" by (simp_all add: NewStore_ok(3) del: set_somes) (simp add: NewStore_def)
  have len: "length (runtimes ?p) \<le> length (runtimes p)" using k(2) by (simp add: moved_def)
  have old: "r \<notin> ptrs k \<and> runtimes p ! r = runtimes ?p ! r" if "r < length (runtimes ?p)" for r
    using k(2) that NewStore_ok(2) by (auto simp: moved_def)
  have new: "quiet (runtimes p ! r)" if "r < length (runtimes p)" "length (runtimes ?p) \<le> r" for r
  proof (cases "r \<in> ptrs k")
    case True
    then show ?thesis by (rule quiet_unchecked [OF k(1,3)])
  next
    case False
    then show ?thesis using k(2) that by (auto simp: moved_def)
  qed
  have acc': "accounted p (ptrs ?cur)"
    unfolding accounted_def
  proof (intro allI impI)
    fix r assume r: "r < length (runtimes p)" "r \<notin> ptrs ?cur"
    show "quiet (runtimes p ! r)"
      using new [of r] old [of r] acc r by (cases "r < length (runtimes ?p)") (simp_all add: accounted_def)
  qed
  have st': "store_ok p ?cur" using old ptr_bound [OF st] by (intro store_ok_heap [OF st len]) blast
  let ?sys = "sys\<lparr>proc := p\<rparr>"
  have op': "CompareAndSetStore fs (Some k) ?sys = (b, sys')" using op f by (simp add: swap_in_endpoints_def)
  show ?thesis
  proof (cases "Version k = Version ?cur")
    case True
    have "ptrs k \<inter> ptrs (store_of ?sys) = {}" using old ptr_bound [OF st] by auto
    moreover have "accounted (proc ?sys) (ptrs (store_of ?sys) \<union> ptrs k)" using acc' by (simp add: accounted_def)
    moreover have "cand_ok (proc ?sys) k" using k(1) store_ok_cand by auto
    ultimately have sw: "b" "system_ok sys'" "told ?sys sys'" "map listed (configs (store_of sys')) = map listed (configs k)"
      using swap_step [OF _ _ _ _ _ _ op'] True st' dh by simp_all
    have "names (store_of sys') = fst ` set es" using listed_names [OF sw(4)] k(4) by (metis set_map)
    with sw(1-3) True k(5) show ?thesis by (simp add: told_def del: set_somes)
  next
    case False
    then have "sys' = ?sys" "\<not> b" using op' by (simp_all add: CompareAndSetStore_def compareAndSetStore_def Let_def)
    then show ?thesis using st' acc' dh xs False k(5) by (simp add: system_ok_def told_silent del: set_somes)
  qed
qed

end
