(* ===== verification/Pixiu_ManagerRun.thy ===== *)
theory Pixiu_ManagerRun
  imports Pixiu_SwapSteps
begin

text \<open>
  The cluster manager as a transition system: its operations, the states they reach, and what holds in
  all of them.
\<close>

section \<open>Picks and health events\<close>

lemma change_kept_step:
  assumes ok: "system_ok sys" and keep: "r < length (runtimes (proc sys)) \<Longrightarrow> kept (runtimes (proc sys) ! r) (f (runtimes (proc sys) ! r))"
  shows "system_ok (sys\<lparr>proc := change_runtime r f (proc sys)\<rparr>) \<and> told sys (sys\<lparr>proc := change_runtime r f (proc sys)\<rparr>)"
proof -
  let ?p = "change_runtime r f (proc sys)"
  have k: "kept (runtimes (proc sys) ! q) (runtimes ?p ! q)" if "q < length (runtimes (proc sys))" for q
    using that keep by (auto simp: kept_refl)
  have st: "store_ok (proc sys) (store_of sys)" using ok by (simp add: system_ok_def)
  have "store_ok ?p (store_of sys)" by (rule store_ok_kept [OF st]) (use k ptr_bound [OF st] in auto)
  moreover have "accounted ?p (ptrs (store_of sys))"
    using ok kept_quiet [OF k] by (auto simp: accounted_def system_ok_def)
  ultimately show ?thesis using ok by (simp add: system_ok_def told_silent del: set_somes)
qed

lemma kept_handleEndpointHealth: "kept t (handleEndpointHealth event t)"
proof -
  have "serves c (handleEndpointHealth event t)" if s: "serves c t" for c
  proof -
    obtain sn where sn: "c_endpoints t = Some sn" "snapshot_inv sn"
      "map declared (es_all sn) = map declared (somes (Endpoints c))"
      using s by (auto simp: serves_def shows_config_def)
    note spec = address_health_spec [OF sn(2), of "ev_EndpointAddress event" "ev_Healthy event"]
    show ?thesis
    proof (cases "withEndpointAddressHealth (ev_EndpointAddress event) (ev_Healthy event) sn")
      case (Changed sn')
      then have "snapshot_inv sn'" "map declared (es_all sn') = map declared (es_all sn)"
        using spec by (auto simp: changes_exactly_def declared_def)
      with Changed sn s show ?thesis
        by (auto simp: handleEndpointHealth_def UpdateEndpointAddressHealth_def publish_def serves_def shows_config_def)
    qed (use sn s in \<open>auto simp: handleEndpointHealth_def UpdateEndpointAddressHealth_def publish_def\<close>)
  qed
  moreover have "HealthCheck (handleEndpointHealth event t) = HealthCheck t"
    by (auto simp: handleEndpointHealth_def UpdateEndpointAddressHealth_def publish_def
        split: option.split health_change.split)
  ultimately show ?thesis by (simp add: kept_def)
qed

lemma HealthEvent_step: "system_ok sys \<Longrightarrow> system_ok (HealthEvent r ev sys) \<and> told sys (HealthEvent r ev sys)"
  unfolding HealthEvent_def by (rule change_kept_step) (simp_all add: kept_handleEndpointHealth)

text \<open>
  A balancer that gets a cursor leaves the configuration it shares alone. Those of the tree do; one
  that gets a bare configuration works on a copy.
\<close>

definition polite :: "'h load_balancer \<Rightarrow> bool" where
  "polite b \<longleftrightarrow>
     (case b of
        SnapshotBalancer zeroCopy handler \<Rightarrow>
          \<forall>ctx. RoundRobinCursor ctx \<noteq> None \<longrightarrow> Config (snd (handler ctx)) = Config ctx
      | LegacyBalancer handler \<Rightarrow> True)"

lemma in_tree_keeps_Config:
  "RoundRobinCursor ctx \<noteq> None \<Longrightarrow> Config (snd (HandlerWithSnapshot ops rnd b policy ctx)) = Config ctx"
  by (cases b) (auto simp: HandlerWithSnapshot_def Rand_pick_def RoundRobin_pick_def WeightRandom_pick_def
      RingHashing_pick_def MaglevHash_pick_def Let_def split: option.split sum.split)

lemma in_tree_polite: "LoadBalancerStrategy ops rnd policy name = Some b \<Longrightarrow> polite b"
  by (auto simp: LoadBalancerStrategy_def polite_def in_tree_keeps_Config)

lemma rehashed [simp]:
  "es_all (snd (HealthyConsistentHash fs s)) = es_all s"
  "snapshot_inv (snd (HealthyConsistentHash fs s)) = snapshot_inv s"
  by (auto simp: HealthyConsistentHash_def rebuildConsistentHash_def storeHealthyConsistentHash_def
      snapshot_inv_def Let_def split: option.split)

definition same_config :: "'h ClusterConfig \<Rightarrow> 'h ClusterConfig \<Rightarrow> bool" where
  "same_config c c' \<longleftrightarrow> same_cluster c c' \<and> Endpoints c' = Endpoints c"

lemma ensured [simp]: "same_config c (EnsureConsistentHash fs c)"
  by (simp add: same_config_def same_cluster_def EnsureConsistentHash_def CreateConsistentHash_def split: option.split)

lemma pick_keeps_Config:
  assumes "\<forall>b'. b = Some b' \<longrightarrow> polite b'" and "Config ctx = Some c" and "RoundRobinCursor ctx \<noteq> None"
  shows "\<exists>c'. Config (snd (lb_PickEndpoint fs b ctx)) = Some c' \<and> same_config c c'"
proof -
  have refl: "same_config c c" by (simp add: same_config_def same_cluster_def)
  show ?thesis
  proof (cases b)
    case None
    then show ?thesis using assms(2) refl by (simp add: lb_PickEndpoint_def pickEndpoint_def)
  next
    case (Some b')
    show ?thesis
    proof (cases b')
      case (SnapshotBalancer z h)
      define ctx' where "ctx' = (if z then ctx else defensiveSnapshotPickContext ctx)"
      have "Config ctx' = Some c" "RoundRobinCursor ctx' \<noteq> None"
        using assms(2,3) by (simp_all add: ctx'_def defensiveSnapshotPickContext_def)
      with assms(1) Some SnapshotBalancer have "Config (snd (h ctx')) = Some c" by (simp add: polite_def)
      then show ?thesis using Some SnapshotBalancer assms(2) refl
        by (simp add: lb_PickEndpoint_def pickEndpoint_def Let_def case_prod_beta ctx'_def)
    next
      case (LegacyBalancer h)
      then show ?thesis using Some assms(2,3)
        by (auto simp: lb_PickEndpoint_def pickEndpoint_def legacy_pick_def Let_def case_prod_beta)
    qed
  qed
qed

lemma serves_picked:
  assumes "serves c t" and "same_config (c_config t) c'" and "c_endpoints t = Some sn"
  shows "serves c (t\<lparr>c_endpoints := Some (snd (HealthyConsistentHash fs sn)), c_config := c', roundRobinCursor := k\<rparr>)"
  using assms by (auto simp: serves_def shows_config_def same_config_def same_cluster_def)

lemma pickOneEndpoint_effect:
  assumes pol: "\<forall>n b. strategies n = Some b \<longrightarrow> polite b"
  shows "\<exists>f. snd (pickOneEndpoint fs strategies r p) = change_runtime r f p \<and> kept (runtimes p ! r) (f (runtimes p ! r))"
proof -
  have same: "p = change_runtime r (\<lambda>t. t) p" by (simp add: change_runtime_def)
  let ?t = "runtimes p ! r"
  show ?thesis
  proof (cases "\<exists>sn. c_endpoints ?t = Some sn \<and> HealthyEndpointCount (Some sn) \<noteq> 0")
    case False
    then have "snd (pickOneEndpoint fs strategies r p) = p"
      by (auto simp: pickOneEndpoint_def Let_def split: option.split)
    with same show ?thesis by (metis kept_refl)
  next
    case True
    then obtain sn where sn: "c_endpoints ?t = Some sn" "HealthyEndpointCount (Some sn) \<noteq> 0" by blast
    define lb where "lb = (case strategies (LbStr (c_config ?t)) of Some b \<Rightarrow> Some b | None \<Rightarrow> strategies ''Rand'')"
    obtain ctx where ctx: "pick_context fs lb ?t sn = (ctx, snd (HealthyConsistentHash fs sn))"
      "Config ctx = Some (c_config ?t)" "RoundRobinCursor ctx \<noteq> None"
      by (simp add: pick_context_def Let_def case_prod_beta)
    obtain e after where pk: "lb_PickEndpoint fs lb ctx = (e, after)" by force
    have "\<forall>b. lb = Some b \<longrightarrow> polite b" using pol by (auto simp: lb_def split: option.splits)
    from pick_keeps_Config [OF this ctx(2,3), of fs] pk
    obtain c' where c': "Config after = Some c'" "same_config (c_config ?t) c'" by auto
    define f :: "'a Cluster \<Rightarrow> 'a Cluster" where "f = (\<lambda>t. t\<lparr>c_endpoints := Some (snd (HealthyConsistentHash fs sn)), c_config := c',
      roundRobinCursor := (case RoundRobinCursor after of None \<Rightarrow> roundRobinCursor t | Some k \<Rightarrow> k)\<rparr>)"
    have "snd (pickOneEndpoint fs strategies r p) = change_runtime r f p"
      using sn ctx(1) pk c'(1) by (simp add: pickOneEndpoint_def Let_def lb_def f_def change_runtime_def)
    moreover have "kept ?t (f ?t)" using serves_picked [OF _ c'(2) sn(1)] by (simp add: kept_def f_def)
    ultimately show ?thesis by blast
  qed
qed

lemma PickEndpoint_step:
  assumes ok: "system_ok sys" and pol: "\<forall>n b. strategies n = Some b \<longrightarrow> polite b"
  shows "system_ok (snd (PickEndpoint fs strategies n sys)) \<and> told sys (snd (PickEndpoint fs strategies n sys))"
proof (cases "getRuntimeCluster n sys")
  case None
  then show ?thesis using ok by (simp add: PickEndpoint_def told_silent)
next
  case (Some r)
  obtain f where f: "snd (pickOneEndpoint fs strategies r (proc sys)) = change_runtime r f (proc sys)"
    "kept (runtimes (proc sys) ! r) (f (runtimes (proc sys) ! r))" using pickOneEndpoint_effect [OF pol] by blast
  have "snd (PickEndpoint fs strategies n sys) = sys\<lparr>proc := change_runtime r f (proc sys)\<rparr>"
    using Some f(1) by (simp add: PickEndpoint_def case_prod_beta)
  then show ?thesis using change_kept_step [OF ok, of r f] f(2) by simp
qed

section \<open>Runs\<close>

text \<open>
  The operations of the manager that change the system. A candidate of \<open>CompareAndSetStore\<close> is a copy
  without runtimes, as \<open>CloneStore\<close> gives, however its configurations were edited.
\<close>

datatype 'h op =
    OpAdd "'h ClusterConfig" | OpUpdate "'h ClusterConfig" | OpRemove "string list"
  | OpSet string "Endpoint option" | OpDelete string string
  | OpUpsertXDS "'h ClusterConfig option" | OpReplaceXDS "'h ClusterConfig option list" | OpRemoveXDS "string list"
  | OpSwap "'h ClusterConfig list" "32 word" | OpTouch | OpFetch "32 word" "(string \<times> Endpoint) list"
  | OpPick string | OpHealth nat EndpointHealthEvent
  | OpAddState | OpRemoveState "64 word" | OpAddRemoval | OpRemoveRemoval "64 word"

definition run_op ::
    "'h factories \<Rightarrow> (string \<Rightarrow> 'h load_balancer option) \<Rightarrow> 'h op \<Rightarrow> 'h system \<Rightarrow> 'h system option" where
  "run_op fs strategies op sys =
     (case op of
        OpAdd c \<Rightarrow> Some (AddCluster fs c sys)
      | OpUpdate c \<Rightarrow> Some (UpdateCluster fs c sys)
      | OpRemove ns \<Rightarrow> RemoveCluster ns sys
      | OpSet n e \<Rightarrow> Some (SetEndpoint fs n e sys)
      | OpDelete n i \<Rightarrow> DeleteEndpoint fs n i sys
      | OpUpsertXDS c \<Rightarrow> map_option snd (UpsertXDSCluster fs c sys)
      | OpReplaceXDS cs \<Rightarrow> Some (snd (ReplaceXDSClusters fs cs sys))
      | OpRemoveXDS ns \<Rightarrow> RemoveXDSClusters ns sys
      | OpSwap cs v \<Rightarrow>
          Some (snd (CompareAndSetStore fs (Some \<lparr>st_Config = map Some cs, Version = v, clustersMap = []\<rparr>) sys))
      | OpTouch \<Rightarrow> Some (snd (CompareAndSetStore fs None sys))
      | OpFetch v es \<Rightarrow> Some (snd (swap_in_endpoints fs v es sys))
      | OpPick n \<Rightarrow> Some (snd (PickEndpoint fs strategies n sys))
      | OpHealth r ev \<Rightarrow> Some (HealthEvent r ev sys)
      | OpAddState \<Rightarrow> Some (sys\<lparr>mgr := snd (AddEndpointStateHandler (mgr sys))\<rparr>)
      | OpRemoveState i \<Rightarrow> Some (sys\<lparr>mgr := RemoveEndpointStateHandler i (mgr sys)\<rparr>)
      | OpAddRemoval \<Rightarrow> Some (sys\<lparr>mgr := snd (AddEndpointRemovalHandler (mgr sys))\<rparr>)
      | OpRemoveRemoval i \<Rightarrow> Some (sys\<lparr>mgr := RemoveEndpointRemovalHandler i (mgr sys)\<rparr>))"

text \<open>
  What callers see to: a cluster that is added has a new name; endpoints are set in a cluster that is
  named; an endpoint is not deleted from a cluster with a nil endpoint; clusters to remove are named
  once; and the configurations of a store to swap in have distinct names.
\<close>

definition admissible :: "'h op \<Rightarrow> 'h system \<Rightarrow> bool" where
  "admissible op sys \<longleftrightarrow>
     (case op of
        OpAdd c \<Rightarrow> given_name c (proc sys) \<notin> names (store_of sys)
      | OpRemove ns \<Rightarrow> distinct ns
      | OpSet n e \<Rightarrow> n \<noteq> ''''
      | OpDelete n i \<Rightarrow> (\<forall>c. findClusterConfig n (store_of sys) = Some c \<longrightarrow> None \<notin> set (Endpoints c))
      | OpSwap cs v \<Rightarrow> distinct (map cc_Name cs) \<and> '''' \<notin> cc_Name ` set cs
      | OpFetch v es \<Rightarrow> '''' \<notin> fst ` set es
      | _ \<Rightarrow> True)"

inductive manager_run ::
    "'h factories \<Rightarrow> (string \<Rightarrow> 'h load_balancer option) \<Rightarrow> 'h system \<Rightarrow> 'h op list \<Rightarrow> 'h system \<Rightarrow> bool"
  for fs strategies where
  run_nil: "manager_run fs strategies sys [] sys"
| run_cons: "admissible op sys \<Longrightarrow> run_op fs strategies op sys = Some sys1 \<Longrightarrow> manager_run fs strategies sys1 ops sys' \<Longrightarrow>
    manager_run fs strategies sys (op # ops) sys'"

inductive_cases run_consE: "manager_run fs strategies sys (op # ops) sys'"

lemma fresh_cand_ok:
  "distinct (map cc_Name cs) \<Longrightarrow> '''' \<notin> cc_Name ` set cs \<Longrightarrow>
   cand_ok p \<lparr>st_Config = map Some cs, Version = v, clustersMap = []\<rparr>"
  by (simp add: cand_ok_def)

lemma handlers_only:
  assumes "system_ok sys" and "cm_store cm = store_of sys" and "xdsManaged cm = xdsManaged (mgr sys)"
    and "distinct (endpointStateHandlers cm)"
  shows "system_ok (sys\<lparr>mgr := cm\<rparr>) \<and> told sys (sys\<lparr>mgr := cm\<rparr>)"
  using assms by (simp add: system_ok_def told_silent del: set_somes)

lemma DeleteEndpoint_returns:
  assumes ok: "system_ok sys" and "\<forall>c. findClusterConfig n (store_of sys) = Some c \<longrightarrow> None \<notin> set (Endpoints c)"
  shows "\<exists>sys'. DeleteEndpoint fs n i sys = Some sys'"
proof -
  have "endpoint_index i (Endpoints (the (st_Config (store_of sys) ! j))) \<noteq> None"
    if "config_index n (st_Config (store_of sys)) = Some j" for j
    using that assms endpoint_index_no_nil by (simp add: findClusterConfig_def found_config [of "proc sys"] system_ok_def)
  then show ?thesis
    by (auto simp: DeleteEndpoint_def store_DeleteEndpoint_def nextEndpointEventIDLocked_def Let_def
        split: option.split prod.split)
qed

text \<open>One step: it returns, keeps the system well-formed, and tells the handlers, \<open>UpsertXDSCluster\<close> apart.\<close>

lemma run_op_ok:
  assumes ok: "system_ok sys" and adm: "admissible op sys" and pol: "\<forall>n b. strategies n = Some b \<longrightarrow> polite b"
  shows "\<exists>sys'. run_op fs strategies op sys = Some sys' \<and> system_ok sys' \<and>
    ((\<forall>c. op \<noteq> OpUpsertXDS c) \<longrightarrow> told sys sys')"
proof (cases op)
  case (OpAdd c)
  then show ?thesis using AddCluster_step [OF ok] adm by (simp add: run_op_def admissible_def del: set_somes)
next
  case (OpUpdate c)
  then show ?thesis using UpdateCluster_step [OF ok] by (simp add: run_op_def)
next
  case (OpRemove ns)
  then show ?thesis using RemoveCluster_step [OF ok] adm by (auto simp: run_op_def admissible_def)
next
  case (OpSet n e)
  then show ?thesis using SetEndpoint_step [OF ok] adm by (simp add: run_op_def admissible_def)
next
  case (OpDelete n i)
  then show ?thesis using DeleteEndpoint_returns [OF ok] DeleteEndpoint_step [OF ok] adm
    by (force simp: run_op_def admissible_def)
next
  case (OpUpsertXDS c)
  then show ?thesis using UpsertXDSCluster_step [OF ok, of fs c] by (auto simp: run_op_def)
next
  case (OpReplaceXDS cs)
  obtain res sys' where r: "ReplaceXDSClusters fs cs sys = (res, sys')" by force
  from ReplaceXDSClusters_step [OF ok r] have "system_ok sys' \<and> told sys sys'"
    by (cases res) (use ok in \<open>auto simp: told_silent\<close>)
  then show ?thesis using OpReplaceXDS r by (simp add: run_op_def)
next
  case (OpRemoveXDS ns)
  then show ?thesis using RemoveXDSClusters_step [OF ok, of ns] by (auto simp: run_op_def)
next
  case (OpSwap cs v)
  let ?k = "\<lparr>st_Config = map Some cs, Version = v, clustersMap = []\<rparr>"
  obtain b sys' where r: "CompareAndSetStore fs (Some ?k) sys = (b, sys')" by force
  have "cand_ok (proc sys) ?k" using adm OpSwap by (intro fresh_cand_ok) (simp_all add: admissible_def)
  from CompareAndSetStore_fresh [OF ok this _ r] show ?thesis using OpSwap r by (simp add: run_op_def)
next
  case OpTouch
  obtain b sys' where "CompareAndSetStore fs None sys = (b, sys')" by force
  with CompareAndSetStore_current [OF ok] OpTouch show ?thesis by (auto simp: run_op_def)
next
  case (OpFetch v es)
  obtain b sys' where "swap_in_endpoints fs v es sys = (b, sys')" by force
  with swap_in_endpoints_step [OF ok] OpFetch adm show ?thesis by (auto simp: run_op_def admissible_def)
next
  case (OpPick n)
  then show ?thesis using PickEndpoint_step [OF ok pol] by (simp add: run_op_def)
next
  case (OpHealth r ev)
  then show ?thesis using HealthEvent_step [OF ok] by (simp add: run_op_def)
qed (use ok handlers_only [OF ok] in \<open>auto simp: run_op_def AddEndpointStateHandler_def RemoveEndpointStateHandler_def
  AddEndpointRemovalHandler_def RemoveEndpointRemovalHandler_def Let_def system_ok_def distinct_removeAll simp del: set_somes\<close>)

section \<open>The start\<close>

lemma add_clusters_ok:
  "store_ok p s \<Longrightarrow> distinct (map cc_Name cs) \<Longrightarrow> '''' \<notin> cc_Name ` set cs \<Longrightarrow> cc_Name ` set cs \<inter> names s = {} \<Longrightarrow>
   add_clusters fs cs p s = (p', s') \<Longrightarrow> store_ok p' s' \<and> moved p s p' s'"
proof (induction cs arbitrary: p s)
  case (Cons c cs)
  obtain c' p1 s1 where add: "store_AddCluster fs c p s = (c', p1, s1)" by (metis prod.exhaust)
  have g: "given_name c p = cc_Name c" using Cons.prems(3) by (auto simp: given_name_def)
  have "given_name c p \<notin> names s" using Cons.prems(4) unfolding g by auto
  note a = AddCluster_ok [OF Cons.prems(1) this add, unfolded g]
  have "configs s1 = configs s @ [c']" using a by simp
  then have "names s1 = insert (cc_Name c) (names s)" using a by simp
  then have "cc_Name ` set cs \<inter> names s1 = {}" using Cons.prems(2,4) by (auto simp del: set_somes)
  with Cons.IH [of p1 s1] a Cons.prems(2,3,5) add moved_trans show ?case by auto
qed simp

lemma CreateDefaultClusterManager_ok:
  assumes "distinct (map cc_Name cs)" and "'''' \<notin> cc_Name ` set cs" and "runtimes p = []"
  shows "system_ok (CreateDefaultClusterManager fs cs p)"
proof -
  let ?s = "\<lparr>st_Config = [], Version = 0, clustersMap = []\<rparr>"
  obtain p' s' where a: "add_clusters fs cs p ?s = (p', s')" by force
  have "store_ok p ?s" by (simp add: store_ok_def)
  from add_clusters_ok [OF this assms(1,2) _ a] have "store_ok p' s'" "moved p ?s p' s'" by auto
  moreover from this(2) have "accounted p' (ptrs s')"
    by (rule accounted_moved [rotated]) (simp add: accounted_def assms(3))
  ultimately show ?thesis
    by (simp add: CreateDefaultClusterManager_def newClusterStore_def a system_ok_def)
qed

text \<open>The states that admissible operations reach from the start.\<close>

definition reachable :: "'h factories \<Rightarrow> (string \<Rightarrow> 'h load_balancer option) \<Rightarrow> 'h system \<Rightarrow> bool" where
  "reachable fs strategies sys \<longleftrightarrow>
     (\<exists>cs p ops. distinct (map cc_Name cs) \<and> '''' \<notin> cc_Name ` set cs \<and> runtimes p = []
       \<and> manager_run fs strategies (CreateDefaultClusterManager fs cs p) ops sys)"

lemma manager_run_ok:
  "manager_run fs strategies sys ops sys' \<Longrightarrow> system_ok sys \<Longrightarrow> \<forall>n b. strategies n = Some b \<longrightarrow> polite b \<Longrightarrow> system_ok sys'"
proof (induction rule: manager_run.induct)
  case (run_cons op sys sys1 ops sys')
  with run_op_ok [OF run_cons.prems(1) run_cons.hyps(1) run_cons.prems(2), of fs] show ?case by auto
qed

lemma reachable_ok:
  "reachable fs strategies sys \<Longrightarrow> \<forall>n b. strategies n = Some b \<longrightarrow> polite b \<Longrightarrow> system_ok sys"
  unfolding reachable_def using CreateDefaultClusterManager_ok manager_run_ok by blast

lemma start_reachable:
  "distinct (map cc_Name cs) \<Longrightarrow> '''' \<notin> cc_Name ` set cs \<Longrightarrow> runtimes p = [] \<Longrightarrow>
   reachable fs strategies (CreateDefaultClusterManager fs cs p)"
  unfolding reachable_def using run_nil by blast

lemma manager_run_snoc:
  "manager_run fs strategies sys ops sys1 \<Longrightarrow> admissible op sys1 \<Longrightarrow> run_op fs strategies op sys1 = Some sys' \<Longrightarrow>
   manager_run fs strategies sys (ops @ [op]) sys'"
  by (induction rule: manager_run.induct) (auto intro: manager_run.intros)

lemma reachable_step:
  "reachable fs strategies sys \<Longrightarrow> admissible op sys \<Longrightarrow> run_op fs strategies op sys = Some sys' \<Longrightarrow>
   reachable fs strategies sys'"
  unfolding reachable_def using manager_run_snoc by blast

section \<open>What a pick returns\<close>

lemma healthy_members: "snapshot_inv s \<Longrightarrow> es_healthy s = filter (\<lambda>e. \<not> UnHealthy e) (es_all s)"
  by (simp add: snapshot_inv_def)

lemma pickOneEndpoint_member:
  assumes "fst (pickOneEndpoint fs strategies r p) = Some e" and "c_endpoints (runtimes p ! r) = Some sn" and "snapshot_inv sn"
  shows "e \<in> set (es_healthy sn)"
proof -
  define lb where "lb = (case strategies (LbStr (c_config (runtimes p ! r))) of Some b \<Rightarrow> Some b | None \<Rightarrow> strategies ''Rand'')"
  define ctx where "ctx = fst (pick_context fs lb (runtimes p ! r) sn)"
  have ctx: "ctx_HealthyEndpoints ctx = es_healthy sn" "HealthyByID ctx = Some sn"
    by (simp_all add: ctx_def pick_context_def Let_def case_prod_beta)
  then have "ctx_ok ctx" using assms(3) by (simp add: ctx_ok_def)
  moreover have "fst (pickEndpoint fs lb ctx) = Some e"
    using assms(1,2) by (auto simp: pickOneEndpoint_def lb_def [symmetric] ctx_def lb_PickEndpoint_def Let_def
        case_prod_beta split: if_splits)
  ultimately have "e \<in> set (ctx_HealthyEndpoints ctx)" by (rule pick_member)
  then show ?thesis by (simp add: ctx(1))
qed

lemma runtime_of:
  assumes st: "store_ok p s" and r: "map_of (clustersMap s) n = Some r"
  shows "\<exists>c sn. findClusterConfig n s = Some c \<and> r < length (runtimes p) \<and> serves c (runtimes p ! r)
    \<and> c_endpoints (runtimes p ! r) = Some sn \<and> snapshot_inv sn
    \<and> map declared (es_all sn) = map declared (somes (Endpoints c))"
proof -
  obtain c where c: "c \<in> set (configs s)" "map_of (clustersMap s) (cc_Name c) = Some r"
    using ptr_config [OF st map_of_ptrs [OF r]] by blast
  then have n: "cc_Name c = n" using ptr_name [OF st _ r] by blast
  then have "n \<in> names s" using c(1) by blast
  then obtain i where i: "config_index n (st_Config s) = Some i" using no_config [OF st, of n] by auto
  note f = found_config [OF st i]
  have "distinct (map cc_Name (configs s))" using st by (simp add: store_ok_def)
  from same_name [OF this c(1) nth_mem [OF f(1)]] have "configs s ! i = c" using f(2) n by simp
  then have "findClusterConfig n s = Some c" using i f by (simp add: findClusterConfig_def)
  moreover have "r < length (runtimes p)" "serves c (runtimes p ! r)" using live_runtime [OF st c(1)] c(2) by auto
  ultimately show ?thesis by (auto simp: serves_def shows_config_def)
qed

section \<open>What a handler hears\<close>

lemma handlers_kept [simp]:
  "endpointStateHandlers (mgr (AddCluster fs c sys)) = endpointStateHandlers (mgr sys)"
  "endpointStateHandlers (mgr (UpdateCluster fs c sys)) = endpointStateHandlers (mgr sys)"
  "endpointStateHandlers (mgr (SetEndpoint fs n e sys)) = endpointStateHandlers (mgr sys)"
  "endpointStateHandlers (mgr (snd (ReplaceXDSClusters fs cs sys))) = endpointStateHandlers (mgr sys)"
  "endpointStateHandlers (mgr (snd (CompareAndSetStore fs k sys))) = endpointStateHandlers (mgr sys)"
  "endpointStateHandlers (mgr (snd (swap_in_endpoints fs v es sys))) = endpointStateHandlers (mgr sys)"
  "endpointStateHandlers (mgr (snd (PickEndpoint fs strategies n sys))) = endpointStateHandlers (mgr sys)"
  "endpointStateHandlers (mgr (HealthEvent r ev sys)) = endpointStateHandlers (mgr sys)"
  by (simp_all add: AddCluster_def UpdateCluster_def SetEndpoint_def ReplaceXDSClusters_def CompareAndSetStore_def
      compareAndSetStore_def swap_in_endpoints_def PickEndpoint_def HealthEvent_def nextEndpointEventIDLocked_def
      Let_def case_prod_beta split: sum.split option.split)

lemma handlers_returned:
  "RemoveCluster ns sys = Some sys' \<Longrightarrow> endpointStateHandlers (mgr sys') = endpointStateHandlers (mgr sys)"
  "RemoveXDSClusters ns sys = Some sys' \<Longrightarrow> endpointStateHandlers (mgr sys') = endpointStateHandlers (mgr sys)"
  "DeleteEndpoint fs n i sys = Some sys' \<Longrightarrow> endpointStateHandlers (mgr sys') = endpointStateHandlers (mgr sys)"
  by (auto simp: RemoveCluster_def RemoveXDSClusters_def DeleteEndpoint_def nextEndpointEventIDLocked_def fold_release
      Let_def case_prod_beta split: option.splits if_splits)

lemma handler_stays:
  assumes "run_op fs strategies op sys = Some sys'" and "h \<in> set (endpointStateHandlers (mgr sys))"
    and "op \<noteq> OpRemoveState h" and "\<forall>c. op \<noteq> OpUpsertXDS c"
  shows "h \<in> set (endpointStateHandlers (mgr sys'))"
  using assms
  by (cases op) (auto simp: run_op_def AddEndpointStateHandler_def RemoveEndpointStateHandler_def
      AddEndpointRemovalHandler_def RemoveEndpointRemovalHandler_def Let_def dest: handlers_returned)

definition keeps_telling :: "64 word \<Rightarrow> 'h op list \<Rightarrow> bool" where
  "keeps_telling h ops \<longleftrightarrow> list_all (\<lambda>op. case op of OpUpsertXDS c \<Rightarrow> False | OpRemoveState i \<Rightarrow> i \<noteq> h | _ \<Rightarrow> True) ops"

lemma run_told:
  assumes "manager_run fs strategies sys ops sys'" and "system_ok sys" and "\<forall>n b. strategies n = Some b \<longrightarrow> polite b"
    and "h \<in> set (endpointStateHandlers (mgr sys))" and "keeps_telling h ops"
  shows "\<exists>new. calls sys' = calls sys @ new \<and> fold apply_change (heard h new) (addresses_of sys) = addresses_of sys'"
  using assms
proof (induction rule: manager_run.induct)
  case (run_nil sys)
  then show ?case by simp
next
  case (run_cons op sys sys1 ops sys')
  have op: "op \<noteq> OpRemoveState h" "\<forall>c. op \<noteq> OpUpsertXDS c" "keeps_telling h ops"
    using run_cons.prems(4) by (auto simp: keeps_telling_def)
  have s1: "system_ok sys1" "told sys sys1"
    using run_op_ok [OF run_cons.prems(1) run_cons.hyps(1) run_cons.prems(2), of fs] run_cons.hyps(2) op(2) by auto
  then obtain new where new: "calls sys1 = calls sys @ new" "fold apply_change (heard h new) (addresses_of sys) = addresses_of sys1"
    using run_cons.prems(3) by (auto simp: told_def)
  have "h \<in> set (endpointStateHandlers (mgr sys1))"
    by (rule handler_stays [OF run_cons.hyps(2) run_cons.prems(3) op(1,2)])
  from run_cons.IH [OF s1(1) run_cons.prems(2) this op(3)]
  obtain new' where "calls sys' = calls sys1 @ new'" "fold apply_change (heard h new') (addresses_of sys1) = addresses_of sys'"
    by blast
  with new have "calls sys' = calls sys @ (new @ new')"
    "fold apply_change (heard h (new @ new')) (addresses_of sys) = addresses_of sys'" by (simp_all del: set_somes)
  then show ?case by blast
qed

section \<open>Setting an endpoint by its identity\<close>

lemma resolve_by_id_find:
  "case find (\<lambda>x. ep_ID x = ep_ID e) (somes es) of
     None \<Rightarrow> action (resolve_by_id e i es) = setEndpointAppend
   | Some x \<Rightarrow> action (resolve_by_id e i es) =
       (if endpointContentEqualForSet x e then setEndpointIdempotent else setEndpointReplace)"
  by (induction e i es rule: resolve_by_id.induct) (auto split: option.split_asm cong: option.case_cong)

lemma resolve_by_id_target: "targetID (resolve_by_id e i es) = ep_ID e"
  by (induction e i es rule: resolve_by_id.induct) auto

lemma content_equal_refl:
  assumes "distinct (map fst (ep_Metadata e))"
    and "ep_Address e' = ep_Address e" "ep_Metadata e' = ep_Metadata e" "ep_LLMMeta e' = ep_LLMMeta e"
  shows "endpointContentEqualForSet e' e"
  using assms by (auto simp: endpointContentEqualForSet_def socketAddressContentEqual_def stringMapEqualForSet_def
      llmMetaEqualForSet_def list_all_iff)

text \<open>The endpoints with an identity and the others.\<close>

definition only_one :: "string \<Rightarrow> Endpoint \<Rightarrow> Endpoint option list \<Rightarrow> Endpoint option list \<Rightarrow> bool" where
  "only_one i e es es' \<longleftrightarrow>
     filter (\<lambda>x. ep_ID x = i) (somes es') = [e]
     \<and> filter (\<lambda>x. ep_ID x \<noteq> i) (somes es') = filter (\<lambda>x. ep_ID x \<noteq> i) (somes es)"

lemma only_one_slot:
  assumes "assembled es" and "k < length es" "es ! k = Some old" and "ep_ID e = ep_ID old"
  shows "only_one (ep_ID old) e es (es[k := Some e])"
proof -
  note s = somes_split [OF assms(2,3)]
  have "somes (es[k := Some e]) = somes (take k es) @ e # somes (drop (k + 1) es)"
    using assms(2) by (simp add: upd_conv_take_nth_drop)
  moreover have "\<forall>x \<in> set (somes (take k es) @ somes (drop (k + 1) es)). ep_ID x \<noteq> ep_ID old"
  proof -
    have "distinct (map ep_ID (somes (take k es) @ old # somes (drop (k + 1) es)))"
      using assms(1) s by (simp add: assembled_def)
    then show ?thesis by (auto simp: image_iff simp del: set_somes)
  qed
  ultimately show ?thesis
    unfolding only_one_def s using assms(4) by (auto simp: filter_empty_conv simp del: set_somes)
qed

lemma find_filter_hd: "filter P xs = [x] \<Longrightarrow> find P xs = Some x"
  by (induction xs) (auto split: if_splits)

lemma find_slot:
  assumes "find P (somes es) = Some x"
  shows "\<exists>k < length es. es ! k = Some x"
proof -
  have "Some x \<in> set es" using find_member [OF assms] by simp
  then show ?thesis by (metis in_set_conv_nth)
qed

lemma endpoints_after_id:
  assumes es: "assembled es" and i: "ep_ID e \<noteq> ''''" and m: "distinct (map fst (ep_Metadata e))"
  shows "\<exists>e'. only_one (ep_ID e) e' es (endpoints_after n e es) \<and> endpointContentEqualForSet e' e
    \<and> endpoints_after n e (endpoints_after n e es) = endpoints_after n e es"
proof -
  have res: "resolveSetEndpointSlot n e xs = resolve_by_id e 0 xs" for xs
    using i by (simp add: resolveSetEndpointSlot_def resolveSetEndpointSlotByID_def)
  have idem: "endpoints_after n e xs = xs" if "only_one (ep_ID e) e' es xs" "endpointContentEqualForSet e' e" for e' xs
  proof -
    have "find (\<lambda>x. ep_ID x = ep_ID e) (somes xs) = Some e'"
      using that(1) by (simp add: only_one_def find_filter_hd)
    then show ?thesis using resolve_by_id_find [of e 0 xs] that(2) by (simp add: endpoints_after_def res)
  qed
  show ?thesis
  proof (cases "find (\<lambda>x. ep_ID x = ep_ID e) (somes es)")
    case None
    define e' where "e' = default_name (length es) (fresh_id n (rev (map ep_ID (somes es))) e)"
    have no: "\<forall>x \<in> set (somes es). ep_ID x \<noteq> ep_ID e" using None by (simp add: find_None_iff del: set_somes)
    then have "ep_ID e \<notin> set (rev (map ep_ID (somes es)))" by (auto simp del: set_somes)
    then have fresh: "fresh_id n (rev (map ep_ID (somes es))) e = e" using i by simp
    have a: "endpoints_after n e es = es @ [Some e']"
      using resolve_by_id_find [of e 0 es] None by (simp add: endpoints_after_def res resolve_by_id_target e'_def)
    have c: "endpointContentEqualForSet e' e" using m by (rule content_equal_refl) (simp_all add: e'_def)
    have "only_one (ep_ID e) e' es (es @ [Some e'])"
      using no by (auto simp: only_one_def e'_def fresh filter_empty_conv simp del: set_somes)
    then show ?thesis using c idem a by metis
  next
    case (Some x)
    have xid: "ep_ID x = ep_ID e" using find_member [OF Some] by simp
    obtain k where k: "k < length es" "es ! k = Some x" using find_slot [OF Some] by blast
    show ?thesis
    proof (cases "endpointContentEqualForSet x e")
      case True
      have "endpoints_after n e es = es" using resolve_by_id_find [of e 0 es] Some True by (simp add: endpoints_after_def res)
      moreover have "only_one (ep_ID e) x es es" using only_one_slot [OF es k, of x] k xid by (metis list_update_id)
      ultimately show ?thesis using True by auto
    next
      case False
      then have act: "action (resolve_by_id e 0 es) = setEndpointReplace" using resolve_by_id_find [of e 0 es] Some by simp
      from resolve_by_id_Replace [OF refl act] obtain j old where j: "replaceIdx (resolve_by_id e 0 es) = j"
        "j < length es" "es ! j = Some old" "ep_ID old = ep_ID e" by auto
      define e' where "e' = default_name j e"
      have a: "endpoints_after n e es = es[j := Some e']"
        using act j(1) by (simp add: endpoints_after_def res resolve_by_id_target e'_def)
      have "only_one (ep_ID e) e' es (es[j := Some e'])" using only_one_slot [OF es j(2,3), of e'] j(4) by (simp add: e'_def)
      moreover have "endpointContentEqualForSet e' e" using m by (rule content_equal_refl) (simp_all add: e'_def)
      ultimately show ?thesis using idem a by metis
    qed
  qed
qed

text \<open>What is found under the names of clusters after \<open>SetEndpoint\<close>.\<close>

lemma config_index_other:
  "config_index m xs = Some j \<Longrightarrow> j \<noteq> i \<Longrightarrow> cc_Name c \<noteq> m \<Longrightarrow> config_index m (xs[i := Some c]) = Some j"
  "config_index m xs = None \<Longrightarrow> cc_Name c \<noteq> m \<Longrightarrow> config_index m (xs[i := Some c]) = None"
  by (induction m xs arbitrary: i j rule: config_index.induct) (auto split: nat.splits if_splits)

lemma config_index_append:
  "cc_Name c \<noteq> m \<Longrightarrow> config_index m (xs @ [Some c]) = config_index m xs"
  by (induction m xs rule: config_index.induct) auto

lemma config_index_bound: "config_index m xs = Some j \<Longrightarrow> j < length xs"
  by (induction m xs arbitrary: j rule: config_index.induct) (auto split: if_splits)

lemma config_index_here: "config_index m xs = Some i \<Longrightarrow> cc_Name c = m \<Longrightarrow> config_index m (xs[i := Some c]) = Some i"
  by (induction m xs arbitrary: i rule: config_index.induct) (auto split: nat.splits if_splits)

lemma SetEndpoint_found:
  assumes ok: "system_ok sys" and n: "n \<noteq> ''''"
  shows "(\<exists>c. findClusterConfig n (store_of (SetEndpoint fs n (Some e) sys)) = Some c
      \<and> Endpoints c = endpoints_after n e (case findClusterConfig n (store_of sys) of None \<Rightarrow> [] | Some c0 \<Rightarrow> Endpoints c0))
    \<and> (\<forall>m. m \<noteq> n \<longrightarrow> findClusterConfig m (store_of (SetEndpoint fs n (Some e) sys)) = findClusterConfig m (store_of sys))"
proof -
  let ?s = "IncreaseVersion (store_of sys)"
  obtain a p s where op: "store_SetEndpoint fs n (Some e) (proc sys) ?s = (a, p, s)" by (metis prod.exhaust)
  have st: "store_ok (proc sys) ?s" using ok by (simp add: system_ok_def)
  have s: "store_of (SetEndpoint fs n (Some e) sys) = s"
    using op by (simp add: SetEndpoint_def nextEndpointEventIDLocked_def Let_def)
  note o = SetEndpoint_ok [OF st n op]
  show ?thesis
  proof (cases "config_index n (st_Config (store_of sys))")
    case None
    with o obtain c where c: "st_Config s = st_Config (store_of sys) @ [Some c]" "cc_Name c = n"
      "Endpoints c = endpoints_after n e []" by auto
    have "findClusterConfig m s = findClusterConfig m (store_of sys)" if "m \<noteq> n" for m
      using that c(2) config_index_append [of c m "st_Config (store_of sys)"] config_index_bound
      by (auto simp: findClusterConfig_def c(1) nth_append split: option.split)
    then show ?thesis
      using config_index_snoc [OF None c(2)] None c by (auto simp: findClusterConfig_def s)
  next
    case (Some i)
    with o obtain c where c: "st_Config s = (st_Config (store_of sys))[i := Some c]" "same_cluster (configs ?s ! i) c"
      "Endpoints c = endpoints_after n e (Endpoints (configs (store_of sys) ! i))" by auto
    note f = found_config [OF st, unfolded IncreaseVersion_simps, OF Some]
    have cn: "cc_Name c = n" using c(2) f(2) by (simp add: same_cluster_def)
    have "findClusterConfig m s = findClusterConfig m (store_of sys)" if m: "m \<noteq> n" for m
    proof (cases "config_index m (st_Config (store_of sys))")
      case None
      then show ?thesis using config_index_other(2) [OF None, of c i] cn m by (simp add: findClusterConfig_def c(1))
    next
      case (Some j)
      have "j \<noteq> i" using found_config(2) [OF st, unfolded IncreaseVersion_simps, OF Some] f(2) m by auto
      then show ?thesis using Some config_index_other(1) [OF Some, of i c] cn m by (simp add: findClusterConfig_def c(1))
    qed
    moreover have "i < length (st_Config (store_of sys))" using config_index_bound [OF Some] .
    ultimately show ?thesis
      using config_index_here [OF Some cn] Some c(3) f(3) by (auto simp: findClusterConfig_def s c(1))
  qed
qed

section \<open>Picks of the manager\<close>

lemma picked_from:
  assumes "fst (PickEndpoint fs strategies n sys) = Some e"
  obtains r where "getRuntimeCluster n sys = Some r" "fst (pickOneEndpoint fs strategies r (proc sys)) = Some e"
  using assms by (auto simp: PickEndpoint_def case_prod_beta split: option.splits)

lemma picked_endpoint:
  assumes ok: "system_ok sys" and pick: "fst (PickEndpoint fs strategies n sys) = Some e"
  shows "\<exists>c e'. findClusterConfig n (store_of sys) = Some c \<and> Some e' \<in> set (Endpoints c)
    \<and> declared e = declared e' \<and> \<not> UnHealthy e"
proof -
  obtain r where r: "getRuntimeCluster n sys = Some r" "fst (pickOneEndpoint fs strategies r (proc sys)) = Some e"
    using pick by (rule picked_from)
  have st: "store_ok (proc sys) (store_of sys)" using ok by (simp add: system_ok_def)
  obtain c sn where c: "findClusterConfig n (store_of sys) = Some c" "c_endpoints (runtimes (proc sys) ! r) = Some sn"
      "snapshot_inv sn" "map declared (es_all sn) = map declared (somes (Endpoints c))"
    using runtime_of [OF st r(1) [unfolded getRuntimeCluster_def]] by blast
  have "e \<in> set (es_all sn)" "\<not> UnHealthy e"
    using pickOneEndpoint_member [OF r(2) c(2,3)] healthy_members [OF c(3)] by auto
  moreover have "declared ` set (es_all sn) = declared ` set (somes (Endpoints c))" using c(4) by (metis set_map)
  ultimately show ?thesis using c(1) by (auto simp: image_iff)
qed

lemma picked_after_failure:
  assumes ok: "system_ok sys" and r: "getRuntimeCluster n sys = Some r" and ev: "\<not> ev_Healthy ev"
    and pick: "fst (PickEndpoint fs strategies n (HealthEvent r ev sys)) = Some e"
  shows "address_of e \<noteq> ev_EndpointAddress ev"
proof -
  let ?sys = "HealthEvent r ev sys" and ?t = "runtimes (proc sys) ! r"
  have st: "store_ok (proc sys) (store_of sys)" using ok by (simp add: system_ok_def)
  obtain c sn where c: "r < length (runtimes (proc sys))" "serves c ?t" "c_endpoints ?t = Some sn" "snapshot_inv sn"
    using runtime_of [OF st r [unfolded getRuntimeCluster_def]] by blast
  note spec = address_health_spec [OF c(4), of "ev_EndpointAddress ev" "ev_Healthy ev"]
  have acc: "acceptHealthEvents ?t" using c(2) by (simp add: serves_def shows_config_def)
  obtain sn' where sn': "c_endpoints (handleEndpointHealth ev ?t) = Some sn'" "snapshot_inv sn'"
    "\<forall>x \<in> set (es_all sn'). address_of x = ev_EndpointAddress ev \<longrightarrow> UnHealthy x"
  proof (cases "withEndpointAddressHealth (ev_EndpointAddress ev) (ev_Healthy ev) sn")
    case (Changed sn')
    with spec ev have "snapshot_inv sn'" "\<forall>x \<in> set (es_all sn'). address_of x = ev_EndpointAddress ev \<longrightarrow> UnHealthy x"
      by (auto simp: changes_exactly_def)
    moreover have "c_endpoints (handleEndpointHealth ev ?t) = Some sn'"
      using Changed acc c(3) by (simp add: handleEndpointHealth_def UpdateEndpointAddressHealth_def publish_def)
    ultimately show ?thesis using that by blast
  qed (use that [of sn] spec acc c(3,4) ev in
    \<open>auto simp: changes_exactly_def handleEndpointHealth_def UpdateEndpointAddressHealth_def publish_def\<close>)
  have "getRuntimeCluster n ?sys = Some r" using r by (simp add: getRuntimeCluster_def HealthEvent_def)
  with pick have "fst (pickOneEndpoint fs strategies r (proc ?sys)) = Some e" by (auto elim: picked_from)
  moreover have "runtimes (proc ?sys) ! r = handleEndpointHealth ev ?t" using c(1) by (simp add: HealthEvent_def)
  ultimately have "e \<in> set (es_healthy sn')" using pickOneEndpoint_member sn'(1,2) by metis
  then show ?thesis using sn'(3) healthy_members [OF sn'(2)] by auto
qed

lemma found_assembled: "store_ok p s \<Longrightarrow> findClusterConfig n s = Some c \<Longrightarrow> assembled (Endpoints c)"
  using found_config(3,4) [of p s n]
  by (auto simp: findClusterConfig_def store_ok_def simp del: set_somes split: option.splits)

lemma no_nil: "None \<notin> set xs \<Longrightarrow> xs = map Some (somes xs)"
proof (induction xs)
  case (Cons x xs)
  then show ?case by (cases x) auto
qed simp

lemma ReplaceXDSClusters_accepts:
  assumes "ReplaceXDSClusters fs clusters sys = (res, sys')"
  shows "res = Inr u \<longleftrightarrow> None \<notin> set clusters \<and> '''' \<notin> cc_Name ` set (somes clusters)
    \<and> distinct (map cc_Name (somes clusters))
    \<and> cc_Name ` set (somes clusters) \<inter> cc_Name ` set (static_configs (mgr sys)) = {}"
    (is "_ = ?accept")
proof -
  let ?v = "validate_xds (map cc_Name (static_configs (mgr sys))) [] clusters"
  have "res = Inr u \<longleftrightarrow> (\<exists>ns. ?v = Inr ns)"
    using assms by (auto simp: ReplaceXDSClusters_def Let_def case_prod_beta split: sum.splits)
  moreover have "?accept" if "?v = Inr ns" for ns
  proof -
    have "None \<notin> set clusters" using validate_xds_Inr [OF that] by (metis ex_map_conv option.distinct(1))
    then show ?thesis using validate_xds_Inr [OF that] by (auto simp del: set_somes)
  qed
  moreover have "\<exists>ns. ?v = Inr ns" if "?accept"
  proof -
    have "clusters = map Some (somes clusters)" using that no_nil by blast
    then show ?thesis using validate_xds_accepts [of "somes clusters" "map cc_Name (static_configs (mgr sys))" "[]"] that
      by (auto simp del: set_somes)
  qed
  ultimately show ?thesis by blast
qed

end
