(* ===== verification/Pixiu_Paths.thy ===== *)
theory Pixiu_Paths
  imports Pixiu_Prelude
begin

text \<open>
  The path vocabulary of the router, from \<open>pkg/common/util/stringutil/stringutil.go\<close>: how a
  configured path or a request URL becomes a trie key, how a key is cut into segments, and which
  segments are variables (\<open>:id\<close>), single-segment wildcards (\<open>*\<close>) or match-all suffixes (\<open>**\<close>).
  The second half gives the segments of a key without going through the key string, and proves
  that the code computes them.
\<close>

section \<open>stringutil\<close>

definition Split :: "string \<Rightarrow> string list" where
  "Split path = split_char (CHR ''/'') (trim_left (CHR ''/'') path)"

definition VariableName :: "string \<Rightarrow> string" where
  "VariableName key = trim_prefix key '':''"

definition IsWildcard :: "string \<Rightarrow> bool" where
  "IsWildcard key \<longleftrightarrow> key = ''*''"

definition IsMatchAll :: "string \<Rightarrow> bool" where
  "IsMatchAll key \<longleftrightarrow> key = ''**''"

definition IsPathVariableOrWildcard :: "string \<Rightarrow> bool" where
  "IsPathVariableOrWildcard key =
     (if key = '''' then False
      else if has_prefix key '':'' then True
      else if IsWildcard key then True
      else False)"

text \<open>
  The regular expression \<open>urlSchemePrefix\<close>: a letter, then letters, digits and \<open>+.-\<close>, then
  \<open>://\<close>. No character of the class is a colon, so the longest run of the class is the only
  candidate. The result is the length of the match.
\<close>

definition is_alpha :: "char \<Rightarrow> bool" where
  "is_alpha c \<longleftrightarrow> (let n = of_char c :: nat in 65 \<le> n \<and> n \<le> 90 \<or> 97 \<le> n \<and> n \<le> 122)"

definition scheme_char :: "char \<Rightarrow> bool" where
  "scheme_char c \<longleftrightarrow> is_alpha c \<or> is_digit c \<or> c = CHR ''+'' \<or> c = CHR ''.'' \<or> c = CHR ''-''"

definition urlSchemePrefix :: "string \<Rightarrow> nat option" where
  "urlSchemePrefix path =
     (case path of [] \<Rightarrow> None
      | c # cs \<Rightarrow>
          (if is_alpha c then
             (let run = takeWhile scheme_char cs
              in if has_prefix (drop (length run) cs) ''://'' then Some (length run + 4) else None)
           else None))"

text \<open>The part of a path that names the resource: without the query, the scheme and the authority.\<close>

definition strip_authority :: "string \<Rightarrow> string" where
  "strip_authority path =
     (case urlSchemePrefix path of
        None \<Rightarrow> path
      | Some n \<Rightarrow>
          (let rest = drop n path
           in if CHR ''/'' \<in> set rest then tl (dropWhile (\<lambda>c. c \<noteq> CHR ''/'') rest) else ''''))"

definition GetTrieKey :: "string \<Rightarrow> string \<Rightarrow> string" where
  "GetTrieKey method path =
     (let path = strip_authority (cut_before (CHR ''?'') path);
          ret = (if has_prefix path ''/'' then method @ path else method @ ''/'' @ path)
      in if has_suffix ret ''/'' then butlast ret else ret)"

definition GetTrieKeyWithPrefix :: "string \<Rightarrow> string \<Rightarrow> string \<Rightarrow> bool \<Rightarrow> string" where
  "GetTrieKeyWithPrefix method path prefix isPrefix =
     (if isPrefix then
        (let prefix = (if prefix \<noteq> '''' \<and> last prefix \<noteq> CHR ''/'' then prefix @ ''/'' else prefix)
         in GetTrieKey method (prefix @ ''**''))
      else GetTrieKey method path)"

section \<open>Segments\<close>

text \<open>
  The three roles a segment plays in the trie. A parameter and a single-segment wildcard share
  one node, so both are \<open>Var\<close>.
\<close>

datatype seg = Lit string | Var | All

definition seg_of :: "string \<Rightarrow> seg" where
  "seg_of key =
     (if IsPathVariableOrWildcard key then Var else if IsMatchAll key then All else Lit key)"

lemma not_variable_matchall [simp]: "\<not> IsPathVariableOrWildcard ''**''"
  by (simp add: IsPathVariableOrWildcard_def IsWildcard_def has_prefix_def)

lemma seg_of_cases:
  "seg_of key = Var \<longleftrightarrow> IsPathVariableOrWildcard key"
  "seg_of key = All \<longleftrightarrow> key = ''**''"
  "seg_of key = Lit s \<longleftrightarrow> key = s \<and> \<not> IsPathVariableOrWildcard key \<and> key \<noteq> ''**''"
  by (auto simp: seg_of_def IsMatchAll_def)

text \<open>A method name that can head a key: HTTP methods, and the wildcard method \<open>*\<close>.\<close>

definition method_ok :: "string \<Rightarrow> bool" where
  "method_ok m \<longleftrightarrow> m \<noteq> '''' \<and> CHR ''/'' \<notin> set m \<and> CHR ''?'' \<notin> set m"

text \<open>
  The segments of a path, read off the path alone: the resource part, one leading slash dropped,
  cut at slashes, one trailing empty segment dropped.
\<close>

definition path_segments :: "string \<Rightarrow> string list" where
  "path_segments path =
     (let p = strip_authority (cut_before (CHR ''?'') path);
          q = (if has_prefix p ''/'' then tl p else p);
          ss = split_char (CHR ''/'') q
      in if last ss = '''' then butlast ss else ss)"

lemma has_prefix_slash: "has_prefix p ''/'' \<longleftrightarrow> (\<exists>q. p = CHR ''/'' # q)"
  by (simp add: has_prefix_iff)

lemma has_suffix_slash: "has_suffix p ''/'' \<longleftrightarrow> p \<noteq> [] \<and> last p = CHR ''/''"
  by (auto simp: has_suffix_iff) (metis append_butlast_last_id)

lemma Split_method: "method_ok m \<Longrightarrow> Split (m @ s) = split_char (CHR ''/'') (m @ s)"
  by (cases m) (auto simp: Split_def trim_left_def method_ok_def)

lemma split_char_last:
  "last (split_char c s) = '''' \<longleftrightarrow> s = [] \<or> last s = c"
proof (induction s)
  case Nil
  then show ?case by simp
next
  case (Cons x xs)
  obtain q qs where qs: "split_char c xs = q # qs"
    by (cases "split_char c xs") auto
  show ?case
  proof (cases qs)
    case Nil
    with qs Cons.IH join_split_char [of c xs] have "q = xs" and "xs = [] \<or> last xs = c \<longleftrightarrow> q = ''''"
      by auto
    with qs Nil split_char_no_sep [of q c xs] show ?thesis
      by (cases xs rule: rev_cases) auto
  next
    case (Cons r rs)
    with qs Cons.IH have "xs \<noteq> []"
      by auto
    with qs Cons Cons.IH show ?thesis by auto
  qed
qed

lemma split_char_snoc: "split_char c (s @ [c]) = split_char c s @ ['''']"
proof (induction s)
  case Nil
  then show ?case by simp
next
  case (Cons x xs)
  obtain q qs where qs: "split_char c xs = q # qs"
    by (cases "split_char c xs") auto
  with Cons show ?case by auto
qed

lemma split_char_butlast:
  assumes "s \<noteq> []" and "last s = c"
  shows "split_char c (butlast s) = butlast (split_char c s)"
proof -
  from assms have "s = butlast s @ [c]" by (metis append_butlast_last_id)
  then have "split_char c s = split_char c (butlast s) @ ['''']"
    using split_char_snoc by metis
  then show ?thesis by simp
qed

text \<open>The key of a method and a path splits into the method and the path's segments.\<close>

lemma Split_GetTrieKey:
  assumes m: "method_ok m"
  shows "Split (GetTrieKey m p) = m # path_segments p"
proof -
  define r where "r = strip_authority (cut_before (CHR ''?'') p)"
  define q where "q = (if has_prefix r ''/'' then tl r else r)"
  from m have mc: "CHR ''/'' \<notin> set m" "m \<noteq> []" by (auto simp: method_ok_def)
  have ret: "(if has_prefix r ''/'' then m @ r else m @ ''/'' @ r) = m @ CHR ''/'' # q"
    by (auto simp: q_def has_prefix_slash)
  have split: "split_char (CHR ''/'') (m @ CHR ''/'' # q) = m # split_char (CHR ''/'') q"
    using mc by (simp add: split_char_append)
  have suf: "has_suffix (m @ CHR ''/'' # q) ''/'' \<longleftrightarrow> last (split_char (CHR ''/'') q) = ''''"
    by (auto simp: has_suffix_slash split_char_last)
  have key: "GetTrieKey m p =
      (if last (split_char (CHR ''/'') q) = '''' then butlast (m @ CHR ''/'' # q)
       else m @ CHR ''/'' # q)"
    unfolding GetTrieKey_def Let_def r_def [symmetric] ret using suf by simp
  have "path_segments p =
      (if last (split_char (CHR ''/'') q) = '''' then butlast (split_char (CHR ''/'') q)
       else split_char (CHR ''/'') q)"
    by (simp add: path_segments_def Let_def r_def [symmetric] q_def [symmetric])
  moreover have "Split (butlast (m @ CHR ''/'' # q)) = m # butlast (split_char (CHR ''/'') q)"
    if "last (split_char (CHR ''/'') q) = ''''"
  proof -
    have "butlast (m @ CHR ''/'' # q) = m @ butlast (CHR ''/'' # q)"
      by (simp add: butlast_append)
    moreover from that have "last (m @ CHR ''/'' # q) = CHR ''/''"
      by (auto simp: split_char_last)
    ultimately show ?thesis
      using split split_char_butlast [of "m @ CHR ''/'' # q" "CHR ''/''"] m
      by (simp add: Split_method)
  qed
  ultimately show ?thesis
    using key split m by (simp add: Split_method)
qed

text \<open>A key contains no question mark, so cutting it again at the query delimiter is the identity.\<close>

lemma set_tl_dropWhile: "x \<in> set (tl (dropWhile P xs)) \<Longrightarrow> x \<in> set xs"
  by (induction xs) (auto split: if_splits)

lemma set_strip_authority: "set (strip_authority p) \<subseteq> set p"
  by (auto simp: strip_authority_def Let_def split: option.splits if_splits
      dest: set_tl_dropWhile in_set_dropD)

lemma set_cut_before: "x \<in> set (cut_before c p) \<Longrightarrow> x \<noteq> c"
  by (auto simp: cut_before_def dest: set_takeWhileD)

lemma GetTrieKey_no_query:
  assumes "method_ok m"
  shows "CHR ''?'' \<notin> set (GetTrieKey m p)"
proof -
  have "CHR ''?'' \<notin> set (strip_authority (cut_before (CHR ''?'') p))"
    using set_strip_authority set_cut_before by blast
  with assms show ?thesis
    by (auto simp: GetTrieKey_def Let_def method_ok_def dest: in_set_butlastD split: if_splits)
qed

lemma cut_before_free: "c \<notin> set s \<Longrightarrow> cut_before c s = s"
  by (auto simp: cut_before_def takeWhile_eq_all_conv)

text \<open>The trie key of a request or of a configured path, cut into segments by \<open>Split\<close>, is the
  method followed by the segments of the path: the query string, a scheme and authority, a leading
  slash and one trailing slash never reach the trie, and the key itself holds no query delimiter.\<close>

theorem GetTrieKey_segments:
  assumes "method_ok m"
  shows "Split (GetTrieKey m path) = m # path_segments path
    \<and> CHR ''?'' \<notin> set (GetTrieKey m path)
    \<and> GetTrieKey m (path @ ''?'' @ query) = GetTrieKey m path"
proof (intro conjI)
  show "Split (GetTrieKey m path) = m # path_segments path"
    using assms by (rule Split_GetTrieKey)
  show "CHR ''?'' \<notin> set (GetTrieKey m path)"
    using assms by (rule GetTrieKey_no_query)
  have "cut_before (CHR ''?'') (path @ ''?'' @ query) = cut_before (CHR ''?'') path"
    by (induction path) (simp_all add: cut_before_def)
  then show "GetTrieKey m (path @ ''?'' @ query) = GetTrieKey m path"
    by (simp add: GetTrieKey_def)
qed

theorem GetTrieKey_segments_witness:
  "method_ok ''GET'' \<and> Split (GetTrieKey ''GET'' ''http://h/a/:b/'') = [''GET'', ''a'', '':b'']"
proof -
  have m: "method_ok ''GET''" by (simp add: method_ok_def)
  have "path_segments ''http://h/a/:b/'' = [''a'', '':b'']"
    by code_simp
  with m GetTrieKey_segments [OF m, of "''http://h/a/:b/''" "''''"] show ?thesis by simp
qed

end
