(* ===== verification/Pixiu_Trie.thy ===== *)
theory Pixiu_Trie
  imports Pixiu_Paths
begin

text \<open>
  The route trie, from \<open>pkg/common/router/trie/trie.go\<close>. A node keeps its literal children, one
  child shared by every path variable and single-segment wildcard, and one match-all child. The
  operations are those of the source; a method that mutates its receiver returns the new node.

  The second half relates the trie to what it stands for: a partial map from patterns (lists of
  segments) to the information stored for them. \<open>Put\<close> is an insertion into that map which never
  overwrites, \<open>Remove\<close> is a deletion, and \<open>Match\<close> is a search of the map along an explicit
  priority list of the patterns that match the request.
\<close>

section \<open>Node and Trie\<close>

text \<open>
  The values of \<open>PathVariablesSet\<close> are all the same pointer, that of \<open>PathVariableNode\<close>, so only
  its keys are kept. A nil map is \<open>None\<close>.
\<close>

datatype 'b node = Node
  (matchStr: string)
  (children: "(string \<Rightarrow> 'b node option) option")
  (PathVariablesSet: "string set option")
  (PathVariableNode: "'b node option")
  (MatchAllNode: "'b node option")
  (endOfPath: bool)
  (bizInfo: "'b option")

record 'b trie =
  root :: "'b node"

definition NewNode :: "bool \<Rightarrow> string \<Rightarrow> 'b node" where
  "NewNode isEnd str = Node str None None None None isEnd None"

definition NewTrie :: "'b trie" where
  "NewTrie = \<lparr>root = NewNode False ''''\<rparr>"

text \<open>Reading and writing single fields of a node.\<close>

definition child :: "'b node \<Rightarrow> string \<Rightarrow> 'b node option" where
  "child n key = (case children n of None \<Rightarrow> None | Some m \<Rightarrow> m key)"

definition set_child :: "string \<Rightarrow> 'b node \<Rightarrow> 'b node \<Rightarrow> 'b node" where
  "set_child key c n =
     Node (matchStr n) (Some ((case children n of None \<Rightarrow> Map.empty | Some m \<Rightarrow> m)(key \<mapsto> c)))
       (PathVariablesSet n) (PathVariableNode n) (MatchAllNode n) (endOfPath n) (bizInfo n)"

definition set_variable :: "'b node \<Rightarrow> 'b node \<Rightarrow> 'b node" where
  "set_variable v n =
     Node (matchStr n) (children n) (PathVariablesSet n) (Some v) (MatchAllNode n)
       (endOfPath n) (bizInfo n)"

definition add_variable_name :: "string \<Rightarrow> 'b node \<Rightarrow> 'b node" where
  "add_variable_name s n =
     Node (matchStr n) (children n)
       (Some (insert s (case PathVariablesSet n of None \<Rightarrow> {} | Some t \<Rightarrow> t)))
       (PathVariableNode n) (MatchAllNode n) (endOfPath n) (bizInfo n)"

definition set_match_all :: "'b node \<Rightarrow> 'b node \<Rightarrow> 'b node" where
  "set_match_all a n =
     Node (matchStr n) (children n) (PathVariablesSet n) (PathVariableNode n) (Some a)
       (endOfPath n) (bizInfo n)"

definition set_end :: "bool \<Rightarrow> 'b node \<Rightarrow> 'b node" where
  "set_end e n =
     Node (matchStr n) (children n) (PathVariablesSet n) (PathVariableNode n) (MatchAllNode n)
       e (bizInfo n)"

definition set_biz :: "'b \<Rightarrow> 'b node \<Rightarrow> 'b node" where
  "set_biz b n =
     Node (matchStr n) (children n) (PathVariablesSet n) (PathVariableNode n) (MatchAllNode n)
       (endOfPath n) (Some b)"

definition set_match_str :: "string \<Rightarrow> 'b node \<Rightarrow> 'b node" where
  "set_match_str s n =
     Node s (children n) (PathVariablesSet n) (PathVariableNode n) (MatchAllNode n)
       (endOfPath n) (bizInfo n)"

definition init_children :: "'b node \<Rightarrow> 'b node" where
  "init_children n =
     (case children n of
        None \<Rightarrow> Node (matchStr n) (Some Map.empty) (PathVariablesSet n) (PathVariableNode n)
                 (MatchAllNode n) (endOfPath n) (bizInfo n)
      | Some _ \<Rightarrow> n)"

lemmas node_update_defs =
  child_def set_child_def set_variable_def add_variable_name_def set_match_all_def set_end_def
  set_biz_def set_match_str_def init_children_def NewNode_def

subsection \<open>Clear, IsEmpty, GetBizInfo\<close>

definition Clear :: "'b trie \<Rightarrow> bool \<times> 'b trie" where
  "Clear t = (True, t\<lparr>root := NewNode False ''''\<rparr>)"

definition node_IsEmpty :: "'b node \<Rightarrow> bool" where
  "node_IsEmpty n \<longleftrightarrow>
     children n = None \<and> matchStr n = '''' \<and> PathVariableNode n = None \<and> PathVariablesSet n = None"

definition IsEmpty :: "'b trie \<Rightarrow> bool" where
  "IsEmpty t = node_IsEmpty (root t)"

definition GetBizInfo :: "'b node \<Rightarrow> 'b option" where
  "GetBizInfo n = bizInfo n"

subsection \<open>Put\<close>

definition putPathVariable :: "string \<Rightarrow> bool \<Rightarrow> 'b \<Rightarrow> 'b node \<Rightarrow> bool \<times> 'b node" where
  "putPathVariable pathVariable isReal biz n =
     (let v = (case PathVariableNode n of None \<Rightarrow> NewNode False '''' | Some v \<Rightarrow> v)
      in if endOfPath v \<and> isReal then (False, set_variable v n)
         else
           (let v = (if isReal then set_match_str pathVariable (set_biz biz v) else v);
                v = set_end (endOfPath v \<or> isReal) v
            in (True, add_variable_name pathVariable (set_variable v n))))"

definition putNode :: "string \<Rightarrow> bool \<Rightarrow> 'b \<Rightarrow> 'b node \<Rightarrow> bool \<times> 'b node" where
  "putNode str isReal biz n =
     (case child n str of
        Some old \<Rightarrow>
          (if endOfPath old \<and> isReal then (False, n)
           else (let self = (if isReal then set_biz biz old else old)
                 in (True, set_child str (set_end (isReal \<or> endOfPath old) self) n)))
      | None \<Rightarrow>
          (let self = NewNode isReal str;
               self = (if isReal then set_biz biz self else self)
           in (True, set_child str (set_end (isReal \<or> endOfPath self) self) n)))"

definition putMatchAllNode :: "string \<Rightarrow> bool \<Rightarrow> 'b \<Rightarrow> 'b node \<Rightarrow> bool \<times> 'b node" where
  "putMatchAllNode str isReal biz n =
     (case MatchAllNode n of
        Some old \<Rightarrow>
          (if endOfPath old \<and> isReal then (False, n)
           else (let self = (if isReal then set_biz biz old else old)
                 in (True, set_match_all (set_end (endOfPath self \<or> endOfPath old) self) n)))
      | None \<Rightarrow>
          (let self = NewNode isReal str;
               self = (if isReal then set_biz biz self else self)
           in (True, set_match_all (set_end (endOfPath self \<or> endOfPath self) self) n)))"

definition put :: "string \<Rightarrow> bool \<Rightarrow> 'b \<Rightarrow> 'b node \<Rightarrow> bool \<times> 'b node" where
  "put key isReal biz n =
     (if \<not> IsPathVariableOrWildcard key then
        (if IsMatchAll key then putMatchAllNode key isReal biz n
         else putNode key isReal biz n)
      else putPathVariable (VariableName key) isReal biz n)"

text \<open>
  After a successful \<open>put\<close> the child that the recursion enters exists (\<open>put_child_exists\<close> below),
  so the \<open>None\<close> branches, a nil dereference in Go, are never taken.
\<close>

fun internalPut :: "string list \<Rightarrow> 'b \<Rightarrow> 'b node \<Rightarrow> bool \<times> 'b node" where
  "internalPut [] biz n = (True, init_children n)"
| "internalPut (key # childKeys) biz n =
     (let (isSuccess, n) = put key (childKeys = []) biz (init_children n)
      in if \<not> isSuccess then (False, n)
         else if IsPathVariableOrWildcard key then
           (case PathVariableNode n of
              None \<Rightarrow> (False, n)
            | Some v \<Rightarrow> (let (r, v) = internalPut childKeys biz v in (r, set_variable v n)))
         else if IsMatchAll key then (isSuccess, n)
         else
           (case child n key of
              None \<Rightarrow> (False, n)
            | Some c \<Rightarrow> (let (r, c) = internalPut childKeys biz c in (r, set_child key c n))))"

definition err_nil_data :: string where
  "err_nil_data = ''data to put should not be nil.''"

definition Put :: "string \<Rightarrow> 'b option \<Rightarrow> 'b trie \<Rightarrow> (string + bool) \<times> 'b trie" where
  "Put withOutHost biz t =
     (case biz of
        None \<Rightarrow> (Inl err_nil_data, t)
      | Some b \<Rightarrow>
          (let (r, n) = internalPut (Split withOutHost) b (root t) in (Inr r, t\<lparr>root := n\<rparr>)))"

definition NewTrieWithDefault :: "string \<Rightarrow> 'b option \<Rightarrow> 'b trie" where
  "NewTrieWithDefault path defVal = snd (Put path defVal NewTrie)"

subsection \<open>Get, Contains, Remove, PutOrUpdate\<close>

definition err_empty_config :: string where
  "err_empty_config = ''router configuration is empty''"

text \<open>
  The result of \<open>Get\<close>: an error, or the node (nil is \<open>None\<close>), the list of variable names and the
  success flag. In the recursive variable case \<open>copy(newList[1:], ...)\<close> copies into an empty
  slice, so the names of the deeper variables are dropped.
\<close>

fun Get :: "string list \<Rightarrow> 'b node \<Rightarrow> string + ('b node option \<times> string list \<times> bool)" where
  "Get [] n = Inr (None, [], False)"
| "Get [key] n =
     (if IsPathVariableOrWildcard key then
        (case PathVariableNode n of
           None \<Rightarrow> Inr (None, [], False)
         | Some v \<Rightarrow>
             (if \<not> endOfPath v then Inr (None, [], False)
              else Inr (Some v, [VariableName key], True)))
      else if IsMatchAll key then Inr (MatchAllNode n, [], True)
      else
        (case children n of
           None \<Rightarrow> Inr (None, [], False)
         | Some m \<Rightarrow> Inr (m key, [], True)))"
| "Get (key # k # ks) n =
     (if IsPathVariableOrWildcard key then
        (case PathVariableNode n of
           None \<Rightarrow> Inr (None, [], False)
         | Some v \<Rightarrow>
             (case Get (k # ks) v of
                Inl e \<Rightarrow> Inl e
              | Inr (r, names, ok) \<Rightarrow> Inr (r, [key], ok)))
      else if IsMatchAll key then Inl err_empty_config
      else
        (case child n key of
           None \<Rightarrow> Inr (None, [], False)
         | Some c \<Rightarrow> Get (k # ks) c))"

definition trie_Get ::
    "string \<Rightarrow> 'b trie \<Rightarrow> string + ('b node option \<times> string list \<times> bool)" where
  "trie_Get withOutHost t =
     (case Get (Split withOutHost) (root t) of
        Inl e \<Rightarrow> Inl e
      | Inr (n, param, ok) \<Rightarrow> Inr (n, rev param, ok))"

definition Contains :: "string \<Rightarrow> 'b trie \<Rightarrow> bool \<times> string option" where
  "Contains withOutHost t =
     (case Get (Split withOutHost) (root t) of
        Inl e \<Rightarrow> (True, Some e)
      | Inr (ret, _, _) \<Rightarrow> (ret \<noteq> None, None))"

text \<open>
  \<open>Remove\<close> clears \<open>endOfPath\<close> through the pointer that \<open>Get\<close> returned: \<open>clear_end\<close> writes that
  field of the node at the end of the same walk.
\<close>

fun clear_end :: "string list \<Rightarrow> 'b node \<Rightarrow> 'b node" where
  "clear_end [] n = n"
| "clear_end [key] n =
     (if IsPathVariableOrWildcard key then
        (case PathVariableNode n of None \<Rightarrow> n | Some v \<Rightarrow> set_variable (set_end False v) n)
      else if IsMatchAll key then
        (case MatchAllNode n of None \<Rightarrow> n | Some a \<Rightarrow> set_match_all (set_end False a) n)
      else (case child n key of None \<Rightarrow> n | Some c \<Rightarrow> set_child key (set_end False c) n))"
| "clear_end (key # k # ks) n =
     (if IsPathVariableOrWildcard key then
        (case PathVariableNode n of None \<Rightarrow> n | Some v \<Rightarrow> set_variable (clear_end (k # ks) v) n)
      else if IsMatchAll key then n
      else (case child n key of None \<Rightarrow> n | Some c \<Rightarrow> set_child key (clear_end (k # ks) c) n))"

definition Remove :: "string \<Rightarrow> 'b trie \<Rightarrow> (string + 'b node option) \<times> 'b trie" where
  "Remove withOutHost t =
     (case trie_Get withOutHost t of
        Inl e \<Rightarrow> (Inl e, t)
      | Inr (None, _, _) \<Rightarrow> (Inr None, t)
      | Inr (Some n, _, _) \<Rightarrow>
          (Inr (Some (set_end False n)), t\<lparr>root := clear_end (Split withOutHost) (root t)\<rparr>))"

definition PutOrUpdate :: "string \<Rightarrow> 'b option \<Rightarrow> 'b trie \<Rightarrow> (string + bool) \<times> 'b trie" where
  "PutOrUpdate withOutHost biz t =
     (case biz of
        None \<Rightarrow> (Inl err_nil_data, t)
      | Some b \<Rightarrow>
          (let t = snd (Remove withOutHost t);
               (r, n) = internalPut (Split withOutHost) b (root t)
           in (Inr r, t\<lparr>root := n\<rparr>)))"

subsection \<open>Match\<close>

text \<open>
  A nil predicate is \<open>None\<close>. A result \<open>(candidate, params, true)\<close> is \<open>Some (candidate, params)\<close>;
  every result with \<open>false\<close> is \<open>None\<close>, its other components are ignored by the callers.
\<close>

definition matchesPredicate :: "'b node option \<Rightarrow> ('b node \<Rightarrow> bool) option \<Rightarrow> bool" where
  "matchesPredicate candidate predicate =
     (case candidate of
        None \<Rightarrow> False
      | Some c \<Rightarrow> (case predicate of None \<Rightarrow> True | Some p \<Rightarrow> p c))"

definition matchLiteralEnd :: "string \<Rightarrow> ('b node \<Rightarrow> bool) option \<Rightarrow> 'b node \<Rightarrow> 'b node option" where
  "matchLiteralEnd key predicate n =
     (case child n key of
        None \<Rightarrow> None
      | Some c \<Rightarrow>
          (if \<not> endOfPath c then None
           else if (case predicate of None \<Rightarrow> False | Some p \<Rightarrow> \<not> p c) then None
           else Some c))"

definition matchPathVariableEnd :: "('b node \<Rightarrow> bool) option \<Rightarrow> 'b node \<Rightarrow> 'b node option" where
  "matchPathVariableEnd predicate n =
     (case PathVariableNode n of
        None \<Rightarrow> None
      | Some v \<Rightarrow>
          (if \<not> endOfPath v then None
           else if (case predicate of None \<Rightarrow> False | Some p \<Rightarrow> \<not> p v) then None
           else Some v))"

definition matchAllChild :: "string \<Rightarrow> 'b node \<Rightarrow> 'b node option" where
  "matchAllChild key n = (case child n key of None \<Rightarrow> None | Some c \<Rightarrow> MatchAllNode c)"

definition matchAll ::
    "string \<Rightarrow> ('b node \<Rightarrow> bool) option \<Rightarrow> 'b node \<Rightarrow> ('b node \<times> string list) option" where
  "matchAll key predicate n =
     (if matchesPredicate (matchAllChild key n) predicate
      then Some (the (matchAllChild key n), [])
      else if matchesPredicate (MatchAllNode n) predicate
      then Some (the (MatchAllNode n), [])
      else None)"

definition matchEnd ::
    "string \<Rightarrow> ('b node \<Rightarrow> bool) option \<Rightarrow> 'b node \<Rightarrow> ('b node \<times> string list) option" where
  "matchEnd key predicate n =
     (case matchLiteralEnd key predicate n of
        Some c \<Rightarrow> Some (c, [])
      | None \<Rightarrow>
          (case matchPathVariableEnd predicate n of
             Some v \<Rightarrow> Some (v, [key])
           | None \<Rightarrow> matchAll key predicate n))"

text \<open>The two recursive cases take the match on the child as an argument.\<close>

definition matchLiteralChild ::
    "('b node \<Rightarrow> ('b node \<times> string list) option) \<Rightarrow> string \<Rightarrow> 'b node
     \<Rightarrow> ('b node \<times> string list) option" where
  "matchLiteralChild rec key n = (case child n key of None \<Rightarrow> None | Some c \<Rightarrow> rec c)"

definition matchPathVariableChild ::
    "('b node \<Rightarrow> ('b node \<times> string list) option) \<Rightarrow> string \<Rightarrow> 'b node
     \<Rightarrow> ('b node \<times> string list) option" where
  "matchPathVariableChild rec key n =
     (case PathVariableNode n of
        None \<Rightarrow> None
      | Some v \<Rightarrow> map_option (\<lambda>(candidate, params). (candidate, params @ [key])) (rec v))"

definition matchRemaining ::
    "('b node \<Rightarrow> ('b node \<times> string list) option) \<Rightarrow> string \<Rightarrow> ('b node \<Rightarrow> bool) option \<Rightarrow> 'b node
     \<Rightarrow> ('b node \<times> string list) option" where
  "matchRemaining rec key predicate n =
     (case matchLiteralChild rec key n of
        Some r \<Rightarrow> Some r
      | None \<Rightarrow>
          (case matchPathVariableChild rec key n of
             Some r \<Rightarrow> Some r
           | None \<Rightarrow> matchAll key predicate n))"

fun node_match ::
    "string list \<Rightarrow> ('b node \<Rightarrow> bool) option \<Rightarrow> 'b node \<Rightarrow> ('b node \<times> string list) option" where
  "node_match [] predicate n = None"
| "node_match [key] predicate n = matchEnd key predicate n"
| "node_match (key # k # ks) predicate n =
     matchRemaining (node_match (k # ks) predicate) key predicate n"

definition MatchWithPredicate ::
    "string \<Rightarrow> ('b node \<Rightarrow> bool) option \<Rightarrow> 'b trie \<Rightarrow> ('b node \<times> string list) option" where
  "MatchWithPredicate withOutHost predicate t =
     (let withOutHost = cut_before (CHR ''?'') withOutHost
      in map_option (\<lambda>(n, param). (n, rev param))
           (node_match (Split withOutHost) predicate (root t)))"

definition Match :: "string \<Rightarrow> 'b trie \<Rightarrow> ('b node \<times> string list) option" where
  "Match withOutHost t = MatchWithPredicate withOutHost None t"


section \<open>The trie as a map from patterns\<close>

text \<open>One step down the trie, and the node at the end of a pattern.\<close>

definition step :: "seg \<Rightarrow> 'b node \<Rightarrow> 'b node option" where
  "step s n = (case s of Lit k \<Rightarrow> child n k | Var \<Rightarrow> PathVariableNode n | All \<Rightarrow> MatchAllNode n)"

text \<open>
  The live node at a pattern: a node that ends a path, or any match-all node, since the match
  functions do not look at \<open>endOfPath\<close> of a match-all node. The flag says that the last step was a
  match-all step.
\<close>

fun live :: "bool \<Rightarrow> seg list \<Rightarrow> 'b node \<Rightarrow> 'b node option" where
  "live a [] n = (if endOfPath n \<or> a then Some n else None)"
| "live a (s # ps) n = (case step s n of None \<Rightarrow> None | Some c \<Rightarrow> live (s = All) ps c)"

text \<open>What the trie stores for a pattern.\<close>

definition entry :: "'b trie \<Rightarrow> seg list \<Rightarrow> 'b option" where
  "entry t p = (case live False p (root t) of None \<Rightarrow> None | Some n \<Rightarrow> bizInfo n)"

text \<open>A pattern the trie supports: a match-all segment stands last.\<close>

definition pattern_ok :: "seg list \<Rightarrow> bool" where
  "pattern_ok p \<longleftrightarrow> All \<notin> set (butlast p)"

definition pattern_of :: "string \<Rightarrow> seg list" where
  "pattern_of key = map seg_of (Split key)"

text \<open>
  Well-formedness below a node: every node that ends a path carries information, and every
  match-all node ends a path. The flag is that of \<open>live\<close>.
\<close>

definition wf_below :: "bool \<Rightarrow> 'b node \<Rightarrow> bool" where
  "wf_below a n \<longleftrightarrow> (\<forall>p m. live a p n = Some m \<longrightarrow> endOfPath m \<and> bizInfo m \<noteq> None)"

definition wf_trie :: "'b trie \<Rightarrow> bool" where
  "wf_trie t \<longleftrightarrow> wf_below False (root t)"

subsection \<open>Steps after an update\<close>

lemma child_set_child [simp]:
  "child (set_child k c n) k' = (if k' = k then Some c else child n k')"
  by (simp add: child_def set_child_def split: option.splits)

lemma step_init_children [simp]: "step s (init_children n) = step s n"
  by (cases s) (auto simp: step_def node_update_defs split: option.splits)

lemma step_updates [simp]:
  "step s (set_child k c n) = (if s = Lit k then Some c else step s n)"
  "step s (set_variable v n) = (if s = Var then Some v else step s n)"
  "step s (set_match_all a n) = (if s = All then Some a else step s n)"
  "step s (add_variable_name x n) = step s n"
  "step s (set_end e n) = step s n"
  "step s (set_biz b n) = step s n"
  "step s (set_match_str x n) = step s n"
  "step s (NewNode e x) = None"
  by (cases s; simp add: step_def node_update_defs split: option.splits)+

lemma end_updates [simp]:
  "endOfPath (set_child k c n) = endOfPath n"
  "endOfPath (set_variable v n) = endOfPath n"
  "endOfPath (set_match_all a n) = endOfPath n"
  "endOfPath (add_variable_name x n) = endOfPath n"
  "endOfPath (set_end e n) = e"
  "endOfPath (set_biz b n) = endOfPath n"
  "endOfPath (set_match_str x n) = endOfPath n"
  "endOfPath (NewNode e x) = e"
  "endOfPath (init_children n) = endOfPath n"
  by (simp_all add: node_update_defs split: option.splits)

lemma biz_updates [simp]:
  "bizInfo (set_child k c n) = bizInfo n"
  "bizInfo (set_variable v n) = bizInfo n"
  "bizInfo (set_match_all a n) = bizInfo n"
  "bizInfo (add_variable_name x n) = bizInfo n"
  "bizInfo (set_end e n) = bizInfo n"
  "bizInfo (set_biz b n) = Some b"
  "bizInfo (set_match_str x n) = bizInfo n"
  "bizInfo (NewNode e x) = None"
  "bizInfo (init_children n) = bizInfo n"
  by (simp_all add: node_update_defs split: option.splits)

lemma variable_updates [simp]:
  "PathVariableNode (set_child k c n) = PathVariableNode n"
  "PathVariableNode (set_variable v n) = Some v"
  "PathVariableNode (set_match_all a n) = PathVariableNode n"
  "PathVariableNode (add_variable_name x n) = PathVariableNode n"
  "PathVariableNode (init_children n) = PathVariableNode n"
  by (simp_all add: node_update_defs split: option.splits)

lemma match_all_updates [simp]:
  "MatchAllNode (set_child k c n) = MatchAllNode n"
  "MatchAllNode (set_variable v n) = MatchAllNode n"
  "MatchAllNode (set_match_all a n) = Some a"
  "MatchAllNode (add_variable_name x n) = MatchAllNode n"
  "MatchAllNode (init_children n) = MatchAllNode n"
  by (simp_all add: node_update_defs split: option.splits)

lemma child_updates [simp]:
  "child (set_variable v n) k = child n k"
  "child (set_match_all a n) k = child n k"
  "child (add_variable_name x n) k = child n k"
  "child (init_children n) k = child n k"
  by (simp_all add: node_update_defs split: option.splits)

lemma step_simps:
  "step (Lit k) n = child n k" "step Var n = PathVariableNode n" "step All n = MatchAllNode n"
  by (simp_all add: step_def)

text \<open>
  \<open>put\<close> changes one step only: the step of the key's segment. It is refused exactly when the path
  ends here and the child already ends a path.
\<close>

lemma put_step:
  assumes "put key isReal biz n = (ok, n')"
  shows "ok = (\<not> (isReal \<and> (\<exists>c. step (seg_of key) n = Some c \<and> endOfPath c)))"
    and "s \<noteq> seg_of key \<Longrightarrow> step s n' = step s n"
    and "endOfPath n' = endOfPath n" and "bizInfo n' = bizInfo n"
    and "\<not> ok \<Longrightarrow> step s n' = step s n"
    and "ok \<Longrightarrow> \<exists>c'. step (seg_of key) n' = Some c'
      \<and> (\<forall>t. step t c' = (case step (seg_of key) n of None \<Rightarrow> None | Some c \<Rightarrow> step t c))
      \<and> bizInfo c' = (if isReal then Some biz
            else case step (seg_of key) n of None \<Rightarrow> None | Some c \<Rightarrow> bizInfo c)
      \<and> endOfPath c' = ((case step (seg_of key) n of None \<Rightarrow> isReal | Some c \<Rightarrow> endOfPath c)
            \<or> (isReal \<and> seg_of key \<noteq> All))"
  using assms
  by (auto simp: put_def putPathVariable_def putNode_def putMatchAllNode_def seg_of_def Let_def
      step_simps IsMatchAll_def split: if_splits option.splits)

text \<open>After a successful \<open>put\<close> the node that the recursion of \<open>internalPut\<close> enters exists.\<close>

lemma put_child_exists:
  assumes "put key isReal biz n = (True, n')"
  shows "\<exists>c. step (seg_of key) n' = Some c"
  using put_step(6) [OF assms] by auto

text \<open>
  One level of \<open>internalPut\<close>, in terms of steps: the segment's child is replaced by the result of
  the recursive call, everything else is kept.
\<close>

lemma internalPut_Cons:
  assumes put: "put key (ks = []) biz (init_children n) = (True, n1)"
    and c: "step (seg_of key) n1 = Some c" and nall: "seg_of key \<noteq> All"
    and rec: "internalPut ks biz c = (r, c')"
    and res: "internalPut (key # ks) biz n = (ok, n')"
  shows "ok = r" and "step s n' = (if s = seg_of key then Some c' else step s n)"
    and "endOfPath n' = endOfPath n" and "bizInfo n' = bizInfo n"
  using assms put_step(2) [OF put, of s] put_step(3,4) [OF put]
  by (auto simp: seg_of_def step_simps IsMatchAll_def split: if_splits option.splits prod.splits)

text \<open>
  What the trie shows at a pattern: nothing, or whether the live node there ends a path and the
  information it carries.
\<close>

definition obs :: "bool \<Rightarrow> 'b node \<Rightarrow> seg list \<Rightarrow> (bool \<times> 'b option) option" where
  "obs a n p = map_option (\<lambda>m. (endOfPath m, bizInfo m)) (live a p n)"

lemma obs_Nil: "obs a n [] = (if endOfPath n \<or> a then Some (endOfPath n, bizInfo n) else None)"
  by (simp add: obs_def)

lemma obs_Cons:
  "obs a n (s # p) = (case step s n of None \<Rightarrow> None | Some c \<Rightarrow> obs (s = All) c p)"
  by (simp add: obs_def split: option.splits)

lemma entry_obs: "entry t p = Option.bind (obs False (root t) p) snd"
  by (simp add: entry_def obs_def split: option.splits)

lemma wf_below_obs:
  "wf_below a n \<longleftrightarrow> (\<forall>p x. obs a n p = Some x \<longrightarrow> fst x \<and> snd x \<noteq> None)"
  by (fastforce simp: wf_below_def obs_def)

fun ended :: "seg list \<Rightarrow> 'b node \<Rightarrow> bool" where
  "ended [] n = endOfPath n"
| "ended (s # ps) n = (case step s n of None \<Rightarrow> False | Some c \<Rightarrow> ended ps c)"

lemma put_obs:
  assumes "put key isReal biz n = (True, n')" and "step (seg_of key) n' = Some c'" and "q \<noteq> []"
  shows "obs a c' q = (case step (seg_of key) n of None \<Rightarrow> None | Some c \<Rightarrow> obs a c q)"
  using put_step(6) [OF assms(1)] assms(2,3)
  by (cases q) (auto simp: obs_Cons split: option.splits)

lemma put_ended:
  assumes "put key isReal biz n = (True, n')" and "step (seg_of key) n' = Some c'" and "q \<noteq> []"
  shows "ended q c' = (case step (seg_of key) n of None \<Rightarrow> False | Some c \<Rightarrow> ended q c)"
  using put_step(6) [OF assms(1)] assms(2,3)
  by (cases q) (auto split: option.splits)

lemma put_obs_Nil:
  assumes "put key isReal biz n = (True, n')" and "step (seg_of key) n' = Some c'"
    and "isReal \<or> seg_of key \<noteq> All"
  shows "obs (seg_of key = All) c' [] =
    (if isReal then Some (seg_of key \<noteq> All \<or> step (seg_of key) n = None, Some biz)
     else case step (seg_of key) n of None \<Rightarrow> None | Some c \<Rightarrow> obs (seg_of key = All) c [])"
  using put_step(1,6) [OF assms(1)] assms(2,3)
  by (auto simp: obs_Nil split: option.splits)

text \<open>A refused put leaves every pattern as it was.\<close>

lemma put_refused_obs:
  assumes "put key isReal biz n = (False, n')"
  shows "obs a n' q = obs a n q"
  using put_step(3,4) [OF assms] put_step(5) [OF assms]
  by (cases q) (auto simp: obs_Nil obs_Cons split: option.splits)

lemma internalPut_last:
  assumes "internalPut [key] biz n = (ok, n')"
  shows "(ok \<longleftrightarrow> \<not> ended [seg_of key] n)
    \<and> obs a n' q = 
        (if ok \<and> q = [seg_of key] then Some (seg_of key \<noteq> All \<or> obs a n q = None, Some biz)
         else obs a n q)"
proof (cases "put key True biz (init_children n)")
  case (Pair ok1 n1)
  have ok1: "ok1 \<longleftrightarrow> \<not> ended [seg_of key] n"
    using put_step(1) [OF Pair] by (auto split: option.splits)
  have keep: "obs a (init_children n) q = obs a n q" for a q
    by (cases q) (auto simp: obs_Nil obs_Cons split: option.splits)
  show ?thesis
  proof (cases ok1)
    case False
    with Pair assms have "ok = False" "n' = n1" by auto
    with False ok1 keep put_refused_obs [of key True biz "init_children n" n1 a q] Pair
    show ?thesis by simp
  next
    case True
    with Pair have put: "put key True biz (init_children n) = (True, n1)" by simp
    obtain c where c: "step (seg_of key) n1 = Some c"
      using put_child_exists [OF put] by auto
    have n': "ok \<and> endOfPath n' = endOfPath n \<and> bizInfo n' = bizInfo n
        \<and> (\<forall>s. step s n' = (if s = seg_of key then Some (if s = All then c else init_children c)
                            else step s n))"
    proof (cases "seg_of key = All")
      case True
      with assms put have "ok" "n' = n1"
        by (auto simp: seg_of_def IsMatchAll_def split: if_splits)
      with True c put_step(2,3,4) [OF put] show ?thesis by auto
    next
      case False
      from internalPut_Cons [OF _ c False, of "[]" biz n True "init_children c" ok n'] put assms
      show ?thesis using False by auto
    qed
    have down: "obs b (if seg_of key = All then c else init_children c) r = obs b c r" for b r
      by (cases r) (auto simp: obs_Nil obs_Cons split: option.splits)
    show ?thesis
    proof (cases q)
      case Nil
      with n' True ok1 show ?thesis by (simp add: obs_Nil)
    next
      case (Cons s r)
      show ?thesis
      proof (cases "s = seg_of key")
        case False
        with n' Cons True ok1 show ?thesis by (auto simp: obs_Cons)
      next
        case s: True
        with n' Cons have "obs a n' q = obs (s = All) c r"
          using down by (simp add: obs_Cons)
        moreover have "obs (s = All) c r =
            (if r = [] then Some (s \<noteq> All \<or> obs a n q = None, Some biz) else obs a n q)"
          using put_obs_Nil [OF put c] put_obs [OF put c, of r] s Cons
          by (auto simp: obs_Cons obs_Nil split: option.splits)
        ultimately show ?thesis using n' True ok1 s Cons by auto
      qed
    qed
  qed
qed

lemma internalPut_obs:
  assumes "keys \<noteq> []" and "pattern_ok (map seg_of keys)" and "internalPut keys biz n = (ok, n')"
  shows "(ok \<longleftrightarrow> \<not> ended (map seg_of keys) n)
    \<and> obs a n' q = 
        (if ok \<and> q = map seg_of keys
         then Some (last q \<noteq> All \<or> obs a n q = None, Some biz) else obs a n q)"
  using assms
proof (induction keys arbitrary: n n' ok a q)
  case Nil
  then show ?case by simp
next
  case (Cons key ks)
  show ?case
  proof (cases "ks = []")
    case True
    with Cons.prems internalPut_last show ?thesis by fastforce
  next
    case ks: False
    then have nall: "seg_of key \<noteq> All" and pok: "pattern_ok (map seg_of ks)"
      using Cons.prems(2) by (auto simp: pattern_ok_def)
    have "fst (put key False biz (init_children n))"
      using put_step(1) [of key False biz "init_children n"] by (metis prod.collapse)
    then obtain n1 where put: "put key False biz (init_children n) = (True, n1)"
      by (metis prod.collapse)
    obtain c where c: "step (seg_of key) n1 = Some c"
      using put_child_exists [OF put] by auto
    obtain r c' where rec: "internalPut ks biz c = (r, c')"
      by (cases "internalPut ks biz c")
    have top: "ok = r" "endOfPath n' = endOfPath n" "bizInfo n' = bizInfo n"
        "\<And>s. step s n' = (if s = seg_of key then Some c' else step s n)"
      using internalPut_Cons [OF _ c nall rec Cons.prems(3)] put ks by auto
    note IH = Cons.IH [OF ks pok rec]
    have ended: "ended (map seg_of ks) c = ended (map seg_of (key # ks)) n"
      using put_ended [OF put c, of "map seg_of ks"] ks by simp
    show ?thesis
    proof (cases q)
      case Nil
      with top IH ended show ?thesis by (simp add: obs_Nil)
    next
      case (Cons s p)
      show ?thesis
      proof (cases "s = seg_of key")
        case False
        with top Cons IH ended show ?thesis by (auto simp: obs_Cons)
      next
        case s: True
        have "obs (s = All) c p = obs a n q"
          using put_obs [OF put c, of p] put_obs_Nil [OF put c] s Cons nall
          by (cases p) (auto simp: obs_Cons)
        moreover have "obs a n' q = obs (s = All) c' p"
          using top Cons s by (simp add: obs_Cons)
        moreover have "last q = last p" if "p = map seg_of ks"
          using that Cons ks by simp
        ultimately show ?thesis
          using IH [of "s = All" p] top(1) ended Cons s by auto
      qed
    qed
  qed
qed


subsection \<open>Put is an insertion that never overwrites\<close>

lemma obs_NewTrie [simp]: "obs False (root NewTrie) p = None"
  by (cases p) (auto simp: NewTrie_def obs_Nil obs_Cons)

lemma wf_NewTrie [simp]: "wf_trie NewTrie"
  by (simp add: wf_trie_def wf_below_obs)

lemma entry_NewTrie [simp]: "entry NewTrie = Map.empty"
  by (simp add: entry_obs fun_eq_iff)

lemma pattern_of_not_Nil [simp]: "pattern_of key \<noteq> []"
  by (simp add: pattern_of_def Split_def)

lemma wf_belowD: "wf_below a n \<Longrightarrow> obs a n p = Some x \<Longrightarrow> fst x \<and> snd x \<noteq> None"
  unfolding wf_below_obs by blast

lemma wf_belowI: "(\<And>p x. obs a n p = Some x \<Longrightarrow> fst x \<and> snd x \<noteq> None) \<Longrightarrow> wf_below a n"
  unfolding wf_below_obs by blast

text \<open>Below a well-formed node, ending a path and showing something are the same.\<close>

lemma ended_iff_obs:
  assumes "wf_below a n"
  shows "ended p n \<longleftrightarrow> obs a n p \<noteq> None"
  using assms
proof (induction p arbitrary: a n)
  case Nil
  then show ?case using wf_belowD [OF Nil, of "[]"] by (auto simp: obs_Nil)
next
  case (Cons s p)
  show ?case
  proof (cases "step s n")
    case None
    then show ?thesis by (simp add: obs_Cons)
  next
    case (Some c)
    have "wf_below (s = All) c"
      using wf_belowD [OF Cons.prems, of "s # q" for q] Some
      by (intro wf_belowI) (simp add: obs_Cons)
    with Cons.IH Some show ?thesis by (simp add: obs_Cons)
  qed
qed

lemma Put_obs:
  assumes "pattern_ok (pattern_of key)" and "Put key (Some b) t = (Inr ok, t')"
  shows "(ok \<longleftrightarrow> \<not> ended (pattern_of key) (root t))
    \<and> obs False (root t') q =
        (if ok \<and> q = pattern_of key
         then Some (last q \<noteq> All \<or> obs False (root t) q = None, Some b) else obs False (root t) q)"
proof -
  have "internalPut (Split key) b (root t) = (ok, root t')"
    using assms(2) by (auto simp: Put_def split: prod.splits)
  with internalPut_obs [of "Split key" b "root t" ok "root t'" False q] assms(1)
  show ?thesis by (simp add: pattern_of_def Split_def)
qed

lemma Put_Inr: "\<exists>ok t'. Put key (Some b) t = (Inr ok, t')"
  by (cases "internalPut (Split key) b (root t)") (simp add: Put_def)

text \<open>Put on a well-formed trie: it succeeds exactly when the pattern is free.\<close>

lemma Put_wf:
  assumes ok: "pattern_ok (pattern_of key)" and wf: "wf_trie t"
    and put: "Put key (Some b) t = (Inr r, t')"
  shows "r \<longleftrightarrow> entry t (pattern_of key) = None"
    and "wf_trie t'"
    and "entry t' = (if r then (entry t)(pattern_of key \<mapsto> b) else entry t)"
proof -
  note obs = Put_obs [OF ok put]
  have E: "ended (pattern_of key) (root t) \<longleftrightarrow> obs False (root t) (pattern_of key) \<noteq> None"
    using wf unfolding wf_trie_def by (rule ended_iff_obs)
  have N: "obs False (root t) p \<noteq> None \<longleftrightarrow> entry t p \<noteq> None" for p
    using wf_belowD [OF wf [unfolded wf_trie_def], of p]
    by (cases "obs False (root t) p") (auto simp: entry_obs)
  from obs E N show r: "r \<longleftrightarrow> entry t (pattern_of key) = None" by blast
  with N have free: "r \<Longrightarrow> obs False (root t) (pattern_of key) = None" by blast
  show "wf_trie t'"
    unfolding wf_trie_def
  proof (rule wf_belowI)
    fix p x
    assume "obs False (root t') p = Some x"
    with obs free wf_belowD [OF wf [unfolded wf_trie_def], of p x]
    show "fst x \<and> snd x \<noteq> None" by (auto split: if_splits)
  qed
  from obs free show "entry t' = (if r then (entry t)(pattern_of key \<mapsto> b) else entry t)"
    by (auto simp: entry_obs fun_eq_iff split: if_splits)
qed

text \<open>Loading a table: the entries are put one after the other, as route tables are built.\<close>

fun put_all :: "(string \<times> 'b) list \<Rightarrow> 'b trie \<Rightarrow> 'b trie" where
  "put_all [] t = t"
| "put_all ((key, b) # kvs) t = put_all kvs (snd (Put key (Some b) t))"

lemma put_all_wf:
  assumes "wf_trie t" and "\<forall>(key, b) \<in> set kvs. pattern_ok (pattern_of key)"
  shows "wf_trie (put_all kvs t)
    \<and> entry (put_all kvs t) = map_of (map (\<lambda>(key, b). (pattern_of key, b)) kvs) ++ entry t"
  using assms
proof (induction kvs arbitrary: t)
  case Nil
  then show ?case by simp
next
  case (Cons kv kvs)
  obtain key b where kv: "kv = (key, b)" by (cases kv)
  obtain r t1 where put: "Put key (Some b) t = (Inr r, t1)" using Put_Inr by metis
  have ok: "pattern_ok (pattern_of key)" using Cons.prems kv by simp
  note P = Put_wf [OF ok Cons.prems(1) put]
  have IH: "wf_trie (put_all kvs t1)
      \<and> entry (put_all kvs t1) = map_of (map (\<lambda>(key, b). (pattern_of key, b)) kvs) ++ entry t1"
    using Cons.IH [OF P(2)] Cons.prems(2) by simp
  show ?case
    using IH P kv put by (auto simp: fun_eq_iff map_add_def split: option.splits)
qed


section \<open>Match against its specification\<close>

text \<open>
  Which patterns match the segments of a request. A match-all segment takes one or more segments;
  after a literal it may also take none, so \<open>/a/**\<close> matches \<open>/a\<close>.
\<close>

fun seg_match :: "seg list \<Rightarrow> string list \<Rightarrow> bool" where
  "seg_match [] xs = (xs = [])"
| "seg_match (Lit s # ps) xs =
     (case xs of [] \<Rightarrow> False
      | x # ys \<Rightarrow> s = x \<and> (seg_match ps ys \<or> (ys = [] \<and> ps = [All])))"
| "seg_match (Var # ps) xs = (case xs of [] \<Rightarrow> False | x # ys \<Rightarrow> seg_match ps ys)"
| "seg_match (All # ps) xs = (ps = [] \<and> xs \<noteq> [])"

text \<open>
  The patterns that match a request, most preferred first: at each segment a literal goes before a
  variable and a variable before a match-all suffix; at the last segment a variable goes before the
  empty match-all below the literal.
\<close>

fun match_order :: "string list \<Rightarrow> seg list list" where
  "match_order [] = []"
| "match_order [k] = [[Lit k], [Var], [Lit k, All], [All]]"
| "match_order (k # x # xs) =
     map ((#) (Lit k)) (match_order (x # xs)) @ map ((#) Var) (match_order (x # xs))
     @ [[Lit k, All], [All]]"

text \<open>The segments a pattern's variables stand for, in path order.\<close>

fun captures :: "seg list \<Rightarrow> string list \<Rightarrow> string list" where
  "captures (Var # ps) (x # xs) = x # captures ps xs"
| "captures (Lit s # ps) (x # xs) = captures ps xs"
| "captures ps xs = []"

lemma pattern_cases:
  obtains (Nil) "p = []" | (Lit) s q where "p = Lit s # q" | (Var) q where "p = Var # q"
    | (All) q where "p = All # q"
  by (metis list.exhaust seg.exhaust)

lemma seg_match_Nil [simp]: "seg_match p [] \<longleftrightarrow> p = []"
  by (cases p rule: pattern_cases) auto

lemma set_match_order: "xs \<noteq> [] \<Longrightarrow> set (match_order xs) = {p. seg_match p xs}"
proof (induction xs rule: match_order.induct)
  case 1
  then show ?case by simp
next
  case (2 k)
  have "seg_match p [k] \<longleftrightarrow> p \<in> {[Lit k], [Var], [Lit k, All], [All]}" for p
    by (cases p rule: pattern_cases) auto
  then show ?case by auto
next
  case (3 k x xs)
  have "seg_match p (k # x # xs) \<longleftrightarrow>
      (\<exists>q. p = Lit k # q \<and> seg_match q (x # xs)) \<or> (\<exists>q. p = Var # q \<and> seg_match q (x # xs))
      \<or> p = [Lit k, All] \<or> p = [All]" for p
    by (cases p rule: pattern_cases) auto
  with 3 show ?case by auto
qed

text \<open>The test that \<open>match\<close> makes at one pattern, with the variable values it then returns.\<close>

definition try_pattern ::
    "string list \<Rightarrow> ('b node \<Rightarrow> bool) option \<Rightarrow> 'b node \<Rightarrow> seg list
     \<Rightarrow> ('b node \<times> string list) option" where
  "try_pattern xs predicate n p =
     (case live False p n of
        None \<Rightarrow> None
      | Some m \<Rightarrow>
          if matchesPredicate (Some m) predicate then Some (m, rev (captures p xs)) else None)"

lemma try_pattern_Lit:
  "try_pattern (k # xs) pr n (Lit k # p) =
     (case child n k of None \<Rightarrow> None | Some c \<Rightarrow> try_pattern xs pr c p)"
  by (simp add: try_pattern_def step_simps split: option.splits)

lemma try_pattern_Var:
  "try_pattern (k # xs) pr n (Var # p) =
     (case PathVariableNode n of None \<Rightarrow> None
      | Some v \<Rightarrow> map_option (\<lambda>(c, ps). (c, ps @ [k])) (try_pattern xs pr v p))"
  by (simp add: try_pattern_def step_simps split: option.splits)

lemma matchAll_try:
  "matchAll k pr n = first_some (try_pattern (k # xs) pr n) [[Lit k, All], [All]]"
  by (auto simp: matchAll_def matchAllChild_def matchesPredicate_def try_pattern_def step_simps
      split: option.splits)

lemma first_some_try_Lit:
  "first_some (try_pattern (k # xs) pr n) (map ((#) (Lit k)) ps) =
     (case child n k of None \<Rightarrow> None | Some c \<Rightarrow> first_some (try_pattern xs pr c) ps)"
  by (cases "child n k")
    (auto simp: first_some_map try_pattern_Lit first_some_None intro: first_some_cong)

lemma first_some_map_option:
  "first_some (\<lambda>x. map_option g (f x)) xs = map_option g (first_some f xs)"
  by (induction xs) (auto split: option.splits)

lemma first_some_try_Var:
  "first_some (try_pattern (k # xs) pr n) (map ((#) Var) ps) =
     (case PathVariableNode n of None \<Rightarrow> None
      | Some v \<Rightarrow> map_option (\<lambda>(c, qs). (c, qs @ [k])) (first_some (try_pattern xs pr v) ps))"
  by (cases "PathVariableNode n")
    (auto simp: first_some_map try_pattern_Var first_some_None first_some_map_option)

lemma node_match_spec:
  "node_match xs pr n = first_some (try_pattern xs pr n) (match_order xs)"
proof (induction xs pr n rule: node_match.induct)
  case (1 pr n)
  then show ?case by simp
next
  case (2 k pr n)
  show ?case
    by (auto simp: matchEnd_def matchLiteralEnd_def matchPathVariableEnd_def matchesPredicate_def
        matchAll_try [of k pr n "[]"] try_pattern_Lit try_pattern_Var
        try_pattern_def [of _ _ _ "[]"] split: option.splits if_splits)
next
  case (3 k x xs pr n)
  then have IH: "node_match (x # xs) pr m = first_some (try_pattern (x # xs) pr m) (match_order (x # xs))"
    for m by blast
  show ?case
    by (auto simp: matchRemaining_def matchLiteralChild_def matchPathVariableChild_def IH
        matchAll_try [of k pr n "x # xs"] first_some_append first_some_try_Lit first_some_try_Var
        split: option.splits)
qed


subsection \<open>Remove\<close>

lemma clear_end_step:
  assumes "keys = key # k # ks" and "seg_of key \<noteq> All"
  shows "step (seg_of key) n = None \<Longrightarrow> clear_end keys n = n"
    and "step (seg_of key) n = Some c \<Longrightarrow> endOfPath (clear_end keys n) = endOfPath n"
    and "step (seg_of key) n = Some c \<Longrightarrow> bizInfo (clear_end keys n) = bizInfo n"
    and "step (seg_of key) n = Some c \<Longrightarrow> step t (clear_end keys n) =
      (if t = seg_of key then Some (clear_end (k # ks) c) else step t n)"
  using assms by (auto simp: seg_of_def step_simps IsMatchAll_def split: if_splits)

lemma clear_end_obs:
  assumes "keys \<noteq> []" and "pattern_ok (map seg_of keys)"
  shows "obs a (clear_end keys n) q =
    (if q = map seg_of keys
     then (if last q = All then map_option (\<lambda>(e, b). (False, b)) (obs a n q) else None)
     else obs a n q)"
  using assms
proof (induction keys arbitrary: n a q)
  case Nil
  then show ?case by simp
next
  case (Cons key rest)
  show ?case
  proof (cases rest)
    case Nil
    have put: "obs b (set_end False c) r =
        (if r = [] then (if b then Some (False, bizInfo c) else None) else obs b c r)" for b c r
      by (cases r) (auto simp: obs_Nil obs_Cons split: option.splits)
    show ?thesis
      unfolding Nil by (cases q) (auto simp: obs_Nil obs_Cons put seg_of_def IsMatchAll_def
          step_simps split: option.splits if_splits)
  next
    case rest: (Cons k ks)
    with Cons.prems have nall: "seg_of key \<noteq> All" and pok: "pattern_ok (map seg_of rest)"
      by (auto simp: pattern_ok_def)
    have kr: "key # rest = key # k # ks" using rest by simp
    note st = clear_end_step [OF kr nall]
    show ?thesis
    proof (cases "step (seg_of key) n")
      case None
      with st(1) [OF None] show ?thesis by (auto simp: obs_Cons)
    next
      case (Some c)
      note IH = Cons.IH [OF _ pok, of _ c]
      show ?thesis
      proof (cases q)
        case Nil
        with st(2,3) [OF Some] show ?thesis by (simp add: obs_Nil del: clear_end.simps)
      next
        case q: (Cons s p)
        have "obs a (clear_end (key # rest) n) q =
            (if s = seg_of key then obs (s = All) (clear_end rest c) p else obs a n q)"
          using st(4) [OF Some] rest by (simp add: q obs_Cons [of a] del: clear_end.simps)
        with IH [of "s = All" p] Some rest show ?thesis by (auto simp: q obs_Cons [of a])
      qed
    qed
  qed
qed

text \<open>What \<open>Get\<close> finds, for a supported pattern.\<close>

lemma Get_step:
  assumes "keys = key # k # ks" and "seg_of key \<noteq> All"
  shows "step (seg_of key) n = None \<Longrightarrow> Get keys n = Inr (None, [], False)"
    and "step (seg_of key) n = Some c \<Longrightarrow> Get (k # ks) c = Inr (r, names, ok) \<Longrightarrow>
      \<exists>names'. Get keys n = Inr (r, names', ok)"
  using assms by (auto simp: seg_of_def step_simps IsMatchAll_def split: if_splits)

lemma Get_ok:
  assumes "keys \<noteq> []" and "pattern_ok (map seg_of keys)"
  shows "\<exists>r names ok. Get keys n = Inr (r, names, ok)
    \<and> (r = None \<longrightarrow> obs a n (map seg_of keys) = None)"
  using assms
proof (induction keys arbitrary: n a)
  case Nil
  then show ?case by simp
next
  case (Cons key rest)
  show ?case
  proof (cases rest)
    case Nil
    then show ?thesis
      by (auto simp: seg_of_def obs_Nil obs_Cons step_simps child_def split: option.splits)
  next
    case rest: (Cons k ks)
    with Cons.prems have nall: "seg_of key \<noteq> All" and pok: "pattern_ok (map seg_of rest)"
      by (auto simp: pattern_ok_def)
    have kr: "key # rest = key # k # ks" using rest by simp
    note st = Get_step [OF kr nall]
    show ?thesis
    proof (cases "step (seg_of key) n")
      case None
      with st(1) [OF None] show ?thesis by (auto simp: obs_Cons)
    next
      case (Some c)
      obtain r names ok where "Get rest c = Inr (r, names, ok)"
        "r = None \<longrightarrow> obs False c (map seg_of rest) = None"
        using Cons.IH [OF _ pok, of c False] rest by auto
      with st(2) [OF Some] Some nall rest show ?thesis
        by (fastforce simp: obs_Cons simp del: Get.simps)
    qed
  qed
qed

lemma Remove_obs:
  assumes ok: "pattern_ok (pattern_of key)"
  shows "obs False (root (snd (Remove key t))) q =
    (if q = pattern_of key
     then (if last q = All then map_option (\<lambda>(e, b). (False, b)) (obs False (root t) q) else None)
     else obs False (root t) q)"
proof -
  have nn: "Split key \<noteq> []" by (simp add: Split_def)
  obtain r names b where get: "Get (Split key) (root t) = Inr (r, names, b)"
    and none: "r = None \<longrightarrow> obs False (root t) (pattern_of key) = None"
    using Get_ok [OF nn ok [unfolded pattern_of_def], of "root t" False]
    unfolding pattern_of_def by blast
  show ?thesis
  proof (cases r)
    case None
    with get none show ?thesis by (auto simp: Remove_def trie_Get_def)
  next
    case (Some n)
    with get clear_end_obs [OF nn ok [unfolded pattern_of_def], of False "root t" q]
    show ?thesis by (simp add: Remove_def trie_Get_def pattern_of_def)
  qed
qed

lemma Remove_not_ended:
  assumes "pattern_ok (pattern_of key)"
  shows "\<not> ended (pattern_of key) (root (snd (Remove key t)))"
proof -
  have E: "ended p n \<Longrightarrow> \<exists>b. obs a n p = Some (True, b)" for p a and n :: "'a node"
    by (induction p arbitrary: a n) (auto simp: obs_Nil obs_Cons split: option.splits)
  show ?thesis
    using E [of "pattern_of key" "root (snd (Remove key t))" False]
      Remove_obs [OF assms, of t "pattern_of key"]
    by (auto split: if_splits)
qed

subsection \<open>A match-all segment inside a path\<close>

text \<open>
  \<open>internalPut\<close> stops at a match-all segment whether or not it is the last one: with segments left,
  it reports success and has stored nothing.
\<close>

lemma put_inner_ok: "\<exists>n'. put key False biz n = (True, n')"
  using put_step(1) [of key False biz n] by (metis prod.collapse)

lemma internalPut_inner:
  assumes "seg_of k = All" and "rest \<noteq> []" and "All \<notin> set (map seg_of ks)"
    and "internalPut (ks @ k # rest) biz n = (ok, n')"
  shows "ok \<and> Option.bind (obs a n' q) snd = Option.bind (obs a n q) snd"
  using assms
proof (induction ks arbitrary: n n' ok a q)
  case Nil
  obtain n1 where put: "put k False biz (init_children n) = (True, n1)"
    using put_inner_ok by metis
  with Nil have n': "n' = n1" "ok"
    by (auto simp: seg_of_def IsMatchAll_def split: if_splits)
  show ?case
  proof (cases q)
    case Nil
    with n' put_step(3,4) [OF put] show ?thesis by (simp add: obs_Nil)
  next
    case (Cons s p)
    show ?thesis
    proof (cases "s = All")
      case False
      with Cons n' put_step(2) [OF put, of s] Nil.prems(1) show ?thesis by (simp add: obs_Cons)
    next
      case True
      with put_step(6) [OF put] Nil.prems(1) obtain c' where c': "step All n1 = Some c'"
        "\<forall>t. step t c' = (case step All n of None \<Rightarrow> None | Some c \<Rightarrow> step t c)"
        "bizInfo c' = (case step All n of None \<Rightarrow> None | Some c \<Rightarrow> bizInfo c)"
        by auto
      with Cons True n' show ?thesis
        by (cases p) (auto simp: obs_Nil obs_Cons split: option.splits)
    qed
  qed
next
  case (Cons key ks)
  then have nall: "seg_of key \<noteq> All" by auto
  have ne: "ks @ k # rest \<noteq> []" by simp
  obtain n1 where put: "put key False biz (init_children n) = (True, n1)"
    using put_inner_ok by metis
  obtain c where c: "step (seg_of key) n1 = Some c"
    using put_child_exists [OF put] by auto
  obtain r c' where rec: "internalPut (ks @ k # rest) biz c = (r, c')"
    by (cases "internalPut (ks @ k # rest) biz c")
  have top: "ok = r" "endOfPath n' = endOfPath n" "bizInfo n' = bizInfo n"
      "\<And>s. step s n' = (if s = seg_of key then Some c' else step s n)"
    using internalPut_Cons [OF _ c nall rec, of n ok n'] put Cons.prems(4) by auto
  note IH = Cons.IH [OF Cons.prems(1,2) _ rec]
  show ?case
  proof (cases q)
    case Nil
    with top IH Cons.prems(3) show ?thesis by (simp add: obs_Nil)
  next
    case (Cons s p)
    have "obs (s = All) c p = obs a n q" if "s = seg_of key"
      using put_obs [OF put c, of p] put_obs_Nil [OF put c] that Cons nall
      by (cases p) (auto simp: obs_Cons)
    with top Cons IH Cons.prems(3) show ?thesis by (auto simp: obs_Cons)
  qed
qed


section \<open>What the trie promises\<close>

lemma MatchWithPredicate_spec:
  "MatchWithPredicate url pr t =
     first_some (\<lambda>p. map_option (\<lambda>(n, vs). (n, rev vs))
         (try_pattern (Split (cut_before (CHR ''?'') url)) pr (root t) p))
       (match_order (Split (cut_before (CHR ''?'') url)))"
  by (simp add: MatchWithPredicate_def node_match_spec first_some_map_option Let_def)

lemma Split_not_Nil [simp]: "Split key \<noteq> []"
  by (simp add: Split_def)

text \<open>A pattern whose live node the predicate accepts.\<close>

definition accepted :: "('b node \<Rightarrow> bool) option \<Rightarrow> 'b trie \<Rightarrow> seg list \<Rightarrow> bool" where
  "accepted pr t p \<longleftrightarrow>
     (case live False p (root t) of None \<Rightarrow> False | Some n \<Rightarrow> matchesPredicate (Some n) pr)"

definition request_path :: "string \<Rightarrow> string list" where
  "request_path url = Split (cut_before (CHR ''?'') url)"

lemma try_pattern_accepted: "try_pattern xs pr (root t) p = None \<longleftrightarrow> \<not> accepted pr t p"
  by (auto simp: try_pattern_def accepted_def split: option.splits)

lemma MatchWithPredicate_Some:
  assumes "MatchWithPredicate url pr t = Some (n, vs)"
  shows "\<exists>better p worse. match_order (request_path url) = better @ p # worse
    \<and> seg_match p (request_path url) \<and> accepted pr t p \<and> (\<forall>q \<in> set better. \<not> accepted pr t q)
    \<and> live False p (root t) = Some n \<and> vs = captures p (request_path url)"
proof -
  let ?xs = "request_path url"
  have ne: "?xs \<noteq> []" by (simp add: request_path_def)
  obtain better p worse where split: "match_order ?xs = better @ p # worse"
    and p: "map_option (\<lambda>(n, vs). (n, rev vs)) (try_pattern ?xs pr (root t) p) = Some (n, vs)"
    and better: "\<forall>q \<in> set better. try_pattern ?xs pr (root t) q = None"
    using first_some_split [OF assms [unfolded MatchWithPredicate_spec]]
    unfolding request_path_def by auto
  have "seg_match p ?xs" using set_match_order [OF ne] split by auto
  moreover have "accepted pr t p" "\<forall>q \<in> set better. \<not> accepted pr t q"
    using p better try_pattern_accepted [of ?xs pr t] by (force, blast)
  moreover have "live False p (root t) = Some n" "vs = captures p ?xs"
    using p by (auto simp: try_pattern_def split: option.splits if_splits)
  ultimately show ?thesis using split by blast
qed

text \<open>
  C7: a match is the best one. \<open>MatchWithPredicate\<close> finds a node exactly when some pattern that
  matches the request path (without its query) has a live node that the predicate accepts. The
  node it returns is the live node of such a pattern, no pattern that \<open>match_order\<close> prefers to
  it has an accepted node, and the returned parameters are the values of the pattern's variables
  in path order.
\<close>

theorem MatchWithPredicate_best:
  "(MatchWithPredicate url pr t = None \<longleftrightarrow>
      (\<forall>p. seg_match p (request_path url) \<longrightarrow> \<not> accepted pr t p))
   \<and> (\<forall>n vs. MatchWithPredicate url pr t = Some (n, vs) \<longrightarrow>
        (\<exists>better p worse. match_order (request_path url) = better @ p # worse
          \<and> seg_match p (request_path url) \<and> accepted pr t p
          \<and> (\<forall>q \<in> set better. \<not> accepted pr t q)
          \<and> live False p (root t) = Some n \<and> vs = captures p (request_path url)))"
proof -
  have ne: "request_path url \<noteq> []" by (simp add: request_path_def)
  have "MatchWithPredicate url pr t = None \<longleftrightarrow>
      (\<forall>p \<in> set (match_order (request_path url)). \<not> accepted pr t p)"
    by (simp add: MatchWithPredicate_spec first_some_None request_path_def try_pattern_accepted)
  with MatchWithPredicate_Some [of url pr t] show ?thesis
    using set_match_order [OF ne] by blast
qed

text \<open>A small table used by the witnesses of this theory.\<close>

definition sample_table :: "string trie" where
  "sample_table = put_all
     [(''/api/users/:id'', ''user''), (''/api/:kind/all'', ''list''), (''/api/**'', ''api''),
      (''/api/users/:name'', ''shadowed'')] NewTrie"

theorem MatchWithPredicate_best_witness:
  "MatchWithPredicate ''/api/users/all?x=1'' None sample_table \<noteq> None
   \<and> (\<exists>p. seg_match p (request_path ''/api/users/all?x=1'') \<and> accepted None sample_table p)"
proof -
  have m: "MatchWithPredicate ''/api/users/all?x=1'' None sample_table \<noteq> None"
    unfolding sample_table_def by code_simp
  with MatchWithPredicate_best [of "''/api/users/all?x=1''" None sample_table]
  show ?thesis by blast
qed


text \<open>
  C14: a loaded trie answers like its table. Put a list of (pattern, information) pairs into an
  empty trie, all with supported patterns; then \<open>Match\<close> returns, for the first pattern in the
  order of \<open>match_order\<close> that the list contains, the information of its first occurrence in the
  list, with the variables' values in path order; and it fails when there is none.
\<close>

theorem Match_table:
  assumes "\<forall>(key, b) \<in> set kvs. pattern_ok (pattern_of key)"
  shows "map_option (\<lambda>(n, vs). (GetBizInfo n, vs)) (Match url (put_all kvs NewTrie)) =
    first_some (\<lambda>p. map_option (\<lambda>b. (Some b, captures p (request_path url)))
        (map_of (map (\<lambda>(key, b). (pattern_of key, b)) kvs) p))
      (match_order (request_path url))"
proof -
  let ?t = "put_all kvs NewTrie" and ?xs = "request_path url"
  have wf: "wf_trie ?t"
    and e: "entry ?t = map_of (map (\<lambda>(key, b). (pattern_of key, b)) kvs)"
    using put_all_wf [OF wf_NewTrie assms] by auto
  have "map_option (\<lambda>x. (GetBizInfo (fst x), rev (snd x))) (try_pattern ?xs None (root ?t) p) =
      map_option (\<lambda>b. (Some b, captures p ?xs)) (entry ?t p)" for p
  proof (cases "live False p (root ?t)")
    case (Some n)
    with wf obtain b where "bizInfo n = Some b"
      unfolding wf_trie_def wf_below_def by blast
    with Some show ?thesis
      by (simp add: try_pattern_def entry_def matchesPredicate_def GetBizInfo_def)
  qed (simp add: try_pattern_def entry_def)
  then show ?thesis
    by (simp add: Match_def MatchWithPredicate_spec e first_some_map_option [symmetric]
        option.map_comp comp_def split_beta request_path_def)
qed

theorem Match_table_witness:
  "map_option (\<lambda>(n, vs). (GetBizInfo n, vs)) (Match ''/api/users/7?x=1''
      (put_all [(''/api/**'', ''api''), (''/api/users/:id'', ''user'')] NewTrie))
   = Some (Some ''user'', [''7''])"
  by (subst Match_table) (code_simp, code_simp)

text \<open>
  C15: insertion. On a well-formed trie and for a supported pattern, \<open>Put\<close> returns true exactly
  when the trie has no entry for the pattern, adds exactly that entry when it does and changes no
  entry when it does not (it never overwrites), and keeps the trie well-formed; nil information is
  refused with an error and changes nothing.
\<close>

theorem Put_inserts:
  assumes "pattern_ok (pattern_of key)" and "wf_trie t"
  shows "\<exists>r t'. Put key (Some b) t = (Inr r, t') \<and> wf_trie t'
      \<and> (r \<longleftrightarrow> entry t (pattern_of key) = None)
      \<and> entry t' = (if r then (entry t)(pattern_of key \<mapsto> b) else entry t)
      \<and> Put key None t = (Inl err_nil_data, t)"
proof -
  obtain r t' where put: "Put key (Some b) t = (Inr r, t')" using Put_Inr by metis
  have nil: "Put key None t = (Inl err_nil_data, t)" by (simp add: Put_def)
  from put nil Put_wf [OF assms put] show ?thesis by blast
qed

theorem Put_inserts_witness:
  "pattern_ok (pattern_of ''/a/:x'') \<and>
   (\<exists>r t'. Put ''/a/:x'' (Some ''v'') NewTrie = (Inr r, t') \<and> wf_trie t'
      \<and> (r \<longleftrightarrow> entry (NewTrie :: string trie) (pattern_of ''/a/:x'') = None)
      \<and> entry t' = (if r then (entry NewTrie)(pattern_of ''/a/:x'' \<mapsto> ''v'') else entry NewTrie)
      \<and> Put ''/a/:x'' None NewTrie = (Inl err_nil_data, NewTrie :: string trie))"
proof -
  have ok: "pattern_ok (pattern_of ''/a/:x'')" by code_simp
  show ?thesis by (rule conjI [OF ok Put_inserts [OF ok wf_NewTrie]])
qed

text \<open>
  C16: removal. \<open>Remove\<close> of a supported pattern deletes its entry and no other, except that a
  pattern which ends in a match-all segment is never deleted: \<open>Remove\<close> clears the node's
  \<open>endOfPath\<close>, which the match functions do not read for a match-all node, so such a route keeps
  matching.
\<close>

theorem Remove_entry:
  assumes "pattern_ok (pattern_of key)"
  shows "entry (snd (Remove key t)) =
    (if last (pattern_of key) = All then entry t else (entry t)(pattern_of key := None))"
proof
  fix q
  show "entry (snd (Remove key t)) q =
    (if last (pattern_of key) = All then entry t else (entry t)(pattern_of key := None)) q"
    using Remove_obs [OF assms, of t q]
    by (cases "obs False (root t) q") (auto simp: entry_obs)
qed

theorem Remove_entry_witness:
  "entry (snd (Remove ''/api/**'' sample_table)) = entry sample_table
   \<and> map_option (\<lambda>(n, vs). GetBizInfo n) (Match ''/api/x/y/z'' (snd (Remove ''/api/**'' sample_table)))
       = Some (Some ''api'')
   \<and> entry (snd (Remove ''/api/users/:id'' sample_table))
       = (entry sample_table)([Lit ''api'', Lit ''users'', Var] := None)"
proof -
  have ok: "pattern_ok (pattern_of ''/api/**'')" "last (pattern_of ''/api/**'') = All"
    "pattern_ok (pattern_of ''/api/users/:id'')"
    "pattern_of ''/api/users/:id'' = [Lit ''api'', Lit ''users'', Var]"
    by code_simp+
  have m: "map_option (\<lambda>(n, vs). GetBizInfo n)
      (Match ''/api/x/y/z'' (snd (Remove ''/api/**'' sample_table))) = Some (Some ''api'')"
    unfolding sample_table_def by code_simp
  from ok m Remove_entry [OF ok(1), of sample_table] Remove_entry [OF ok(3), of sample_table]
  show ?thesis by simp
qed

text \<open>
  Replacement. \<open>PutOrUpdate\<close> of a supported pattern always succeeds and sets the entry of the
  pattern, whether or not there was one, and no other.
\<close>

theorem PutOrUpdate_entry:
  assumes "pattern_ok (pattern_of key)"
  shows "\<exists>t'. PutOrUpdate key (Some b) t = (Inr True, t')
    \<and> entry t' = (entry t)(pattern_of key \<mapsto> b)"
proof -
  let ?t = "snd (Remove key t)"
  obtain r n where put: "internalPut (Split key) b (root ?t) = (r, n)"
    by (cases "internalPut (Split key) b (root ?t)")
  have P: "Put key (Some b) ?t = (Inr r, ?t\<lparr>root := n\<rparr>)" by (simp add: Put_def put)
  from Put_obs [OF assms P] Remove_not_ended [OF assms] have r: "r"
    and o: "\<And>p. obs False n p = (if p = pattern_of key
        then Some (last p \<noteq> All \<or> obs False (root ?t) p = None, Some b) else obs False (root ?t) p)"
    by auto
  have "entry (?t\<lparr>root := n\<rparr>) p = ((entry t)(pattern_of key \<mapsto> b)) p" for p
    using o [of p] Remove_obs [OF assms, of t p] by (auto simp: entry_obs)
  with r put show ?thesis by (auto simp: PutOrUpdate_def)
qed

theorem PutOrUpdate_entry_witness:
  "\<exists>t'. PutOrUpdate ''/api/users/:uid'' (Some ''new'') sample_table = (Inr True, t')
    \<and> entry t' = (entry sample_table)(pattern_of ''/api/users/:uid'' \<mapsto> ''new'')"
  by (rule PutOrUpdate_entry) code_simp



end
