(* ===== verification/Pixiu_Routes.thy ===== *)
theory Pixiu_Routes
  imports Pixiu_Trie
begin

text \<open>
  The routing tables of the gateway: \<open>pkg/model/router.go\<close> (routers, header matchers),
  \<open>pkg/model/router_snapshot.go\<close> (the compiled, read-only snapshot) and the matching half of
  \<open>pkg/common/router/router.go\<close>.

  Regular expressions are those of Go's \<open>regexp\<close>; nothing here depends on their syntax, so
  \<open>regexp.Compile\<close> and \<open>MatchString\<close> are the parameters \<open>compile\<close> and \<open>matchString\<close> of the
  definitions, and \<open>'re\<close> is the type of compiled expressions. A snapshot holds pointers to
  \<open>RouteCandidates\<close> objects: the model keeps the objects in the store \<open>Candidates\<close> of the
  snapshot, under the route identity for which each was allocated. Routers are non-nil.
\<close>

section \<open>Data\<close>

record 're HeaderMatcher =
  hm_Name :: string
  hm_Values :: "string list"
  hm_Regex :: bool
  valueRE :: "'re option"

record RouteAction =
  Cluster :: string
  ClusterNotFoundResponseCode :: int

record 're RouterMatch =
  Prefix :: string
  Path :: string
  Methods :: "string list"
  Headers :: "'re HeaderMatcher list"

record 're Router =
  ID :: string
  router_Match :: "'re RouterMatch"
  router_Route :: RouteAction

record 're CompiledHeader =
  ch_Name :: string
  ch_Regex :: "'re option"
  ch_Values :: "string list"

record 're HeaderRoute =
  hr_Methods :: "string list"
  hr_Headers :: "'re CompiledHeader list"
  hr_Action :: RouteAction

record 're RouteCandidate =
  rc_Headers :: "'re CompiledHeader list"
  rc_Action :: RouteAction

record 're RouteCandidates =
  First :: "'re RouteCandidate"
  Additional :: "'re RouteCandidate list"
  Count :: nat

text \<open>What a trie node may carry as its \<open>any\<close> value.\<close>

datatype bizinfo = CandidatesRef string | ActionInfo RouteAction | OtherInfo

record 're RouteSnapshot =
  MethodTries :: "string \<Rightarrow> bizinfo trie option"
  HeaderOnly :: "'re HeaderRoute list"
  Candidates :: "string \<Rightarrow> 're RouteCandidates option"

record 're RouteConfiguration =
  RouteTrie :: "bizinfo trie"
  Routes :: "'re Router list"
  Dynamic :: bool

text \<open>The parts of \<open>net/http\<close>'s request the router reads.\<close>

record Request =
  Method :: string
  URL_Path :: string
  Header :: "string \<Rightarrow> string list option"

section \<open>Candidate lists\<close>

definition NoCandidates :: "'re RouteCandidates" where
  "NoCandidates = \<lparr>First = \<lparr>rc_Headers = [], rc_Action = \<lparr>Cluster = '''',
     ClusterNotFoundResponseCode = 0\<rparr>\<rparr>, Additional = [], Count = 0\<rparr>"

definition Add :: "'re RouteCandidate \<Rightarrow> 're RouteCandidates \<Rightarrow> 're RouteCandidates" where
  "Add candidate r =
     (if Count r = 0 then r\<lparr>First := candidate, Count := 1\<rparr>
      else r\<lparr>Additional := Additional r @ [candidate], Count := Count r + 1\<rparr>)"

text \<open>The callback threads a state and says whether to go on.\<close>

fun each_while :: "('c \<Rightarrow> 's \<Rightarrow> bool \<times> 's) \<Rightarrow> 'c list \<Rightarrow> 's \<Rightarrow> 's" where
  "each_while fn [] s = s"
| "each_while fn (c # cs) s = (let (go, s) = fn c s in if go then each_while fn cs s else s)"

definition ForEach ::
    "('re RouteCandidate \<Rightarrow> 's \<Rightarrow> bool \<times> 's) \<Rightarrow> 're RouteCandidates \<Rightarrow> 's \<Rightarrow> 's" where
  "ForEach fn r s =
     (if Count r = 0 then s
      else (let (go, s) = fn (First r) s in if go then each_while fn (Additional r) s else s))"

definition MethodAllowed :: "string list \<Rightarrow> string \<Rightarrow> bool" where
  "MethodAllowed methods m \<longleftrightarrow> methods = [] \<or> (\<exists>x \<in> set methods. x = ''*'' \<or> x = m)"

definition constMethods :: "string list" where
  "constMethods = [''GET'', ''POST'', ''PUT'', ''DELETE'', ''PATCH'', ''OPTIONS'', ''HEAD'']"

section \<open>Compiling header matchers\<close>

text \<open>\<open>regexCache\<close> is process-wide state; the functions that use it return it updated.\<close>

type_synonym 're regex_cache = "string \<Rightarrow> 're option"

definition getRegexpWithCache ::
    "(string \<Rightarrow> 're option) \<Rightarrow> string \<Rightarrow> 're regex_cache \<Rightarrow> 're option \<times> 're regex_cache" where
  "getRegexpWithCache compile pat cache =
     (case cache pat of
        Some v \<Rightarrow> (Some v, cache)
      | None \<Rightarrow>
          (case compile pat of
             None \<Rightarrow> (None, cache)
           | Some re \<Rightarrow> (Some re, cache(pat \<mapsto> re))))"

text \<open>
  \<open>compileHeaders\<close> allocates one array for the values of all headers and gives each compiled header
  a slice of it. A header under construction holds its slice as an offset and a length; \<open>view\<close>
  reads it. Slicing past the end of the array is a panic, here \<open>None\<close>.
\<close>

record 're header_ref =
  ref_Name :: string
  ref_Regex :: "'re option"
  ref_Slice :: "nat \<times> nat"

definition view :: "string list \<Rightarrow> 're header_ref \<Rightarrow> 're CompiledHeader" where
  "view vals h = \<lparr>ch_Name = ref_Name h, ch_Regex = ref_Regex h,
     ch_Values = take (snd (ref_Slice h)) (drop (fst (ref_Slice h)) vals)\<rparr>"

definition headerValueCount :: "'re HeaderMatcher list \<Rightarrow> nat" where
  "headerValueCount headers =
     sum_list (map (\<lambda>h. if \<not> hm_Regex h then length (hm_Values h) else 0) headers)"

definition compileRegexHeader ::
    "(string \<Rightarrow> 're option) \<Rightarrow> 're HeaderMatcher \<Rightarrow> 're header_ref \<Rightarrow> 're regex_cache
     \<Rightarrow> 're header_ref option \<times> 're regex_cache" where
  "compileRegexHeader compile h compiled cache =
     (case valueRE h of
        Some re \<Rightarrow> (Some (compiled\<lparr>ref_Regex := Some re\<rparr>), cache)
      | None \<Rightarrow>
          (case hm_Values h of
             [] \<Rightarrow> (Some compiled, cache)
           | v # _ \<Rightarrow>
               if v = '''' then (Some compiled, cache)
               else
                 (let (re, cache) = getRegexpWithCache compile v cache
                  in case re of
                       None \<Rightarrow> (None, cache)
                     | Some r \<Rightarrow> (Some (compiled\<lparr>ref_Regex := Some r\<rparr>), cache))))"

text \<open>
  The outer \<open>None\<close> is the panic, the inner one the result \<open>ok = false\<close>.
\<close>

definition compileHeader ::
    "(string \<Rightarrow> 're option) \<Rightarrow> 're HeaderMatcher \<Rightarrow> nat \<Rightarrow> string list \<Rightarrow> 're regex_cache
     \<Rightarrow> ('re header_ref option \<times> string list) option \<times> 're regex_cache" where
  "compileHeader compile h off vals cache =
     (let compiled = \<lparr>ref_Name = hm_Name h, ref_Regex = None, ref_Slice = (off, 0)\<rparr>;
          n = length (hm_Values h)
      in if hm_Regex h then
           (let (c, cache) = compileRegexHeader compile h compiled cache in (Some (c, vals), cache))
         else if n > 0 then
           (if off + n \<le> length vals
            then (Some (Some (compiled\<lparr>ref_Slice := (off, n)\<rparr>),
                    take off vals @ hm_Values h @ drop (off + n) vals), cache)
            else (None, cache))
         else (Some (Some compiled, vals), cache))"

fun compileHeaders_loop ::
    "(string \<Rightarrow> 're option) \<Rightarrow> 're HeaderMatcher list \<Rightarrow> nat \<Rightarrow> string list \<Rightarrow> 're header_ref list
     \<Rightarrow> 're regex_cache \<Rightarrow> ('re header_ref list \<times> string list) option \<times> 're regex_cache" where
  "compileHeaders_loop compile [] off vals compiled cache = (Some (compiled, vals), cache)"
| "compileHeaders_loop compile (h # hs) off vals compiled cache =
     (case compileHeader compile h off vals cache of
        (None, cache) \<Rightarrow> (None, cache)
      | (Some (None, vals), cache) \<Rightarrow> compileHeaders_loop compile hs off vals compiled cache
      | (Some (Some c, vals), cache) \<Rightarrow>
          compileHeaders_loop compile hs (off + snd (ref_Slice c)) vals (compiled @ [c]) cache)"

definition compileHeaders ::
    "(string \<Rightarrow> 're option) \<Rightarrow> 're HeaderMatcher list \<Rightarrow> 're regex_cache
     \<Rightarrow> 're CompiledHeader list option \<times> 're regex_cache" where
  "compileHeaders compile headers cache =
     (if headers = [] then (Some [], cache)
      else
        (case compileHeaders_loop compile headers 0 (replicate (headerValueCount headers) '''') []
            cache of
           (None, cache) \<Rightarrow> (None, cache)
         | (Some (compiled, vals), cache) \<Rightarrow> (Some (map (view vals) compiled), cache)))"

section \<open>Building the snapshot\<close>

text \<open>The scan of \<open>trieRouteIdentity\<close> over the segments after the first slash.\<close>

function scan_variable :: "string \<Rightarrow> bool" where
  "scan_variable s =
     (let segment = takeWhile (\<lambda>c. c \<noteq> CHR ''/'') s
      in if IsPathVariableOrWildcard segment then True
         else (case dropWhile (\<lambda>c. c \<noteq> CHR ''/'') s of [] \<Rightarrow> False | _ # rest \<Rightarrow> scan_variable rest))"
  by pat_completeness auto
termination
proof (relation "measure length")
  fix s segment :: string and x rest
  assume "dropWhile (\<lambda>c. c \<noteq> CHR ''/'') s = x # rest"
  then have "Suc (length rest) \<le> length s"
    using length_dropWhile_le [of "\<lambda>c. c \<noteq> CHR ''/''" s] by simp
  then show "(rest, s) \<in> measure length" by simp
qed simp

definition normal_segment :: "string \<Rightarrow> string" where
  "normal_segment part = (if IsPathVariableOrWildcard part then ''*'' else part)"

definition trieRouteIdentity :: "string \<Rightarrow> string" where
  "trieRouteIdentity key =
     (case dropWhile (\<lambda>c. c \<noteq> CHR ''/'') key of
        [] \<Rightarrow> key
      | _ # rest \<Rightarrow>
          if \<not> scan_variable rest then key
          else
            (case split_char (CHR ''/'') key of
               [] \<Rightarrow> key
             | m # parts \<Rightarrow> join_char (CHR ''/'') (m # map normal_segment parts)))"

definition header_only :: "'re Router \<Rightarrow> bool" where
  "header_only r \<longleftrightarrow> Path (router_Match r) = '''' \<and> Prefix (router_Match r) = ''''
     \<and> Headers (router_Match r) \<noteq> []"

definition route_methods :: "'re Router \<Rightarrow> string list" where
  "route_methods r =
     (if Methods (router_Match r) = [] then constMethods else Methods (router_Match r))"

definition route_key :: "string \<Rightarrow> 're Router \<Rightarrow> string" where
  "route_key m r = GetTrieKeyWithPrefix m (Path (router_Match r)) (Prefix (router_Match r))
     (Prefix (router_Match r) \<noteq> '''')"

definition getTrie :: "string \<Rightarrow> 're RouteSnapshot \<Rightarrow> bizinfo trie" where
  "getTrie m s = (case MethodTries s m of Some t \<Rightarrow> t | None \<Rightarrow> NewTrie)"

definition deref :: "'re RouteSnapshot \<Rightarrow> string \<Rightarrow> 're RouteCandidates" where
  "deref s identity = (case Candidates s identity of Some c \<Rightarrow> c | None \<Rightarrow> NoCandidates)"

text \<open>One method of one route: the body of the inner loop of \<open>ToSnapshot\<close>.\<close>

definition addCandidate ::
    "string \<Rightarrow> string \<Rightarrow> 're RouteCandidate \<Rightarrow> 're RouteSnapshot \<Rightarrow> 're RouteSnapshot" where
  "addCandidate m key candidate s =
     (let t = getTrie m s;
          identity = trieRouteIdentity key;
          candidates = deref s identity;
          t = snd (Put key (Some (CandidatesRef identity)) t)
      in s\<lparr>MethodTries := (MethodTries s)(m \<mapsto> t),
           Candidates := (Candidates s)(identity \<mapsto> Add candidate candidates)\<rparr>)"

fun addMethods ::
    "'re Router \<Rightarrow> 're RouteCandidate \<Rightarrow> string list \<Rightarrow> 're RouteSnapshot \<Rightarrow> 're RouteSnapshot" where
  "addMethods r candidate [] s = s"
| "addMethods r candidate (m # ms) s =
     addMethods r candidate ms (addCandidate m (route_key m r) candidate s)"

fun ToSnapshot_loop ::
    "(string \<Rightarrow> 're option) \<Rightarrow> 're Router list \<Rightarrow> 're RouteSnapshot \<Rightarrow> 're regex_cache
     \<Rightarrow> 're RouteSnapshot option \<times> 're regex_cache" where
  "ToSnapshot_loop compile [] s cache = (Some s, cache)"
| "ToSnapshot_loop compile (r # rs) s cache =
     (case compileHeaders compile (Headers (router_Match r)) cache of
        (None, cache) \<Rightarrow> (None, cache)
      | (Some headers, cache) \<Rightarrow>
          if header_only r then
            ToSnapshot_loop compile rs
              (s\<lparr>HeaderOnly := HeaderOnly s @ [\<lparr>hr_Methods = Methods (router_Match r),
                   hr_Headers = headers, hr_Action = router_Route r\<rparr>]\<rparr>) cache
          else
            ToSnapshot_loop compile rs
              (addMethods r \<lparr>rc_Headers = headers, rc_Action = router_Route r\<rparr> (route_methods r) s)
              cache)"

definition EmptySnapshot :: "'re RouteSnapshot" where
  "EmptySnapshot = \<lparr>MethodTries = Map.empty, HeaderOnly = [], Candidates = Map.empty\<rparr>"

definition ToSnapshot ::
    "(string \<Rightarrow> 're option) \<Rightarrow> 're Router list \<Rightarrow> 're regex_cache
     \<Rightarrow> 're RouteSnapshot option \<times> 're regex_cache" where
  "ToSnapshot compile routes cache = ToSnapshot_loop compile routes EmptySnapshot cache"

section \<open>Matching a request\<close>

text \<open>
  \<open>http.Header.Get\<close>: the first value under the canonical form of the name, or the empty string.
  A name with a byte that is not allowed in a header name is its own canonical form.
\<close>

definition valid_header_byte :: "char \<Rightarrow> bool" where
  "valid_header_byte c \<longleftrightarrow> is_alpha c \<or> is_digit c \<or> c \<in> set ''!#$%&*+-.^_|~'' \<or> c = CHR 0x27
     \<or> c = CHR 0x60"

definition to_upper :: "char \<Rightarrow> char" where
  "to_upper c = (let n = of_char c :: nat in if 97 \<le> n \<and> n \<le> 122 then char_of (n - 32) else c)"

definition to_lower :: "char \<Rightarrow> char" where
  "to_lower c = (let n = of_char c :: nat in if 65 \<le> n \<and> n \<le> 90 then char_of (n + 32) else c)"

fun canonical_from :: "bool \<Rightarrow> string \<Rightarrow> string" where
  "canonical_from upper [] = []"
| "canonical_from upper (c # cs) =
     (if upper then to_upper c else to_lower c) # canonical_from (c = CHR ''-'') cs"

definition CanonicalMIMEHeaderKey :: "string \<Rightarrow> string" where
  "CanonicalMIMEHeaderKey s = (if list_all valid_header_byte s then canonical_from True s else s)"

definition Header_Get :: "Request \<Rightarrow> string \<Rightarrow> string" where
  "Header_Get req name =
     (case Header req (CanonicalMIMEHeaderKey name) of Some (v # vs) \<Rightarrow> v | _ \<Rightarrow> '''')"

fun matchHeaders ::
    "('re \<Rightarrow> string \<Rightarrow> bool) \<Rightarrow> 're CompiledHeader list \<Rightarrow> Request \<Rightarrow> bool" where
  "matchHeaders matchString [] r = True"
| "matchHeaders matchString (ch # chs) r =
     (let val = Header_Get r (ch_Name ch)
      in if val \<noteq> '''' then
           (case ch_Regex ch of
              Some re \<Rightarrow> if \<not> matchString re val then False else matchHeaders matchString chs r
            | None \<Rightarrow>
                if val \<notin> set (ch_Values ch) then False else matchHeaders matchString chs r)
         else False)"

definition firstMatchingCandidate ::
    "('re \<Rightarrow> string \<Rightarrow> bool) \<Rightarrow> 're RouteCandidates \<Rightarrow> Request option \<Rightarrow> 're RouteCandidate option" where
  "firstMatchingCandidate matchString candidates req =
     ForEach (\<lambda>candidate matched.
         if (case req of None \<Rightarrow> True | Some r \<Rightarrow> matchHeaders matchString (rc_Headers candidate) r)
         then (False, Some candidate) else (True, matched))
       candidates None"

text \<open>
  The result \<open>(nil, nil)\<close> is \<open>Inr None\<close>. The type assertion of the predicate fails on a nil value.
\<close>

definition route_failed :: "string \<Rightarrow> string \<Rightarrow> string" where
  "route_failed key what = ''route failed for '' @ key @ what"

definition matchInTrie ::
    "('re \<Rightarrow> string \<Rightarrow> bool) \<Rightarrow> 're RouteSnapshot \<Rightarrow> bizinfo trie option \<Rightarrow> string \<Rightarrow> Request option
     \<Rightarrow> string + RouteAction option" where
  "matchInTrie matchString s t key req =
     (case t of
        None \<Rightarrow> Inr None
      | Some t \<Rightarrow>
          (let predicate = (\<lambda>node. case GetBizInfo node of
                 Some (CandidatesRef i) \<Rightarrow>
                   firstMatchingCandidate matchString (deref s i) req \<noteq> None
               | _ \<Rightarrow> True)
           in case (case req of None \<Rightarrow> Match key t
                    | Some _ \<Rightarrow> MatchWithPredicate key (Some predicate) t) of
                None \<Rightarrow> Inr None
              | Some (node, _) \<Rightarrow>
                  (case GetBizInfo node of
                     None \<Rightarrow> Inr None
                   | Some (CandidatesRef i) \<Rightarrow>
                       Inr (map_option rc_Action (firstMatchingCandidate matchString (deref s i) req))
                   | Some (ActionInfo act) \<Rightarrow> Inr (Some act)
                   | Some OtherInfo \<Rightarrow> Inl (route_failed key '', invalid route action type''))))"

text \<open>The tries tried for one key: the method's, then the one for any method.\<close>

definition match_tries ::
    "('re \<Rightarrow> string \<Rightarrow> bool) \<Rightarrow> 're RouteSnapshot \<Rightarrow> string \<Rightarrow> string \<Rightarrow> Request option
     \<Rightarrow> string + RouteAction" where
  "match_tries matchString s method key req =
     (case matchInTrie matchString s (MethodTries s method) key req of
        Inl e \<Rightarrow> Inl e
      | Inr (Some act) \<Rightarrow> Inr act
      | Inr None \<Rightarrow>
          (case (if method \<noteq> ''*''
                 then matchInTrie matchString s (MethodTries s ''*'') key req else Inr None) of
             Inl e \<Rightarrow> Inl e
           | Inr (Some act) \<Rightarrow> Inr act
           | Inr None \<Rightarrow> Inl (route_failed key '', no rules matched'')))"

definition err_router_empty :: string where
  "err_router_empty = ''router configuration is empty''"

definition err_action_nil :: string where
  "err_action_nil = ''action is nil. please check your configuration.''"

text \<open>\<open>route\<close> and \<open>RouteByPathAndName\<close> on the loaded snapshot pointer, nil before the first build.\<close>

definition RouteByPathAndName ::
    "('re \<Rightarrow> string \<Rightarrow> bool) \<Rightarrow> 're RouteSnapshot option \<Rightarrow> string \<Rightarrow> string \<Rightarrow> string + RouteAction" where
  "RouteByPathAndName matchString snap path method =
     (case snap of
        None \<Rightarrow> Inl err_router_empty
      | Some s \<Rightarrow> match_tries matchString s method (GetTrieKey method path) None)"

fun route_headers ::
    "('re \<Rightarrow> string \<Rightarrow> bool) \<Rightarrow> 're HeaderRoute list \<Rightarrow> Request \<Rightarrow> (string + RouteAction) option" where
  "route_headers matchString [] req = None"
| "route_headers matchString (hr # hrs) req =
     (if MethodAllowed (hr_Methods hr) (Method req) \<and> matchHeaders matchString (hr_Headers hr) req
      then Some (if Cluster (hr_Action hr) = '''' then Inl err_action_nil else Inr (hr_Action hr))
      else route_headers matchString hrs req)"

definition route ::
    "('re \<Rightarrow> string \<Rightarrow> bool) \<Rightarrow> 're RouteSnapshot option \<Rightarrow> Request \<Rightarrow> string + RouteAction" where
  "route matchString snap req =
     (case snap of
        None \<Rightarrow> Inl err_router_empty
      | Some s \<Rightarrow>
          (case route_headers matchString (HeaderOnly s) req of
             Some r \<Rightarrow> r
           | None \<Rightarrow>
               match_tries matchString s (Method req) (GetTrieKey (Method req) (URL_Path req))
                 (Some req)))"

section \<open>The configuration's own trie\<close>

definition SetValueRegex ::
    "(string \<Rightarrow> 're option) \<Rightarrow> string \<Rightarrow> 're HeaderMatcher \<Rightarrow> bool \<times> 're HeaderMatcher" where
  "SetValueRegex compile regex hm =
     (case compile regex of
        Some r \<Rightarrow> (True, hm\<lparr>valueRE := Some r\<rparr>)
      | None \<Rightarrow> (False, hm\<lparr>hm_Regex := False\<rparr>))"

text \<open>\<open>initRegex\<close> writes through the router pointers: the routers come back updated.\<close>

definition initHeader :: "(string \<Rightarrow> 're option) \<Rightarrow> 're HeaderMatcher \<Rightarrow> 're HeaderMatcher" where
  "initHeader compile h =
     (case hm_Values h of
        v # _ \<Rightarrow> if hm_Regex h then snd (SetValueRegex compile v h) else h
      | [] \<Rightarrow> h)"

definition initRouter :: "(string \<Rightarrow> 're option) \<Rightarrow> 're Router \<Rightarrow> 're Router" where
  "initRouter compile r = r\<lparr>router_Match := (router_Match r)\<lparr>Headers :=
     map (initHeader compile) (Headers (router_Match r))\<rparr>\<rparr>"

definition initRegex ::
    "(string \<Rightarrow> 're option) \<Rightarrow> 're RouteConfiguration \<Rightarrow> 're RouteConfiguration" where
  "initRegex compile cfg = cfg\<lparr>Routes := map (initRouter compile) (Routes cfg)\<rparr>"

fun putMethods :: "'re Router \<Rightarrow> string list \<Rightarrow> bizinfo trie \<Rightarrow> bizinfo trie" where
  "putMethods r [] t = t"
| "putMethods r (m # ms) t =
     putMethods r ms (snd (Put (route_key m r) (Some (ActionInfo (router_Route r))) t))"

fun fillTrie :: "'re Router list \<Rightarrow> bizinfo trie \<Rightarrow> bizinfo trie" where
  "fillTrie [] t = t"
| "fillTrie (r # rs) t = fillTrie rs (putMethods r (route_methods r) t)"

definition fillTrieFromRoutes :: "'re RouteConfiguration \<Rightarrow> 're RouteConfiguration" where
  "fillTrieFromRoutes cfg = cfg\<lparr>RouteTrie := fillTrie (Routes cfg) (RouteTrie cfg)\<rparr>"

definition buildRouteConfiguration ::
    "(string \<Rightarrow> 're option) \<Rightarrow> 're Router list \<Rightarrow> 're RouteConfiguration" where
  "buildRouteConfiguration compile routes =
     (let cfg = \<lparr>RouteTrie = NewTrie, Routes = routes, Dynamic = False\<rparr>
      in fillTrieFromRoutes (initRegex compile cfg))"

text \<open>
  The type assertion to \<open>RouteAction\<close> panics on another type; such a result is \<open>None\<close>.
\<close>

definition RouteByPathAndMethod ::
    "'re RouteConfiguration \<Rightarrow> string \<Rightarrow> string \<Rightarrow> (string + RouteAction) option" where
  "RouteByPathAndMethod rc path method =
     (if IsEmpty (RouteTrie rc) then Some (Inl err_router_empty)
      else
        (case Match (GetTrieKey method path) (RouteTrie rc) of
           None \<Rightarrow> Some (Inl (route_failed (GetTrieKey method path) '', no rules matched.''))
         | Some (node, _) \<Rightarrow>
             (case GetBizInfo node of
                None \<Rightarrow> Some (Inl err_action_nil)
              | Some (ActionInfo act) \<Rightarrow> Some (Inr act)
              | Some _ \<Rightarrow> None)))"

definition config_Route :: "'re RouteConfiguration \<Rightarrow> Request \<Rightarrow> (string + RouteAction) option" where
  "config_Route rc req = RouteByPathAndMethod rc (URL_Path req) (Method req)"

definition NewRouterMatchPrefix :: "string \<Rightarrow> 're RouterMatch" where
  "NewRouterMatchPrefix name =
     \<lparr>Prefix = ''/'' @ name @ ''/'', Path = '''', Methods = [], Headers = []\<rparr>"

definition MatchValues :: "('re \<Rightarrow> string \<Rightarrow> bool) \<Rightarrow> 're HeaderMatcher \<Rightarrow> string \<Rightarrow> bool" where
  "MatchValues matchString hm dst =
     (case valueRE hm of
        Some re \<Rightarrow> if hm_Regex hm then matchString re dst else dst \<in> set (hm_Values hm)
      | None \<Rightarrow> dst \<in> set (hm_Values hm))"

definition MatchHeader :: "('re \<Rightarrow> string \<Rightarrow> bool) \<Rightarrow> 're RouterMatch \<Rightarrow> Request \<Rightarrow> bool" where
  "MatchHeader matchString rm req =
     (if Methods rm \<noteq> [] \<and> Method req \<notin> set (Methods rm) then False
      else (\<exists>h \<in> set (Headers rm). Header_Get req (hm_Name h) \<noteq> ''''
              \<and> MatchValues matchString h (Header_Get req (hm_Name h))))"

definition join_with :: "string \<Rightarrow> string list \<Rightarrow> string" where
  "join_with sep xs = (case xs of [] \<Rightarrow> '''' | y # ys \<Rightarrow> y @ concat (map ((@) sep) ys))"

definition Router_String :: "'re Router \<Rightarrow> string" where
  "Router_String r =
     ''['' @ join_with '','' (Methods (router_Match r)) @ ''] ''
     @ (if header_only r then
          ''headers '' @ concat (map (\<lambda>h. hm_Name h @ ''='' @ join_with ''|'' (hm_Values h))
            (Headers (router_Match r)))
        else if Prefix (router_Match r) \<noteq> '''' then ''prefix '' @ Prefix (router_Match r)
        else ''path '' @ Path (router_Match r))
     @ '' to cluster '' @ Cluster (router_Route r)"

section \<open>Lemmas\<close>

declare scan_variable.simps [simp del]

subsection \<open>Candidate lists as lists\<close>

definition candidate_list :: "'re RouteCandidates \<Rightarrow> 're RouteCandidate list" where
  "candidate_list r = (if Count r = 0 then [] else First r # Additional r)"

definition candidates_ok :: "'re RouteCandidates \<Rightarrow> bool" where
  "candidates_ok r \<longleftrightarrow> Count r = length (candidate_list r) \<and> (Count r = 0 \<longrightarrow> Additional r = [])"

lemma candidate_list_None [simp]: "candidate_list NoCandidates = []" "candidates_ok NoCandidates"
  by (simp_all add: candidate_list_def candidates_ok_def NoCandidates_def)

lemma candidate_list_Add:
  assumes "candidates_ok r"
  shows "candidate_list (Add c r) = candidate_list r @ [c]" and "candidates_ok (Add c r)"
  using assms by (auto simp: candidate_list_def candidates_ok_def Add_def)

lemma each_while_find:
  "each_while (\<lambda>c m. if P c then (False, Some c) else (True, m)) cs None = find P cs"
  by (induction cs) auto

lemma firstMatchingCandidate_find:
  "firstMatchingCandidate matchString r req =
     find (\<lambda>c. case req of None \<Rightarrow> True | Some q \<Rightarrow> matchHeaders matchString (rc_Headers c) q)
       (candidate_list r)"
  by (simp add: firstMatchingCandidate_def ForEach_def candidate_list_def each_while_find)

subsection \<open>Compiled headers\<close>

text \<open>
  The reference for \<open>compileHeaders\<close>: a header on its own, its values copied, an expression that
  does not compile dropped.
\<close>

definition compiled_of ::
    "(string \<Rightarrow> 're option) \<Rightarrow> 're HeaderMatcher \<Rightarrow> 're CompiledHeader option" where
  "compiled_of compile h =
     (if hm_Regex h then
        (case valueRE h of
           Some re \<Rightarrow> Some \<lparr>ch_Name = hm_Name h, ch_Regex = Some re, ch_Values = []\<rparr>
         | None \<Rightarrow>
             (case hm_Values h of
                [] \<Rightarrow> Some \<lparr>ch_Name = hm_Name h, ch_Regex = None, ch_Values = []\<rparr>
              | v # _ \<Rightarrow>
                  if v = '''' then Some \<lparr>ch_Name = hm_Name h, ch_Regex = None, ch_Values = []\<rparr>
                  else map_option (\<lambda>re. \<lparr>ch_Name = hm_Name h, ch_Regex = Some re, ch_Values = []\<rparr>)
                         (compile v)))
      else Some \<lparr>ch_Name = hm_Name h, ch_Regex = None, ch_Values = hm_Values h\<rparr>)"

definition compiled_headers ::
    "(string \<Rightarrow> 're option) \<Rightarrow> 're HeaderMatcher list \<Rightarrow> 're CompiledHeader list" where
  "compiled_headers compile hs = somes (map (compiled_of compile) hs)"

text \<open>The cache holds only what \<open>regexp.Compile\<close> would return.\<close>

definition cache_ok :: "(string \<Rightarrow> 're option) \<Rightarrow> 're regex_cache \<Rightarrow> bool" where
  "cache_ok compile cache \<longleftrightarrow> (\<forall>pat re. cache pat = Some re \<longrightarrow> compile pat = Some re)"

lemma cache_ok_empty [simp]: "cache_ok compile Map.empty"
  by (simp add: cache_ok_def)

lemma getRegexpWithCache_ok:
  assumes "cache_ok compile cache"
  shows "\<exists>cache'. getRegexpWithCache compile pat cache = (compile pat, cache')
    \<and> cache_ok compile cache'"
  using assms by (auto simp: getRegexpWithCache_def cache_ok_def split: option.splits)

lemma headerValueCount_simps [simp]:
  "headerValueCount [] = 0"
  "headerValueCount (h # hs) =
     (if hm_Regex h then 0 else length (hm_Values h)) + headerValueCount hs"
  by (simp_all add: headerValueCount_def)

text \<open>A view that lies below the offset is not affected by later writes.\<close>

definition below :: "nat \<Rightarrow> 're header_ref \<Rightarrow> bool" where
  "below off h \<longleftrightarrow> fst (ref_Slice h) + snd (ref_Slice h) \<le> off"

lemma view_take:
  assumes "below off h" and "take off vals = take off vals'"
  shows "view vals h = view vals' h"
proof -
  obtain i n where s: "ref_Slice h = (i, n)" by (cases "ref_Slice h")
  with assms(1) have le: "i + n \<le> off" by (simp add: below_def)
  have "take n (drop i xs) = take n (drop i (take off xs))" for xs :: "string list"
    using le by (simp add: drop_take min_def)
  with assms(2) s show ?thesis by (simp add: view_def) (metis)
qed

lemma compileHeader_ok:
  assumes "cache_ok compile cache"
    and "off + (if hm_Regex h then 0 else length (hm_Values h)) \<le> length vals"
  shows "\<exists>c vals' cache'. compileHeader compile h off vals cache = (Some (c, vals'), cache')
    \<and> cache_ok compile cache' \<and> length vals' = length vals
    \<and> take off vals' = take off vals \<and> compiled_of compile h = map_option (view vals') c
    \<and> (\<forall>r. c = Some r \<longrightarrow> below (off + snd (ref_Slice r)) r
          \<and> snd (ref_Slice r) = (if hm_Regex h then 0 else length (hm_Values h)))"
proof (cases "hm_Regex h")
  case True
  show ?thesis
  proof (cases "valueRE h = None \<and> hm_Values h \<noteq> [] \<and> hd (hm_Values h) \<noteq> ''''")
    case re: True
    then obtain v vs where v: "hm_Values h = v # vs" "v \<noteq> ''''" by (cases "hm_Values h") auto
    obtain cache' where "getRegexpWithCache compile v cache = (compile v, cache')"
      "cache_ok compile cache'"
      using getRegexpWithCache_ok [OF assms(1)] by blast
    with True re v show ?thesis
      by (cases "compile v")
        (auto simp: compileHeader_def compileRegexHeader_def compiled_of_def view_def below_def)
  next
    case False
    with True assms(1) show ?thesis
      by (cases "valueRE h"; cases "hm_Values h")
        (auto simp: compileHeader_def compileRegexHeader_def compiled_of_def view_def below_def)
  qed
next
  case False
  with assms show ?thesis
    by (auto simp: compileHeader_def Let_def compiled_of_def view_def below_def)
qed

lemma compileHeaders_loop_ok:
  assumes "cache_ok compile cache" and "off + headerValueCount hs \<le> length vals"
    and "\<forall>r \<in> set refs. below off r"
  shows "\<exists>refs' vals' cache'.
    compileHeaders_loop compile hs off vals refs cache = (Some (refs', vals'), cache')
    \<and> cache_ok compile cache'
    \<and> map (view vals') refs' = map (view vals) refs @ compiled_headers compile hs"
  using assms
proof (induction hs arbitrary: off vals refs cache)
  case Nil
  then show ?case by (simp add: compiled_headers_def)
next
  case (Cons h hs)
  have room: "off + (if hm_Regex h then 0 else length (hm_Values h)) \<le> length vals"
    using Cons.prems(2) by auto
  obtain c vals1 cache1 where
    step: "compileHeader compile h off vals cache = (Some (c, vals1), cache1)"
    and ok: "cache_ok compile cache1" and len: "length vals1 = length vals"
    and same: "take off vals1 = take off vals"
    and res: "compiled_of compile h = map_option (view vals1) c"
    and new: "\<forall>r. c = Some r \<longrightarrow> below (off + snd (ref_Slice r)) r
      \<and> snd (ref_Slice r) = (if hm_Regex h then 0 else length (hm_Values h))"
    using compileHeader_ok [OF Cons.prems(1) room] by blast
  have old: "map (view vals1) refs = map (view vals) refs"
    using Cons.prems(3) same by (auto intro: view_take)
  show ?case
  proof (cases c)
    case None
    with Cons.IH [OF ok, of off vals1 refs] Cons.prems(2,3) len step old res show ?thesis
      by (auto simp: compiled_headers_def)
  next
    case (Some r)
    have fits: "off + snd (ref_Slice r) + headerValueCount hs \<le> length vals1"
      using Cons.prems(2) new Some len by auto
    have "\<forall>q \<in> set (refs @ [r]). below (off + snd (ref_Slice r)) q"
      using Cons.prems(3) new Some by (auto simp: below_def)
    from Cons.IH [OF ok fits this] Some step old res show ?thesis
      by (auto simp: compiled_headers_def)
  qed
qed

lemma compileHeaders_ok:
  assumes "cache_ok compile cache"
  shows "\<exists>cache'. compileHeaders compile hs cache = (Some (compiled_headers compile hs), cache')
    \<and> cache_ok compile cache'"
proof (cases "hs = []")
  case True
  with assms show ?thesis by (simp add: compileHeaders_def compiled_headers_def)
next
  case False
  with compileHeaders_loop_ok [OF assms, of 0 hs "replicate (headerValueCount hs) ''''" "[]"]
  show ?thesis by (auto simp: compileHeaders_def)
qed

subsection \<open>Route identities and patterns\<close>

lemma split_char_takeWhile:
  "split_char c s =
     takeWhile (\<lambda>x. x \<noteq> c) s # (case dropWhile (\<lambda>x. x \<noteq> c) s of [] \<Rightarrow> [] | _ # r \<Rightarrow> split_char c r)"
  by (induction s) auto

lemma scan_variable_iff:
  "scan_variable s \<longleftrightarrow> (\<exists>p \<in> set (split_char (CHR ''/'') s). IsPathVariableOrWildcard p)"
proof (induction s rule: scan_variable.induct)
  case (1 s)
  let ?seg = "takeWhile (\<lambda>c. c \<noteq> CHR ''/'') s"
  show ?case
  proof (cases "dropWhile (\<lambda>c. c \<noteq> CHR ''/'') s")
    case Nil
    have "split_char (CHR ''/'') s = [?seg]"
      unfolding split_char_takeWhile [of _ s] Nil by simp
    then show ?thesis unfolding scan_variable.simps [of s] Nil by simp
  next
    case (Cons x rest)
    then have "split_char (CHR ''/'') s = ?seg # split_char (CHR ''/'') rest"
      unfolding split_char_takeWhile [of _ s] by simp
    with Cons 1 [OF refl _ Cons] show ?thesis unfolding scan_variable.simps [of s] by simp
  qed
qed

lemma trieRouteIdentity_join:
  "trieRouteIdentity key =
     join_char (CHR ''/'') (hd (split_char (CHR ''/'') key)
       # map normal_segment (tl (split_char (CHR ''/'') key)))"
proof (cases "dropWhile (\<lambda>c. c \<noteq> CHR ''/'') key")
  case Nil
  then have "split_char (CHR ''/'') key = [key]"
    by (auto intro: split_char_free simp: dropWhile_eq_Nil_conv)
  then show ?thesis by (simp add: trieRouteIdentity_def Nil)
next
  case (Cons x rest)
  define m where "m = takeWhile (\<lambda>c. c \<noteq> CHR ''/'') key"
  have split: "split_char (CHR ''/'') key = m # split_char (CHR ''/'') rest"
    unfolding m_def by (subst split_char_takeWhile) (simp add: Cons del: split_char.simps)
  show ?thesis
  proof (cases "scan_variable rest")
    case True
    with Cons split show ?thesis by (simp add: trieRouteIdentity_def)
  next
    case False
    then have "map normal_segment (split_char (CHR ''/'') rest) = split_char (CHR ''/'') rest"
      by (auto simp: scan_variable_iff normal_segment_def intro: map_idI)
    with Cons split False join_split_char [of "CHR ''/''" key] show ?thesis
      by (simp add: trieRouteIdentity_def)
  qed
qed

lemma normal_segment_eq: "normal_segment p = normal_segment q \<longleftrightarrow> seg_of p = seg_of q"
  by (auto simp: normal_segment_def seg_of_def IsPathVariableOrWildcard_def IsWildcard_def
      IsMatchAll_def)

lemma map_normal_segment_eq:
  "map normal_segment ps = map normal_segment qs \<longleftrightarrow> map seg_of ps = map seg_of qs"
  by (induction ps arbitrary: qs) (auto simp: normal_segment_eq Cons_eq_map_conv map_eq_Cons_conv)

lemma normal_segment_slash: "CHR ''/'' \<in> set (normal_segment p) \<Longrightarrow> CHR ''/'' \<in> set p"
  by (simp add: normal_segment_def split: if_splits)

lemma split_char_parts: "p \<in> set (split_char c s) \<Longrightarrow> c \<notin> set p"
  using split_char_no_sep by fastforce

lemma identity_pattern:
  assumes m: "method_ok m" and n: "method_ok n"
    and k: "Split k = split_char (CHR ''/'') k" "hd (Split k) = m"
    and l: "Split l = split_char (CHR ''/'') l" "hd (Split l) = n"
  shows "trieRouteIdentity k = trieRouteIdentity l \<longleftrightarrow> m = n \<and> pattern_of k = pattern_of l"
proof -
  obtain ps qs where ps: "split_char (CHR ''/'') k = m # ps" and qs: "split_char (CHR ''/'') l = n # qs"
    using k l by (metis Split_not_Nil list.exhaust_sel)
  have free: "\<forall>p \<in> set (m # map normal_segment ps). CHR ''/'' \<notin> set p"
    "\<forall>p \<in> set (n # map normal_segment qs). CHR ''/'' \<notin> set p"
    using m n split_char_parts [of _ "CHR ''/''" k] split_char_parts [of _ "CHR ''/''" l]
    by (auto simp: ps qs method_ok_def dest: normal_segment_slash)
  have "trieRouteIdentity k = trieRouteIdentity l \<longleftrightarrow>
      m # map normal_segment ps = n # map normal_segment qs"
    unfolding trieRouteIdentity_join ps qs list.sel
    by (rule iffI, erule join_char_inj [OF list.discI list.discI free, OF refl refl])
      (simp only:)
  then show ?thesis
    by (simp add: map_normal_segment_eq pattern_of_def k l ps qs) blast
qed

subsection \<open>What the snapshot holds\<close>

text \<open>
  The candidates in the order \<open>ToSnapshot\<close> adds them: for each route that is not header-only, for
  each of its methods, the method, the trie key and the candidate.
\<close>

definition candidate_of :: "(string \<Rightarrow> 're option) \<Rightarrow> 're Router \<Rightarrow> 're RouteCandidate" where
  "candidate_of compile r = \<lparr>rc_Headers = compiled_headers compile (Headers (router_Match r)),
     rc_Action = router_Route r\<rparr>"

definition route_adds ::
    "(string \<Rightarrow> 're option) \<Rightarrow> 're Router list \<Rightarrow> (string \<times> string \<times> 're RouteCandidate) list" where
  "route_adds compile routes = concat (map (\<lambda>r. if header_only r then []
     else map (\<lambda>m. (m, route_key m r, candidate_of compile r)) (route_methods r)) routes)"

definition header_route :: "(string \<Rightarrow> 're option) \<Rightarrow> 're Router \<Rightarrow> 're HeaderRoute" where
  "header_route compile r = \<lparr>hr_Methods = Methods (router_Match r),
     hr_Headers = compiled_headers compile (Headers (router_Match r)), hr_Action = router_Route r\<rparr>"

definition add_all ::
    "(string \<times> string \<times> 're RouteCandidate) list \<Rightarrow> 're RouteSnapshot \<Rightarrow> 're RouteSnapshot" where
  "add_all adds s = fold (\<lambda>(m, key, c). addCandidate m key c) adds s"

lemma addMethods_add_all:
  "addMethods r c ms s = add_all (map (\<lambda>m. (m, route_key m r, c)) ms) s"
  by (induction ms arbitrary: s) (simp_all add: add_all_def)

lemma addCandidate_header: "addCandidate m k c (s\<lparr>HeaderOnly := h\<rparr>) = (addCandidate m k c s)\<lparr>HeaderOnly := h\<rparr>"
  "HeaderOnly (addCandidate m k c s) = HeaderOnly s"
  by (simp_all add: addCandidate_def Let_def getTrie_def deref_def)

lemma add_all_header: "add_all adds (s\<lparr>HeaderOnly := h\<rparr>) = (add_all adds s)\<lparr>HeaderOnly := h\<rparr>"
  "HeaderOnly (add_all adds s) = HeaderOnly s"
  by (induction adds arbitrary: s)
    (auto simp: add_all_def addCandidate_header)

lemma ToSnapshot_loop_ok:
  assumes "cache_ok compile cache"
  shows "\<exists>cache'. ToSnapshot_loop compile routes s cache =
      (Some ((add_all (route_adds compile routes) s)\<lparr>HeaderOnly :=
          HeaderOnly s @ map (header_route compile) (filter header_only routes)\<rparr>), cache')
    \<and> cache_ok compile cache'"
  using assms
proof (induction routes arbitrary: s cache)
  case Nil
  then show ?case by (simp add: route_adds_def add_all_def)
next
  case (Cons r rs)
  obtain cache1 where c: "compileHeaders compile (Headers (router_Match r)) cache =
      (Some (compiled_headers compile (Headers (router_Match r))), cache1)"
    and ok: "cache_ok compile cache1"
    using compileHeaders_ok [OF Cons.prems] by blast
  show ?case
  proof (cases "header_only r")
    case True
    obtain cache2 where "ToSnapshot_loop compile rs (s\<lparr>HeaderOnly := HeaderOnly s @ [header_route compile r]\<rparr>) cache1 =
        (Some ((add_all (route_adds compile rs) s)\<lparr>HeaderOnly :=
          HeaderOnly s @ header_route compile r # map (header_route compile) (filter header_only rs)\<rparr>), cache2)"
      "cache_ok compile cache2"
      using Cons.IH [OF ok, of "s\<lparr>HeaderOnly := HeaderOnly s @ [header_route compile r]\<rparr>"]
      by (auto simp: add_all_header)
    with c True show ?thesis by (simp add: route_adds_def header_route_def [of compile r])
  next
    case False
    let ?s = "addMethods r (candidate_of compile r) (route_methods r) s"
    have "add_all (route_adds compile (r # rs)) s = add_all (route_adds compile rs) ?s"
      using False by (simp add: route_adds_def addMethods_add_all add_all_def)
    moreover have "HeaderOnly ?s = HeaderOnly s" by (simp add: addMethods_add_all add_all_header)
    ultimately show ?thesis
      using c False Cons.IH [OF ok, of ?s] by (simp add: candidate_of_def)
  qed
qed

lemma ToSnapshot_ok:
  assumes "cache_ok compile cache"
  shows "\<exists>s cache'. ToSnapshot compile routes cache = (Some s, cache') \<and> cache_ok compile cache'
    \<and> HeaderOnly s = map (header_route compile) (filter header_only routes)
    \<and> MethodTries s = MethodTries (add_all (route_adds compile routes) EmptySnapshot)
    \<and> Candidates s = Candidates (add_all (route_adds compile routes) EmptySnapshot)"
  using ToSnapshot_loop_ok [OF assms, of routes EmptySnapshot]
  by (auto simp: ToSnapshot_def EmptySnapshot_def)

lemma put_all_append: "put_all (xs @ ys) t = put_all ys (put_all xs t)"
  by (induction xs arbitrary: t) auto

lemma add_all_trie:
  "getTrie m (add_all adds s) =
     put_all (map (\<lambda>(n, k, c). (k, CandidatesRef (trieRouteIdentity k)))
       (filter (\<lambda>(n, k, c). n = m) adds)) (getTrie m s)"
proof (induction adds arbitrary: s)
  case Nil
  then show ?case by (simp add: add_all_def)
next
  case (Cons a adds)
  obtain n k c where a: "a = (n, k, c)" by (cases a)
  have "add_all (a # adds) s = add_all adds (addCandidate n k c s)"
    by (simp add: add_all_def a)
  with Cons.IH show ?case
    by (simp add: a) (simp add: addCandidate_def getTrie_def Let_def)
qed

definition store_ok :: "'re RouteSnapshot \<Rightarrow> bool" where
  "store_ok s \<longleftrightarrow> (\<forall>i. candidates_ok (deref s i))"

lemma add_all_candidates:
  assumes "store_ok s"
  shows "candidate_list (deref (add_all adds s) i) = candidate_list (deref s i)
      @ map (\<lambda>(n, k, c). c) (filter (\<lambda>(n, k, c). trieRouteIdentity k = i) adds)"
    and "store_ok (add_all adds s)"
  using assms
proof (induction adds arbitrary: s)
  case Nil
  {
    case 1
    then show ?case by (simp add: add_all_def)
  next
    case 2
    then show ?case by (simp add: add_all_def)
  }
next
  case (Cons a adds)
  obtain n k c where a: "a = (n, k, c)" by (cases a)
  have rec: "add_all (a # adds) s = add_all adds (addCandidate n k c s)" for s :: "'a RouteSnapshot"
    by (simp add: add_all_def a)
  have deref: "deref (addCandidate n k c s) j =
      (if j = trieRouteIdentity k then Add c (deref s j) else deref s j)" for s :: "'a RouteSnapshot" and j
    by (simp add: addCandidate_def deref_def Let_def)
  have ok: "store_ok s \<Longrightarrow> store_ok (addCandidate n k c s)" for s :: "'a RouteSnapshot"
    by (simp add: store_ok_def deref candidate_list_Add)
  {
    case 1
    then have "candidates_ok (deref s i)" by (simp add: store_ok_def)
    with Cons.IH(1) [OF ok [OF 1]] show ?case
      by (auto simp: rec [unfolded a] deref candidate_list_Add a)
  next
    case 2
    with Cons.IH(2) [OF ok [OF 2]] show ?case by (simp add: rec)
  }
qed

lemma store_ok_Empty [simp]: "store_ok EmptySnapshot"
  by (simp add: store_ok_def EmptySnapshot_def deref_def)

lemma getTrie_Empty [simp]: "getTrie m EmptySnapshot = NewTrie"
  by (simp add: getTrie_def EmptySnapshot_def)

lemma deref_Empty [simp]: "deref EmptySnapshot i = NoCandidates"
  by (simp add: deref_def EmptySnapshot_def)

subsection \<open>Matching in a trie, by entries\<close>

text \<open>A match whose predicate looks only at the information a node carries.\<close>

lemma MatchWithPredicate_entry:
  assumes wf: "wf_trie t"
    and pr: "\<And>n b. bizInfo n = Some b \<Longrightarrow> matchesPredicate (Some n) pr = P b"
  shows "map_option (\<lambda>(n, vs). bizInfo n) (MatchWithPredicate url pr t) =
    map_option Some (first_some (\<lambda>p. case entry t p of
        None \<Rightarrow> None | Some b \<Rightarrow> if P b then Some b else None) (match_order (request_path url)))"
proof -
  have "map_option (\<lambda>x. bizInfo (fst x)) (try_pattern (request_path url) pr (root t) p) =
      map_option Some (case entry t p of None \<Rightarrow> None | Some b \<Rightarrow> if P b then Some b else None)" for p
  proof (cases "live False p (root t)")
    case (Some n)
    with wf obtain b where "bizInfo n = Some b"
      unfolding wf_trie_def wf_below_def by blast
    with Some pr show ?thesis by (simp add: try_pattern_def entry_def)
  qed (simp add: try_pattern_def entry_def)
  then show ?thesis
    by (simp add: MatchWithPredicate_spec first_some_map_option [symmetric]
        option.map_comp comp_def split_beta request_path_def)
qed

lemma NewTrie_no_match: "MatchWithPredicate url pr (NewTrie :: 'b trie) = None"
proof -
  have "live False p (root (NewTrie :: 'b trie)) = None" for p
    using obs_NewTrie [of p, where 'a = 'b] by (simp add: obs_def)
  then show ?thesis
    by (simp add: MatchWithPredicate_spec first_some_None try_pattern_def)
qed

lemma matchInTrie_getTrie:
  "matchInTrie matchString s (MethodTries s m) key req =
   matchInTrie matchString s (Some (getTrie m s)) key req"
  by (cases "MethodTries s m"; cases req)
    (simp_all add: matchInTrie_def getTrie_def Match_def NewTrie_no_match)

subsection \<open>The route a table prefers\<close>

definition headers_match ::
    "(string \<Rightarrow> 're option) \<Rightarrow> ('re \<Rightarrow> string \<Rightarrow> bool) \<Rightarrow> 're Router \<Rightarrow> Request option \<Rightarrow> bool" where
  "headers_match compile matchString r req =
     (case req of None \<Rightarrow> True
      | Some q \<Rightarrow> matchHeaders matchString (compiled_headers compile (Headers (router_Match r))) q)"

text \<open>
  The route for one method: the patterns that match the request, most preferred first, and for each
  the first route of the configuration with this method and pattern whose headers match.
\<close>

definition best_route ::
    "(string \<Rightarrow> 're option) \<Rightarrow> ('re \<Rightarrow> string \<Rightarrow> bool) \<Rightarrow> 're Router list \<Rightarrow> string \<Rightarrow> string list
     \<Rightarrow> Request option \<Rightarrow> 're Router option" where
  "best_route compile matchString routes m xs req =
     first_some (\<lambda>p. find (\<lambda>r. \<not> header_only r \<and> m \<in> set (route_methods r)
         \<and> pattern_of (route_key m r) = p \<and> headers_match compile matchString r req) routes)
       (match_order xs)"

text \<open>A route the trie supports, under all its methods.\<close>

definition route_ok :: "'re Router \<Rightarrow> bool" where
  "route_ok r \<longleftrightarrow>
     (\<forall>m \<in> set (route_methods r). method_ok m \<and> pattern_ok (pattern_of (route_key m r)))"

lemma GetTrieKey_method: "\<exists>s. GetTrieKey m p = m @ s"
proof -
  let ?p = "strip_authority (cut_before (CHR ''?'') p)"
  have "\<exists>x q. (if has_prefix ?p ''/'' then m @ ?p else m @ ''/'' @ ?p) = m @ x # q"
    by (auto simp: has_prefix_slash)
  then obtain x q where "(if has_prefix ?p ''/'' then m @ ?p else m @ ''/'' @ ?p) = m @ x # q"
    by blast
  then have "GetTrieKey m p = m @ x # q \<or> GetTrieKey m p = m @ butlast (x # q)"
    unfolding GetTrieKey_def Let_def by (simp add: butlast_append split: if_splits)
  then show ?thesis by blast
qed

lemma route_key_split:
  assumes "method_ok m"
  shows "Split (route_key m r) = split_char (CHR ''/'') (route_key m r)"
    and "hd (Split (route_key m r)) = m"
proof -
  have "\<exists>p. route_key m r = GetTrieKey m p"
    unfolding route_key_def GetTrieKeyWithPrefix_def Let_def by (metis (full_types))
  then obtain p where p: "route_key m r = GetTrieKey m p" by blast
  show "Split (route_key m r) = split_char (CHR ''/'') (route_key m r)"
    using GetTrieKey_method [of m p] Split_method [OF assms] p by metis
  show "hd (Split (route_key m r)) = m"
    using p by (simp add: Split_GetTrieKey [OF assms])
qed

lemma route_adds_ok:
  assumes "\<forall>r \<in> set routes. route_ok r" and "(m, k, c) \<in> set (route_adds compile routes)"
  shows "method_ok m" and "pattern_ok (pattern_of k)"
    and "Split k = split_char (CHR ''/'') k" and "hd (Split k) = m"
proof -
  obtain r where r: "r \<in> set routes" "m \<in> set (route_methods r)" "k = route_key m r"
    using assms(2) by (auto simp: route_adds_def split: if_splits)
  with assms(1) have ok: "method_ok m" "pattern_ok (pattern_of k)" by (auto simp: route_ok_def)
  then show "method_ok m" "pattern_ok (pattern_of k)" by blast+
  show "Split k = split_char (CHR ''/'') k" "hd (Split k) = m"
    using route_key_split [OF ok(1)] r by simp_all
qed

definition cands_for ::
    "(string \<Rightarrow> 're option) \<Rightarrow> 're Router list \<Rightarrow> string \<Rightarrow> seg list \<Rightarrow> 're RouteCandidate list" where
  "cands_for compile routes m p = map (\<lambda>(n, k, c). c)
     (filter (\<lambda>(n, k, c). n = m \<and> pattern_of k = p) (route_adds compile routes))"

lemma find_append: "find P (xs @ ys) = (case find P xs of None \<Rightarrow> find P ys | Some x \<Rightarrow> Some x)"
  by (induction xs) auto

lemma find_method:
  "find H (map (\<lambda>(n, k, c). c) (filter (\<lambda>(n, k, c). n = m \<and> pattern_of k = p)
     (map (\<lambda>n. (n, key n, c)) ms))) =
   (if m \<in> set ms \<and> pattern_of (key m) = p \<and> H c then Some c else None)"
  by (induction ms) auto

lemma find_cands_for:
  "find H (cands_for compile routes m p) = map_option (candidate_of compile)
     (find (\<lambda>r. \<not> header_only r \<and> m \<in> set (route_methods r) \<and> pattern_of (route_key m r) = p
        \<and> H (candidate_of compile r)) routes)"
proof (induction routes)
  case Nil
  then show ?case by (simp add: cands_for_def route_adds_def)
next
  case (Cons r rs)
  show ?case
  proof (cases "header_only r")
    case True
    then have "cands_for compile (r # rs) m p = cands_for compile rs m p"
      by (simp add: cands_for_def route_adds_def)
    with True Cons show ?thesis by simp
  next
    case False
    then have "cands_for compile (r # rs) m p =
        map (\<lambda>(n, k, c). c) (filter (\<lambda>(n, k, c). n = m \<and> pattern_of k = p)
          (map (\<lambda>n. (n, route_key n r, candidate_of compile r)) (route_methods r)))
        @ cands_for compile rs m p"
      by (simp add: cands_for_def route_adds_def)
    then show ?thesis
      using False Cons by (simp only: find_append find_method) simp
  qed
qed

lemma first_some_bind:
  assumes "\<And>p. p \<in> set ps \<Longrightarrow> Option.bind (f p) g = h p" and "\<And>p b. f p = Some b \<Longrightarrow> g b \<noteq> None"
  shows "Option.bind (first_some f ps) g = first_some h ps"
  using assms(1)
proof (induction ps)
  case (Cons p ps)
  then have "Option.bind (f p) g = h p" and IH: "Option.bind (first_some f ps) g = first_some h ps"
    by simp_all
  with assms(2) [of p] show ?case by (cases "f p"; cases "h p") auto
qed simp

text \<open>
  For one method's trie of a snapshot, the candidates an entry points at are those of its pattern.
\<close>

lemma snapshot_entry:
  assumes ok: "\<forall>r \<in> set routes. route_ok r"
    and s: "MethodTries s = MethodTries (add_all (route_adds compile routes) EmptySnapshot)"
      "Candidates s = Candidates (add_all (route_adds compile routes) EmptySnapshot)"
  shows "wf_trie (getTrie m s)"
    and "(case entry (getTrie m s) p of
        None \<Rightarrow> cands_for compile routes m p = []
      | Some b \<Rightarrow> \<exists>i. b = CandidatesRef i
          \<and> candidate_list (deref s i) = cands_for compile routes m p
          \<and> cands_for compile routes m p \<noteq> [])"
proof -
  let ?adds = "route_adds compile routes"
  let ?s = "add_all ?adds EmptySnapshot"
  let ?mine = "filter (\<lambda>(n, k, c). n = m) ?adds"
  let ?tbl = "map (\<lambda>(n, k, c). (k, CandidatesRef (trieRouteIdentity k))) ?mine"
  have t: "getTrie m s = put_all ?tbl NewTrie"
    using s add_all_trie [of m ?adds EmptySnapshot]
    by (simp add: getTrie_def) (simp add: EmptySnapshot_def)
  have pok: "\<forall>(key, b) \<in> set ?tbl. pattern_ok (pattern_of key)"
    using route_adds_ok(2) [OF ok] by fastforce
  note P = put_all_wf [OF wf_NewTrie pok]
  from P t show "wf_trie (getTrie m s)" by simp
  have e: "entry (getTrie m s) = map_of (map (\<lambda>(n, k, c).
      (pattern_of k, CandidatesRef (trieRouteIdentity k))) ?mine)"
    using P t by (simp add: comp_def case_prod_unfold)
  have d: "deref s i = deref ?s i" for i using s by (simp add: deref_def)
  show "(case entry (getTrie m s) p of
        None \<Rightarrow> cands_for compile routes m p = []
      | Some b \<Rightarrow> \<exists>i. b = CandidatesRef i
          \<and> candidate_list (deref s i) = cands_for compile routes m p
          \<and> cands_for compile routes m p \<noteq> [])"
  proof (cases "entry (getTrie m s) p")
    case None
    then have none: "p \<notin> fst ` set (map (\<lambda>(n, k, c).
        (pattern_of k, CandidatesRef (trieRouteIdentity k))) ?mine)"
      unfolding e map_of_eq_None_iff .
    have "pattern_of k \<noteq> p" if "(m, k, c) \<in> set ?adds" for k c
      using none that by (force simp: image_image)
    with None show ?thesis by (auto simp: cands_for_def filter_empty_conv)
  next
    case (Some b)
    then have "(p, b) \<in> set (map (\<lambda>(n, k, c).
        (pattern_of k, CandidatesRef (trieRouteIdentity k))) ?mine)"
      unfolding e by (rule map_of_SomeD)
    then obtain k c where k: "(m, k, c) \<in> set ?adds" "p = pattern_of k"
      "b = CandidatesRef (trieRouteIdentity k)" by auto
    have same: "trieRouteIdentity l = trieRouteIdentity k \<longleftrightarrow> n = m \<and> pattern_of l = p"
      if "(n, l, d) \<in> set ?adds" for n l d
      using identity_pattern [OF route_adds_ok(1) [OF ok that] route_adds_ok(1) [OF ok k(1)]
          route_adds_ok(3,4) [OF ok that] route_adds_ok(3,4) [OF ok k(1)]] k(2) by simp
    have "filter (\<lambda>(n, l, d). trieRouteIdentity l = trieRouteIdentity k) ?adds =
        filter (\<lambda>(n, l, d). n = m \<and> pattern_of l = p) ?adds"
      by (rule filter_cong) (auto simp: same)
    then have "candidate_list (deref s (trieRouteIdentity k)) = cands_for compile routes m p"
      using add_all_candidates(1) [OF store_ok_Empty, of ?adds "trieRouteIdentity k"]
      by (simp add: d cands_for_def)
    moreover have "cands_for compile routes m p \<noteq> []"
      using k by (auto simp: cands_for_def filter_empty_conv)
    ultimately show ?thesis using Some k(3) by simp
  qed
qed

lemma matchInTrie_best:
  assumes ok: "\<forall>r \<in> set routes. route_ok r"
    and s: "MethodTries s = MethodTries (add_all (route_adds compile routes) EmptySnapshot)"
      "Candidates s = Candidates (add_all (route_adds compile routes) EmptySnapshot)"
  shows "matchInTrie matchString s (MethodTries s m) key req =
    Inr (map_option router_Route (best_route compile matchString routes m (request_path key) req))"
proof -
  define H where "H c = (case req of None \<Rightarrow> True | Some q \<Rightarrow> matchHeaders matchString (rc_Headers c) q)"
    for c :: "'a RouteCandidate"
  let ?t = "getTrie m s"
  note E = snapshot_entry [OF ok s, of m]
  define g where "g b = (case b of CandidatesRef i \<Rightarrow>
      map_option rc_Action (find H (candidate_list (deref s i))) | _ \<Rightarrow> None)" for b
  define P where "P b = (case b of CandidatesRef i \<Rightarrow>
      find H (candidate_list (deref s i)) \<noteq> None | _ \<Rightarrow> True)" for b
  define f where "f p = (case entry ?t p of None \<Rightarrow> None | Some b \<Rightarrow> if P b then Some b else None)" for p
  have fm: "firstMatchingCandidate matchString c req = find H (candidate_list c)" for c
    unfolding firstMatchingCandidate_find H_def ..
  have fP: "\<exists>i. b = CandidatesRef i \<and> g b \<noteq> None" if "f p = Some b" for p b
    using that E(2) [of p] by (auto simp: f_def g_def P_def split: option.splits if_splits)
  have fg: "Option.bind (f p) g = map_option rc_Action (find H (cands_for compile routes m p))" for p
    using E(2) [of p] by (auto simp: f_def g_def P_def split: option.splits)
  define pr where "pr = (case req of None \<Rightarrow> None | Some _ \<Rightarrow> Some (\<lambda>node. case GetBizInfo node of
      Some (CandidatesRef i) \<Rightarrow> firstMatchingCandidate matchString (deref s i) req \<noteq> None
    | _ \<Rightarrow> True))"
  have biz: "map_option (\<lambda>(n, vs). bizInfo n) (MatchWithPredicate key pr ?t) =
      map_option Some (first_some f (match_order (request_path key)))"
  proof (cases req)
    case (Some q)
    have pr: "matchesPredicate (Some n) pr = P b" if "bizInfo n = Some b" for n b
      using that Some by (simp add: pr_def matchesPredicate_def P_def GetBizInfo_def
          fm [unfolded Some] split: bizinfo.splits)
    show ?thesis unfolding f_def by (rule MatchWithPredicate_entry [OF E(1) pr])
  next
    case None
    have "(case entry ?t p of None \<Rightarrow> None | Some b \<Rightarrow> if True then Some b else None) = f p" for p
      using E(2) [of p] None
      by (auto simp: f_def P_def H_def find_None_iff split: option.splits)
    with MatchWithPredicate_entry [OF E(1), of None "\<lambda>b. True" key] None show ?thesis
      by (simp add: pr_def matchesPredicate_def)
  qed
  have unf: "matchInTrie matchString s (MethodTries s m) key req =
      (case MatchWithPredicate key pr ?t of
         None \<Rightarrow> Inr None
       | Some (node, _) \<Rightarrow>
           (case GetBizInfo node of
              None \<Rightarrow> Inr None
            | Some (CandidatesRef i) \<Rightarrow>
                Inr (map_option rc_Action (firstMatchingCandidate matchString (deref s i) req))
            | Some (ActionInfo act) \<Rightarrow> Inr (Some act)
            | Some OtherInfo \<Rightarrow> Inl (route_failed key '', invalid route action type'')))"
  proof (cases req)
    case None
    show ?thesis
      unfolding pr_def None
      by (subst matchInTrie_getTrie) (simp add: matchInTrie_def Match_def Let_def)
  next
    case (Some q)
    show ?thesis
      unfolding pr_def Some
      by (subst matchInTrie_getTrie) (simp add: matchInTrie_def Let_def)
  qed
  have "matchInTrie matchString s (MethodTries s m) key req =
      Inr (Option.bind (first_some f (match_order (request_path key))) g)"
  proof (cases "MatchWithPredicate key pr ?t")
    case None
    with biz have "first_some f (match_order (request_path key)) = None" by simp
    with None show ?thesis by (simp add: unf)
  next
    case (Some nv)
    then obtain n vs where nv: "MatchWithPredicate key pr ?t = Some (n, vs)" by (cases nv) auto
    with biz obtain b where b: "first_some f (match_order (request_path key)) = Some b"
      "bizInfo n = Some b" by (cases "first_some f (match_order (request_path key))") auto
    then obtain p where "f p = Some b" using first_some_SomeD by metis
    with fP obtain i where "b = CandidatesRef i" by blast
    with b nv fm show ?thesis by (simp add: unf g_def GetBizInfo_def)
  qed
  also have "Option.bind (first_some f (match_order (request_path key))) g =
      first_some (\<lambda>p. map_option rc_Action (find H (cands_for compile routes m p)))
        (match_order (request_path key))"
    by (rule first_some_bind) (use fg fP in blast)+
  also have "\<dots> = map_option router_Route
      (best_route compile matchString routes m (request_path key) req)"
  proof -
    have "H (candidate_of compile r) = headers_match compile matchString r req" for r
      by (cases req) (simp_all add: H_def headers_match_def candidate_of_def)
    moreover have "rc_Action (candidate_of compile r) = router_Route r" for r :: "'a Router"
      by (simp add: candidate_of_def)
    ultimately show ?thesis
      by (simp add: best_route_def first_some_map_option find_cands_for option.map_comp comp_def)
  qed
  finally show ?thesis by simp
qed

lemma route_headers_find:
  "route_headers matchString (map (header_route compile) rs) req =
     map_option (\<lambda>r. if Cluster (router_Route r) = '''' then Inl err_action_nil
         else Inr (router_Route r))
       (find (\<lambda>r. MethodAllowed (Methods (router_Match r)) (Method req)
          \<and> headers_match compile matchString r (Some req)) rs)"
  by (induction rs) (auto simp: header_route_def headers_match_def)

lemma request_path_key:
  "method_ok m \<Longrightarrow> request_path (GetTrieKey m path) = m # path_segments path"
  using GetTrieKey_no_query [of m path]
  by (simp add: request_path_def cut_before_free Split_GetTrieKey)

section \<open>What routing promises\<close>

text \<open>
  The routing function of a configuration: header-only routes in order, then the routes of the
  request's method, then those for any method.
\<close>

definition path_route ::
    "(string \<Rightarrow> 're option) \<Rightarrow> ('re \<Rightarrow> string \<Rightarrow> bool) \<Rightarrow> 're Router list \<Rightarrow> string \<Rightarrow> string
     \<Rightarrow> Request option \<Rightarrow> string + RouteAction" where
  "path_route compile matchString routes m path req =
     (case first_some (\<lambda>n. best_route compile matchString routes n (m # path_segments path) req)
             [m, ''*''] of
        Some r \<Rightarrow> Inr (router_Route r)
      | None \<Rightarrow> Inl (route_failed (GetTrieKey m path) '', no rules matched''))"

definition route_reference ::
    "(string \<Rightarrow> 're option) \<Rightarrow> ('re \<Rightarrow> string \<Rightarrow> bool) \<Rightarrow> 're Router list \<Rightarrow> Request
     \<Rightarrow> string + RouteAction" where
  "route_reference compile matchString routes req =
     (case find (\<lambda>r. header_only r \<and> MethodAllowed (Methods (router_Match r)) (Method req)
                 \<and> headers_match compile matchString r (Some req)) routes of
        Some r \<Rightarrow>
          if Cluster (router_Route r) = '''' then Inl err_action_nil else Inr (router_Route r)
      | None \<Rightarrow> path_route compile matchString routes (Method req) (URL_Path req) (Some req))"

lemma match_tries_path_route:
  assumes "\<forall>r \<in> set routes. route_ok r" and "method_ok m"
    and "MethodTries s = MethodTries (add_all (route_adds compile routes) EmptySnapshot)"
    and "Candidates s = Candidates (add_all (route_adds compile routes) EmptySnapshot)"
  shows "match_tries matchString s m (GetTrieKey m path) req =
    path_route compile matchString routes m path req"
proof -
  have key: "request_path (GetTrieKey m path) = m # path_segments path"
    using assms(2) by (rule request_path_key)
  have "matchInTrie matchString s (MethodTries s n) (GetTrieKey m path) req =
      Inr (map_option router_Route
        (best_route compile matchString routes n (m # path_segments path) req))" for n
    using matchInTrie_best [OF assms(1,3,4), of matchString n "GetTrieKey m path" req]
    unfolding key .
  then show ?thesis
    by (auto simp: match_tries_def path_route_def split: option.splits)
qed

text \<open>
  C1: the snapshot routes as the configuration says. For every regular-expression engine, and for
  routes whose methods are plain tokens and whose match-all segment, if any, stands last, building
  the snapshot does not panic, and \<open>route\<close> on it returns for every request exactly the reference
  result: the first header-only route that allows the method and whose headers all match (an error
  if its cluster is empty); otherwise, in the trie of the request's method and then in that of
  \<open>*\<close>, the most preferred matching pattern that has a route whose headers match, and of its routes
  the first in configuration order; otherwise the error.
\<close>

theorem route_snapshot:
  assumes "\<forall>r \<in> set routes. route_ok r" and "method_ok (Method req)" and "cache_ok compile cache"
  shows "\<exists>s cache'. ToSnapshot compile routes cache = (Some s, cache') \<and> cache_ok compile cache'
    \<and> route matchString (Some s) req = route_reference compile matchString routes req"
proof -
  obtain s cache' where s: "ToSnapshot compile routes cache = (Some s, cache')"
    "cache_ok compile cache'"
    and h: "HeaderOnly s = map (header_route compile) (filter header_only routes)"
    and t: "MethodTries s = MethodTries (add_all (route_adds compile routes) EmptySnapshot)"
      "Candidates s = Candidates (add_all (route_adds compile routes) EmptySnapshot)"
    using ToSnapshot_ok [OF assms(3)] by blast
  have "route matchString (Some s) req = route_reference compile matchString routes req"
    by (simp add: route_def route_reference_def h route_headers_find find_filter
        match_tries_path_route [OF assms(1,2) t] split: option.splits)
  with s show ?thesis by blast
qed

text \<open>A configuration used by the witnesses: a regular expression is a literal word here.\<close>

definition word_regex :: "string \<Rightarrow> string option" where
  "word_regex pat = (if CHR ''('' \<in> set pat then None else Some pat)"

definition sample_header :: "string \<Rightarrow> string \<Rightarrow> bool \<Rightarrow> string HeaderMatcher" where
  "sample_header name v re = \<lparr>hm_Name = name, hm_Values = [v], hm_Regex = re, valueRE = None\<rparr>"

definition sample_router ::
    "string \<Rightarrow> string \<Rightarrow> string list \<Rightarrow> string HeaderMatcher list \<Rightarrow> string \<Rightarrow> string Router" where
  "sample_router i path methods hs cluster = \<lparr>ID = i, router_Match = \<lparr>Prefix = '''', Path = path,
     Methods = methods, Headers = hs\<rparr>,
     router_Route = \<lparr>Cluster = cluster, ClusterNotFoundResponseCode = 404\<rparr>\<rparr>"

definition sample_routes :: "string Router list" where
  "sample_routes =
     [sample_router ''1'' ''/u/:i'' [''GET''] [sample_header ''E'' ''g'' True] ''gray'',
      sample_router ''2'' ''/u/:n'' [''GET''] [] ''users'',
      sample_router ''3'' ''/**'' [''*''] [] ''rest'']"

definition sample_request :: "string \<Rightarrow> string \<Rightarrow> Request" where
  "sample_request m path = \<lparr>Method = m, URL_Path = path,
     Header = Map.empty(''E'' \<mapsto> [''g''])\<rparr>"

lemma sample_routes_ok: "\<forall>r \<in> set sample_routes. route_ok r"
  by code_simp

theorem route_snapshot_witness:
  "\<exists>s cache. ToSnapshot word_regex sample_routes Map.empty = (Some s, cache)
     \<and> route (=) (Some s) (sample_request ''GET'' ''/u/7'')
         = Inr \<lparr>Cluster = ''gray'', ClusterNotFoundResponseCode = 404\<rparr>"
proof -
  have m: "method_ok (Method (sample_request ''GET'' ''/u/7''))" by code_simp
  have "route_reference word_regex (=) sample_routes (sample_request ''GET'' ''/u/7'')
      = Inr \<lparr>Cluster = ''gray'', ClusterNotFoundResponseCode = 404\<rparr>"
    by code_simp
  with route_snapshot [OF sample_routes_ok m cache_ok_empty, of word_regex "(=)"]
  show ?thesis by (metis (no_types))
qed

text \<open>
  C18: routing by path and name. Under the same assumptions, \<open>RouteByPathAndName\<close> on the snapshot
  ignores headers and returns the first route in configuration order of the most preferred matching
  pattern, in the trie of the method and then in that of \<open>*\<close>.
\<close>

theorem RouteByPathAndName_snapshot:
  assumes "\<forall>r \<in> set routes. route_ok r" and "method_ok m" and "cache_ok compile cache"
  shows "\<exists>s cache'. ToSnapshot compile routes cache = (Some s, cache')
    \<and> RouteByPathAndName matchString (Some s) path m =
        path_route compile matchString routes m path None"
proof -
  obtain s cache' where s: "ToSnapshot compile routes cache = (Some s, cache')"
    and t: "MethodTries s = MethodTries (add_all (route_adds compile routes) EmptySnapshot)"
      "Candidates s = Candidates (add_all (route_adds compile routes) EmptySnapshot)"
    using ToSnapshot_ok [OF assms(3)] by blast
  then show ?thesis
    by (auto simp: RouteByPathAndName_def match_tries_path_route [OF assms(1,2) t])
qed

theorem RouteByPathAndName_snapshot_witness:
  "\<exists>s cache. ToSnapshot word_regex sample_routes Map.empty = (Some s, cache)
     \<and> RouteByPathAndName (=) (Some s) ''/x'' ''GET''
         = Inr \<lparr>Cluster = ''rest'', ClusterNotFoundResponseCode = 404\<rparr>"
proof -
  have m: "method_ok ''GET''" by code_simp
  have "path_route word_regex (=) sample_routes ''GET'' ''/x'' None
      = Inr \<lparr>Cluster = ''rest'', ClusterNotFoundResponseCode = 404\<rparr>"
    by code_simp
  with RouteByPathAndName_snapshot [OF sample_routes_ok m cache_ok_empty, of word_regex "(=)" "''/x''"]
  show ?thesis by (metis (no_types))
qed

end
