(* ===== verification/Pixiu_Coordinator.thy ===== *)
theory Pixiu_Coordinator
  imports Pixiu_Routes
begin

text \<open>
  Dynamic routing: the coordinator of \<open>pkg/common/router/router.go\<close>, which collects route changes
  and publishes a new snapshot after a quiet period, and the router manager of
  \<open>pkg/server/router_manager.go\<close>, which passes changes to the registered coordinators.

  All methods that change the coordinator run under its mutex; each is one function on its state.
  The waiting goroutine \<open>awaitAndPublish\<close> and the timer run on their own, so they are steps of a
  transition system. A panic is \<open>None\<close>.
\<close>

section \<open>The coordinator\<close>

text \<open>
  A timer that was started and has not expired, has expired with its value still in the channel, or
  has had its value received. \<open>Stop\<close>, the drain and \<open>Reset\<close> together leave it armed in every case.
\<close>

datatype timer_state = Armed | Fired | Received

text \<open>The goroutine: blocked on the timer's channel, or past it and about to take the lock.\<close>

datatype waiter_state = Blocked | Woken

record 're RouterCoordinator =
  mainSnapshot :: "'re RouteSnapshot option"
  nextSnapshot :: "'re Router list"
  timer :: "timer_state option"
  waiter :: "waiter_state option"
  debounce :: int
  needsRegistration :: bool
  dynamic :: bool
  regexCache :: "'re regex_cache"

text \<open>
  \<open>publishLocked\<close> clones the list of router pointers; \<open>buildRouteConfiguration\<close> compiles the
  expressions of the shared routers in place, so \<open>nextSnapshot\<close> shows them compiled as well.
\<close>

definition publishLocked ::
    "(string \<Rightarrow> 're option) \<Rightarrow> 're RouterCoordinator \<Rightarrow> 're RouterCoordinator option" where
  "publishLocked compile rm =
     (let cfg = buildRouteConfiguration compile (nextSnapshot rm)
      in case ToSnapshot compile (Routes cfg) (regexCache rm) of
           (Some s, cache) \<Rightarrow>
             Some (rm\<lparr>mainSnapshot := Some s, nextSnapshot := Routes cfg, regexCache := cache\<rparr>)
         | (None, cache) \<Rightarrow> None)"

definition schedulePublishLocked ::
    "(string \<Rightarrow> 're option) \<Rightarrow> 're RouterCoordinator \<Rightarrow> 're RouterCoordinator option" where
  "schedulePublishLocked compile rm =
     (if debounce rm \<le> 0 then publishLocked compile rm
      else
        (case timer rm of
           None \<Rightarrow> Some (rm\<lparr>timer := Some Armed, waiter := Some Blocked\<rparr>)
         | Some _ \<Rightarrow> Some (rm\<lparr>timer := Some Armed\<rparr>)))"

definition OnAddRouter ::
    "(string \<Rightarrow> 're option) \<Rightarrow> 're Router \<Rightarrow> 're RouterCoordinator \<Rightarrow> 're RouterCoordinator option" where
  "OnAddRouter compile r rm =
     schedulePublishLocked compile (rm\<lparr>nextSnapshot := nextSnapshot rm @ [r]\<rparr>)"

definition OnDeleteRouter ::
    "(string \<Rightarrow> 're option) \<Rightarrow> 're Router \<Rightarrow> 're RouterCoordinator \<Rightarrow> 're RouterCoordinator option" where
  "OnDeleteRouter compile r rm =
     (if nextSnapshot rm = [] then Some rm
      else schedulePublishLocked compile
             (rm\<lparr>nextSnapshot := filter (\<lambda>rr. ID rr \<noteq> ID r) (nextSnapshot rm)\<rparr>))"

text \<open>The two halves of \<open>awaitAndPublish\<close>: the receive, and what it does under the lock.\<close>

definition awaitReceive :: "'re RouterCoordinator \<Rightarrow> 're RouterCoordinator" where
  "awaitReceive rm = rm\<lparr>timer := Some Received, waiter := Some Woken\<rparr>"

definition awaitPublish ::
    "(string \<Rightarrow> 're option) \<Rightarrow> 're RouterCoordinator \<Rightarrow> 're RouterCoordinator option" where
  "awaitPublish compile rm =
     map_option (\<lambda>rm. rm\<lparr>timer := None, waiter := None\<rparr>) (publishLocked compile rm)"

text \<open>
  \<open>CreateRouterCoordinator\<close>; the flag says whether the router manager exists already. The result
  tells whether the coordinator was added to its listeners.
\<close>

definition CreateRouterCoordinator ::
    "(string \<Rightarrow> 're option) \<Rightarrow> bool \<Rightarrow> 're RouteConfiguration \<Rightarrow> 're regex_cache
     \<Rightarrow> ('re RouterCoordinator \<times> bool) option" where
  "CreateRouterCoordinator compile manager routeConfig cache =
     (let cfg = buildRouteConfiguration compile (Routes routeConfig)
      in case ToSnapshot compile (Routes cfg) cache of
           (Some s, cache) \<Rightarrow>
             Some (\<lparr>mainSnapshot = Some s, nextSnapshot = Routes cfg, timer = None, waiter = None,
                debounce = 50 * 10 ^ 6, needsRegistration = Dynamic routeConfig \<and> \<not> manager,
                dynamic = Dynamic routeConfig, regexCache = cache\<rparr>,
                Dynamic routeConfig \<and> manager)
         | (None, cache) \<Rightarrow> None)"

section \<open>The router manager\<close>

text \<open>Listeners are coordinators, named by their addresses in a store.\<close>

record RouterManager =
  rls :: "nat list"

definition AddRouterListener :: "nat \<Rightarrow> RouterManager \<Rightarrow> RouterManager" where
  "AddRouterListener l rm = rm\<lparr>rls := rls rm @ [l]\<rparr>"

definition RemoveRouterListener :: "nat \<Rightarrow> RouterManager \<Rightarrow> RouterManager" where
  "RemoveRouterListener l rm = rm\<lparr>rls := remove1 l (rls rm)\<rparr>"

definition ClearRouterListeners :: "RouterManager \<Rightarrow> RouterManager" where
  "ClearRouterListeners rm = rm\<lparr>rls := []\<rparr>"

type_synonym 're listeners = "nat \<Rightarrow> 're RouterCoordinator option"

text \<open>Calls one method of each listener in turn; a dangling listener would be a nil call.\<close>

fun notify ::
    "('c \<Rightarrow> 'c option) \<Rightarrow> nat list \<Rightarrow> (nat \<Rightarrow> 'c option) \<Rightarrow> (nat \<Rightarrow> 'c option) option" where
  "notify f [] h = Some h"
| "notify f (l # ls) h =
     (case Option.bind (h l) f of None \<Rightarrow> None | Some c \<Rightarrow> notify f ls (h(l \<mapsto> c)))"

definition AddRouter ::
    "(string \<Rightarrow> 're option) \<Rightarrow> 're Router \<Rightarrow> RouterManager \<Rightarrow> 're listeners \<Rightarrow> 're listeners option" where
  "AddRouter compile r rm h = notify (OnAddRouter compile r) (rls rm) h"

definition DeleteRouter ::
    "(string \<Rightarrow> 're option) \<Rightarrow> 're Router \<Rightarrow> RouterManager \<Rightarrow> 're listeners \<Rightarrow> 're listeners option" where
  "DeleteRouter compile r rm h = notify (OnDeleteRouter compile r) (rls rm) h"

fun validate_loop :: "string list \<Rightarrow> 're Router list \<Rightarrow> string option" where
  "validate_loop ids [] = None"
| "validate_loop ids (r # rs) =
     (if ID r \<in> set ids then Some (''duplicate route ID: '' @ ID r)
      else if Prefix (router_Match r) = '''' \<and> Path (router_Match r) = ''''
        then Some (''route '' @ ID r @ '' has no prefix or path defined'')
      else if Cluster (router_Route r) = ''''
        then Some (''route '' @ ID r @ '' has no cluster defined'')
      else validate_loop (ID r # ids) rs)"

definition validateRoutes :: "'re Router list \<Rightarrow> string option" where
  "validateRoutes routes = validate_loop [] routes"

fun notify_routes ::
    "('r \<Rightarrow> 'c \<Rightarrow> 'c option) \<Rightarrow> 'r list \<Rightarrow> RouterManager \<Rightarrow> (nat \<Rightarrow> 'c option)
     \<Rightarrow> (nat \<Rightarrow> 'c option) option" where
  "notify_routes f [] rm h = Some h"
| "notify_routes f (r # rs) rm h =
     (case notify (f r) (rls rm) h of None \<Rightarrow> None | Some h \<Rightarrow> notify_routes f rs rm h)"

text \<open>The outer option is a panic, the inner sum the returned error.\<close>

definition UpdateRoutes ::
    "(string \<Rightarrow> 're option) \<Rightarrow> 're Router list \<Rightarrow> 're Router list \<Rightarrow> RouterManager \<Rightarrow> 're listeners
     \<Rightarrow> (string option \<times> 're listeners) option" where
  "UpdateRoutes compile oldRoutes newRoutes rm h =
     (case validateRoutes newRoutes of
        Some e \<Rightarrow> Some (Some (''route validation failed: '' @ e), h)
      | None \<Rightarrow>
          (case notify_routes (OnDeleteRouter compile) oldRoutes rm h of
             None \<Rightarrow> None
           | Some h \<Rightarrow>
               map_option (\<lambda>h. (None, h)) (notify_routes (OnAddRouter compile) newRoutes rm h)))"

text \<open>
  The late registration that \<open>Route\<close> performs before it routes, for the coordinator at address
  \<open>l\<close>; the manager is absent until the server has created it. \<open>Close\<close> removes the listener.
\<close>

definition registerListener ::
    "nat \<Rightarrow> 're RouterCoordinator \<Rightarrow> RouterManager option
     \<Rightarrow> 're RouterCoordinator \<times> RouterManager option" where
  "registerListener l rc manager =
     (if dynamic rc \<and> needsRegistration rc then
        (case manager of
           Some m \<Rightarrow> (rc\<lparr>needsRegistration := False\<rparr>, Some (AddRouterListener l m))
         | None \<Rightarrow> (rc\<lparr>needsRegistration := True\<rparr>, None))
      else (rc, manager))"

definition Route ::
    "('re \<Rightarrow> string \<Rightarrow> bool) \<Rightarrow> nat \<Rightarrow> Request \<Rightarrow> 're RouterCoordinator \<Rightarrow> RouterManager option
     \<Rightarrow> (string + RouteAction) \<times> 're RouterCoordinator \<times> RouterManager option" where
  "Route matchString l req rc manager =
     (let (rc, manager) = registerListener l rc manager
      in (route matchString (mainSnapshot rc) req, rc, manager))"

definition coordinator_Close ::
    "nat \<Rightarrow> 're RouterCoordinator \<Rightarrow> RouterManager option \<Rightarrow> RouterManager option" where
  "coordinator_Close l rc manager =
     (if dynamic rc then map_option (RemoveRouterListener l) manager else manager)"

section \<open>The coordinator as a transition system\<close>

datatype 're event = AddEvent "'re Router" | DeleteEvent "'re Router" | FireEvent | ReceiveEvent | PublishEvent

inductive coord_step ::
    "(string \<Rightarrow> 're option) \<Rightarrow> 're RouterCoordinator \<Rightarrow> 're event \<Rightarrow> 're RouterCoordinator option \<Rightarrow> bool"
  for compile where
  add: "coord_step compile rc (AddEvent r) (OnAddRouter compile r rc)"
| delete: "coord_step compile rc (DeleteEvent r) (OnDeleteRouter compile r rc)"
| fire: "timer rc = Some Armed \<Longrightarrow> coord_step compile rc FireEvent (Some (rc\<lparr>timer := Some Fired\<rparr>))"
| receive: "timer rc = Some Fired \<Longrightarrow> waiter rc = Some Blocked \<Longrightarrow>
    coord_step compile rc ReceiveEvent (Some (awaitReceive rc))"
| publish: "waiter rc = Some Woken \<Longrightarrow>
    coord_step compile rc PublishEvent (awaitPublish compile rc)"

inductive coord_run ::
    "(string \<Rightarrow> 're option) \<Rightarrow> 're RouterCoordinator \<Rightarrow> 're event list \<Rightarrow> 're RouterCoordinator option
     \<Rightarrow> bool"
  for compile rc where
  start: "coord_run compile rc [] (Some rc)"
| step: "coord_run compile rc evs (Some rc1) \<Longrightarrow> coord_step compile rc1 ev res \<Longrightarrow>
    coord_run compile rc (evs @ [ev]) res"

text \<open>The routes that the changes ask for.\<close>

fun apply_event :: "'re event \<Rightarrow> 're Router list \<Rightarrow> 're Router list" where
  "apply_event (AddEvent r) rs = rs @ [r]"
| "apply_event (DeleteEvent r) rs = filter (\<lambda>rr. ID rr \<noteq> ID r) rs"
| "apply_event _ rs = rs"

definition wanted :: "'re event list \<Rightarrow> 're Router list \<Rightarrow> 're Router list" where
  "wanted evs rs = fold apply_event evs rs"

text \<open>The snapshot of a route list, with the expressions of its routers compiled.\<close>

definition snapshot_of :: "(string \<Rightarrow> 're option) \<Rightarrow> 're Router list \<Rightarrow> 're RouteSnapshot" where
  "snapshot_of compile routes =
     (let rs = map (initRouter compile) routes
      in (add_all (route_adds compile rs) EmptySnapshot)\<lparr>HeaderOnly :=
            map (header_route compile) (filter header_only rs)\<rparr>)"

section \<open>Lemmas\<close>

lemma initHeader_idem [simp]: "initHeader compile (initHeader compile h) = initHeader compile h"
  by (auto simp: initHeader_def SetValueRegex_def split: list.splits option.splits)

lemma initRouter_idem [simp]: "initRouter compile (initRouter compile r) = initRouter compile r"
  by (simp add: initRouter_def comp_def)

lemma map_initRouter_idem [simp]:
  "map (initRouter compile) (map (initRouter compile) rs) = map (initRouter compile) rs"
  by (simp add: comp_def)

lemma ID_initRouter [simp]: "ID (initRouter compile r) = ID r"
  by (simp add: initRouter_def)

lemma map_init_filter:
  "map (initRouter compile) (filter (\<lambda>rr. ID rr \<noteq> i) rs) =
   filter (\<lambda>rr. ID rr \<noteq> i) (map (initRouter compile) rs)"
  by (simp add: filter_map comp_def)

lemma snapshot_of_cong:
  "map (initRouter compile) rs = map (initRouter compile) rs' \<Longrightarrow>
   snapshot_of compile rs = snapshot_of compile rs'"
  by (simp add: snapshot_of_def)

lemma Routes_build [simp]:
  "Routes (buildRouteConfiguration compile rs) = map (initRouter compile) rs"
  by (simp add: buildRouteConfiguration_def fillTrieFromRoutes_def initRegex_def)

lemma ToSnapshot_init:
  assumes "cache_ok compile cache"
  shows "\<exists>cache'. ToSnapshot compile (map (initRouter compile) rs) cache =
      (Some (snapshot_of compile rs), cache') \<and> cache_ok compile cache'"
  using ToSnapshot_loop_ok [OF assms, of "map (initRouter compile) rs" EmptySnapshot]
  by (auto simp: ToSnapshot_def snapshot_of_def EmptySnapshot_def Let_def)

lemma publishLocked_ok:
  assumes "cache_ok compile (regexCache rm)"
  shows "\<exists>cache. publishLocked compile rm =
      Some (rm\<lparr>mainSnapshot := Some (snapshot_of compile (nextSnapshot rm)),
        nextSnapshot := map (initRouter compile) (nextSnapshot rm), regexCache := cache\<rparr>)
    \<and> cache_ok compile cache"
  using ToSnapshot_init [OF assms, of "nextSnapshot rm"] by (auto simp: publishLocked_def)

lemma schedulePublishLocked_ok:
  assumes "cache_ok compile (regexCache rm)"
  shows "\<exists>rm'. schedulePublishLocked compile rm = Some rm' \<and> cache_ok compile (regexCache rm')
    \<and> map (initRouter compile) (nextSnapshot rm') = map (initRouter compile) (nextSnapshot rm)
    \<and> debounce rm' = debounce rm
    \<and> (if debounce rm \<le> 0
       then timer rm' = timer rm \<and> waiter rm' = waiter rm
         \<and> mainSnapshot rm' = Some (snapshot_of compile (nextSnapshot rm))
       else mainSnapshot rm' = mainSnapshot rm \<and> timer rm' = Some Armed
         \<and> waiter rm' = (if timer rm = None then Some Blocked else waiter rm))"
  using publishLocked_ok [OF assms] assms
  by (auto simp: schedulePublishLocked_def split: option.splits)

lemma wanted_simps [simp]:
  "wanted [] rs = rs" "wanted (evs @ [ev]) rs = apply_event ev (wanted evs rs)"
  by (simp_all add: wanted_def)

text \<open>
  The invariant. After the events \<open>evs\<close>: the pending list is the wanted one, up to compiled
  expressions; a goroutine waits exactly when there is a timer, and one that is blocked will be
  woken; the published snapshot is that of the configuration after some prefix of the events, and
  of the whole list when no goroutine waits.
\<close>

definition past_snapshot ::
    "(string \<Rightarrow> 're option) \<Rightarrow> 're Router list \<Rightarrow> 're event list \<Rightarrow> 're RouterCoordinator \<Rightarrow> bool" where
  "past_snapshot compile rs evs rc \<longleftrightarrow>
     (\<exists>k \<le> length evs. mainSnapshot rc = Some (snapshot_of compile (wanted (take k evs) rs)))"

definition coord_inv ::
    "(string \<Rightarrow> 're option) \<Rightarrow> 're Router list \<Rightarrow> 're event list \<Rightarrow> 're RouterCoordinator \<Rightarrow> bool" where
  "coord_inv compile rs evs rc \<longleftrightarrow>
     cache_ok compile (regexCache rc)
     \<and> map (initRouter compile) (nextSnapshot rc) = map (initRouter compile) (wanted evs rs)
     \<and> (timer rc = None \<longleftrightarrow> waiter rc = None)
     \<and> (waiter rc = Some Blocked \<longrightarrow> timer rc = Some Armed \<or> timer rc = Some Fired)
     \<and> past_snapshot compile rs evs rc
     \<and> (waiter rc = None \<longrightarrow> mainSnapshot rc = Some (snapshot_of compile (wanted evs rs)))"

lemma past_snoc:
  assumes "past_snapshot compile rs evs rc" and "mainSnapshot rc' = mainSnapshot rc"
  shows "past_snapshot compile rs (evs @ [ev]) rc'"
proof -
  obtain k where "k \<le> length evs"
    "mainSnapshot rc' = Some (snapshot_of compile (wanted (take k (evs @ [ev])) rs))"
    using assms by (auto simp: past_snapshot_def)
  then show ?thesis unfolding past_snapshot_def by (intro exI [of _ k]) simp
qed

lemma past_now:
  assumes "mainSnapshot rc = Some (snapshot_of compile (wanted evs rs))"
  shows "past_snapshot compile rs evs rc"
  unfolding past_snapshot_def using assms by (intro exI [of _ "length evs"]) simp

lemma coord_inv_change:
  assumes inv: "coord_inv compile rs evs rc"
    and nx: "map (initRouter compile) (nextSnapshot rc1) =
      map (initRouter compile) (apply_event ev (wanted evs rs))"
    and same: "mainSnapshot rc1 = mainSnapshot rc" "timer rc1 = timer rc" "waiter rc1 = waiter rc"
      "regexCache rc1 = regexCache rc"
  shows "\<exists>rc'. schedulePublishLocked compile rc1 = Some rc' \<and> coord_inv compile rs (evs @ [ev]) rc'"
proof -
  from inv same have c: "cache_ok compile (regexCache rc1)" by (simp add: coord_inv_def)
  obtain rc' where s: "schedulePublishLocked compile rc1 = Some rc'"
    and r: "cache_ok compile (regexCache rc')"
      "map (initRouter compile) (nextSnapshot rc') = map (initRouter compile) (nextSnapshot rc1)"
      "if debounce rc1 \<le> 0
       then timer rc' = timer rc1 \<and> waiter rc' = waiter rc1
         \<and> mainSnapshot rc' = Some (snapshot_of compile (nextSnapshot rc1))
       else mainSnapshot rc' = mainSnapshot rc1 \<and> timer rc' = Some Armed
         \<and> waiter rc' = (if timer rc1 = None then Some Blocked else waiter rc1)"
    using schedulePublishLocked_ok [OF c] by (elim exE conjE) (rule that)
  have eq: "snapshot_of compile (nextSnapshot rc1) =
      snapshot_of compile (wanted (evs @ [ev]) rs)"
    using snapshot_of_cong [OF nx] by simp
  have past: "past_snapshot compile rs (evs @ [ev]) rc'"
  proof (cases "debounce rc1 \<le> 0")
    case True
    with r(3) eq show ?thesis by (auto intro: past_now)
  next
    case False
    with r(3) same inv show ?thesis by (auto intro: past_snoc simp: coord_inv_def)
  qed
  have "coord_inv compile rs (evs @ [ev]) rc'"
    unfolding coord_inv_def
    using inv [unfolded coord_inv_def] same nx r past eq by (auto split: if_splits)
  with s show ?thesis by blast
qed

lemma coord_inv_step:
  assumes inv: "coord_inv compile rs evs rc" and step: "coord_step compile rc ev res"
  shows "\<exists>rc'. res = Some rc' \<and> coord_inv compile rs (evs @ [ev]) rc'"
  using step
proof (cases rule: coord_step.cases)
  case (add r)
  have "map (initRouter compile) (nextSnapshot (rc\<lparr>nextSnapshot := nextSnapshot rc @ [r]\<rparr>)) =
      map (initRouter compile) (apply_event ev (wanted evs rs))"
    using inv add by (simp add: coord_inv_def)
  from coord_inv_change [OF inv this] add show ?thesis by (simp add: OnAddRouter_def)
next
  case (delete r)
  have m: "map (initRouter compile) (filter (\<lambda>rr. ID rr \<noteq> ID r) (nextSnapshot rc)) =
      map (initRouter compile) (apply_event ev (wanted evs rs))"
    using inv delete by (simp add: coord_inv_def map_init_filter)
  show ?thesis
  proof (cases "nextSnapshot rc = []")
    case True
    with inv have "wanted evs rs = []" by (simp add: coord_inv_def)
    with inv True delete show ?thesis
      by (auto simp: OnDeleteRouter_def coord_inv_def intro: past_snoc)
  next
    case False
    with m coord_inv_change [OF inv, of "rc\<lparr>nextSnapshot := filter (\<lambda>rr. ID rr \<noteq> ID r) (nextSnapshot rc)\<rparr>" ev]
      delete show ?thesis by (simp add: OnDeleteRouter_def)
  qed
next
  case fire
  with inv show ?thesis by (auto simp: coord_inv_def intro: past_snoc)
next
  case receive
  with inv show ?thesis by (auto simp: coord_inv_def awaitReceive_def intro: past_snoc)
next
  case publish
  obtain cache where p: "publishLocked compile rc =
      Some (rc\<lparr>mainSnapshot := Some (snapshot_of compile (nextSnapshot rc)),
        nextSnapshot := map (initRouter compile) (nextSnapshot rc), regexCache := cache\<rparr>)"
    "cache_ok compile cache"
    using publishLocked_ok [of compile rc] inv by (auto simp: coord_inv_def)
  have "snapshot_of compile (nextSnapshot rc) = snapshot_of compile (wanted (evs @ [ev]) rs)"
    using inv publish by (auto simp: coord_inv_def intro: snapshot_of_cong)
  with p inv publish show ?thesis
    by (auto simp: awaitPublish_def coord_inv_def intro: past_now)
qed

lemma coord_inv_run:
  assumes "coord_run compile rc evs res" and "coord_inv compile rs [] rc"
  shows "\<exists>rc'. res = Some rc' \<and> coord_inv compile rs evs rc'"
  using assms
proof (induction rule: coord_run.induct)
  case (step evs rc1 ev res)
  then show ?case using coord_inv_step by fastforce
qed simp

lemma coord_inv_create:
  assumes "cache_ok compile cache"
  shows "\<exists>rc registered. CreateRouterCoordinator compile manager cfg cache = Some (rc, registered)
    \<and> coord_inv compile (Routes cfg) [] rc"
  using ToSnapshot_init [OF assms, of "Routes cfg"]
  by (auto simp: CreateRouterCoordinator_def coord_inv_def past_snapshot_def Let_def)

subsection \<open>The steps that need no further change\<close>

fun internal :: "'re event \<Rightarrow> bool" where
  "internal (AddEvent r) = False"
| "internal (DeleteEvent r) = False"
| "internal _ = True"

definition work_left :: "'re RouterCoordinator \<Rightarrow> nat" where
  "work_left rc = (case waiter rc of None \<Rightarrow> 0 | Some Woken \<Rightarrow> 1 | Some Blocked \<Rightarrow> 2)
     + (if timer rc = Some Armed then 1 else 0)"

lemma coord_run_append:
  assumes "coord_run compile rc1 evs' res" and "coord_run compile rc evs (Some rc1)"
  shows "coord_run compile rc (evs @ evs') res"
  using assms
proof (induction rule: coord_run.induct)
  case start
  then show ?case by simp
next
  case (step evs' rc2 ev res)
  then show ?case using coord_run.step [of compile rc "evs @ evs'" rc2 ev res] by simp
qed

lemma awaitPublish_quiet:
  "Some rc' = awaitPublish compile rc \<Longrightarrow> timer rc' = None \<and> waiter rc' = None"
  by (cases "publishLocked compile rc") (auto simp: awaitPublish_def)

lemma internal_step_work:
  assumes "coord_step compile rc ev (Some rc')" and "internal ev"
  shows "work_left rc' < work_left rc"
  using assms
  by (cases rule: coord_step.cases)
    (auto simp: work_left_def awaitReceive_def dest: awaitPublish_quiet
      split: option.splits waiter_state.splits)

lemma internal_run_work:
  assumes "coord_run compile rc evs res" and "\<forall>ev \<in> set evs. internal ev" and "res = Some rc'"
  shows "length evs + work_left rc' \<le> work_left rc"
  using assms
proof (induction arbitrary: rc' rule: coord_run.induct)
  case start
  then show ?case by simp
next
  case (step evs rc1 ev res)
  then have "length evs + work_left rc1 \<le> work_left rc" by simp
  moreover have "work_left rc' < work_left rc1"
    using step internal_step_work [of compile rc1 ev rc'] by simp
  ultimately show ?case by simp
qed

lemma wanted_internal: "\<forall>ev \<in> set ints. internal ev \<Longrightarrow> wanted (evs @ ints) rs = wanted evs rs"
proof (induction ints rule: rev_induct)
  case (snoc ev ints)
  then have "wanted (evs @ ints @ [ev]) rs = wanted (evs @ ints) rs"
    using wanted_simps(2) [of "evs @ ints" ev rs] by (cases ev) simp_all
  with snoc show ?case by simp
qed simp

lemma work_left_le: "work_left rc \<le> 3"
  by (auto simp: work_left_def split: option.splits waiter_state.splits)

lemma stuck_quiet:
  assumes "coord_inv compile rs evs rc"
    and "\<forall>ev res. internal ev \<longrightarrow> \<not> coord_step compile rc ev res"
  shows "waiter rc = None"
proof (rule ccontr)
  assume "waiter rc \<noteq> None"
  then consider "waiter rc = Some Woken" | "waiter rc = Some Blocked" "timer rc = Some Armed"
    | "waiter rc = Some Blocked" "timer rc = Some Fired"
    using assms(1) by (cases "waiter rc") (auto simp: coord_inv_def intro: waiter_state.exhaust)
  then show False
    using assms(2) coord_step.publish [of rc compile] coord_step.fire [of rc compile]
      coord_step.receive [of rc compile]
    by cases (metis internal.simps)+
qed

section \<open>What the coordinator promises\<close>

text \<open>
  C4: no change is lost and readers see only whole configurations. Start a coordinator on a
  configuration and let route additions, deletions, timer expiries and the goroutine's steps
  happen in any order. No step panics. The pending list is always the initial routes with all
  changes applied (up to expressions compiled in place), the published snapshot is always that of
  the configuration after some prefix of the changes, and whenever no goroutine is waiting it is
  that of all changes so far.
\<close>

theorem coordinator_consistent:
  assumes "cache_ok compile cache"
    and "CreateRouterCoordinator compile manager cfg cache = Some (rc0, registered)"
    and "coord_run compile rc0 evs res"
  shows "\<exists>rc. res = Some rc
    \<and> map (initRouter compile) (nextSnapshot rc)
        = map (initRouter compile) (wanted evs (Routes cfg))
    \<and> (\<exists>k \<le> length evs.
        mainSnapshot rc = Some (snapshot_of compile (wanted (take k evs) (Routes cfg))))
    \<and> (waiter rc = None \<longrightarrow> mainSnapshot rc = Some (snapshot_of compile (wanted evs (Routes cfg))))"
proof -
  have "coord_inv compile (Routes cfg) [] rc0"
    using coord_inv_create [OF assms(1), of manager cfg] assms(2) by auto
  from coord_inv_run [OF assms(3) this] show ?thesis
    by (auto simp: coord_inv_def past_snapshot_def)
qed

definition sample_config :: "string RouteConfiguration" where
  "sample_config = \<lparr>RouteTrie = NewTrie, Routes = [], Dynamic = True\<rparr>"

lemma sample_coordinator:
  "\<exists>rc0 rc1. CreateRouterCoordinator word_regex True sample_config Map.empty = Some (rc0, True)
     \<and> coord_run word_regex rc0 [AddEvent (sample_router ''1'' ''/u'' [] [] ''c'')] (Some rc1)
     \<and> waiter rc1 = Some Blocked \<and> timer rc1 = Some Armed"
proof -
  let ?r = "sample_router ''1'' ''/u'' [] [] ''c''"
  obtain rc0 where c: "CreateRouterCoordinator word_regex True sample_config Map.empty = Some (rc0, True)"
    and d: "debounce rc0 = 50000000" "timer rc0 = None"
    using ToSnapshot_init [of word_regex Map.empty "[]"]
    by (auto simp: CreateRouterCoordinator_def sample_config_def)
  have "OnAddRouter word_regex ?r rc0 =
      Some (rc0\<lparr>nextSnapshot := nextSnapshot rc0 @ [?r], timer := Some Armed, waiter := Some Blocked\<rparr>)"
    using d by (simp add: OnAddRouter_def schedulePublishLocked_def)
  with coord_run.step [OF coord_run.start coord_step.add, of word_regex rc0 ?r] c show ?thesis
    by fastforce
qed

theorem coordinator_consistent_witness:
  "\<exists>rc0 rc. CreateRouterCoordinator word_regex True sample_config Map.empty = Some (rc0, True)
     \<and> coord_run word_regex rc0 [AddEvent (sample_router ''1'' ''/u'' [] [] ''c'')] (Some rc)
     \<and> map ID (nextSnapshot rc) = [''1'']"
proof -
  obtain rc0 rc where
    c: "CreateRouterCoordinator word_regex True sample_config Map.empty = Some (rc0, True)"
    and r: "coord_run word_regex rc0 [AddEvent (sample_router ''1'' ''/u'' [] [] ''c'')] (Some rc)"
    using sample_coordinator by blast
  have "map (initRouter word_regex) (nextSnapshot rc) = map (initRouter word_regex)
      [sample_router ''1'' ''/u'' [] [] ''c'']"
    using coordinator_consistent [OF cache_ok_empty c r] by (simp add: wanted_def sample_config_def)
  then have "map ID (map (initRouter word_regex) (nextSnapshot rc)) = map ID (map (initRouter word_regex)
      [sample_router ''1'' ''/u'' [] [] ''c''])" by simp
  then have i: "map ID (nextSnapshot rc) = [''1'']" by (simp add: comp_def sample_router_def)
  show ?thesis by (rule exI, rule exI, rule conjI [OF c conjI [OF r i]])
qed

text \<open>
  C6: a change is published. Once the changes stop, at most three steps of the timer and the
  goroutine remain, in whatever order they happen, and when none is left the published snapshot is
  that of the configuration with every change applied.
\<close>

theorem coordinator_publishes:
  assumes "cache_ok compile cache"
    and "CreateRouterCoordinator compile manager cfg cache = Some (rc0, registered)"
    and "coord_run compile rc0 evs (Some rc)"
    and "coord_run compile rc ints (Some rc')" and "\<forall>ev \<in> set ints. internal ev"
  shows "length ints \<le> 3
    \<and> ((\<forall>ev res. internal ev \<longrightarrow> \<not> coord_step compile rc' ev res) \<longrightarrow>
         mainSnapshot rc' = Some (snapshot_of compile (wanted evs (Routes cfg))))"
proof -
  have start: "coord_inv compile (Routes cfg) [] rc0"
    using coord_inv_create [OF assms(1), of manager cfg] assms(2) by auto
  have inv: "coord_inv compile (Routes cfg) (evs @ ints) rc'"
    using coord_inv_run [OF coord_run_append [OF assms(4,3)] start] by simp
  have "length ints \<le> 3"
    using internal_run_work [OF assms(4,5) refl] work_left_le [of rc] by linarith
  moreover have "mainSnapshot rc' = Some (snapshot_of compile (wanted evs (Routes cfg)))"
    if "\<forall>ev res. internal ev \<longrightarrow> \<not> coord_step compile rc' ev res"
    using stuck_quiet [OF inv that] inv by (simp add: coord_inv_def wanted_internal [OF assms(5)])
  ultimately show ?thesis by blast
qed

theorem coordinator_publishes_witness:
  "\<exists>rc0 rc1. CreateRouterCoordinator word_regex True sample_config Map.empty = Some (rc0, True)
     \<and> coord_run word_regex rc0 [AddEvent (sample_router ''1'' ''/u'' [] [] ''c'')] (Some rc1)
     \<and> coord_run word_regex rc1 [FireEvent] (Some (rc1\<lparr>timer := Some Fired\<rparr>))
     \<and> length [FireEvent :: string event] \<le> 3"
proof -
  obtain rc0 rc1 where
    c: "CreateRouterCoordinator word_regex True sample_config Map.empty = Some (rc0, True)"
    and r: "coord_run word_regex rc0 [AddEvent (sample_router ''1'' ''/u'' [] [] ''c'')] (Some rc1)"
    and t: "timer rc1 = Some Armed"
    using sample_coordinator by blast
  have f: "coord_run word_regex rc1 [FireEvent] (Some (rc1\<lparr>timer := Some Fired\<rparr>))"
    using coord_run.step [OF coord_run.start coord_step.fire [OF t], of word_regex] by simp
  show ?thesis
    using c r f coordinator_publishes [OF cache_ok_empty c r f] by auto
qed

subsection \<open>The router manager\<close>

text \<open>
  The interface \<open>RouterListener\<close> as the manager uses it: on a listener in good order both methods
  return, keep it in good order, and change the routes it holds in the expected way. Routes are held
  in a normal form and deleted by their identity.
\<close>

locale router_listener =
  fixes onAdd onDelete :: "'r \<Rightarrow> 'c \<Rightarrow> 'c option"
    and good :: "'c \<Rightarrow> bool" and held :: "'c \<Rightarrow> 'r list"
    and normal :: "'r \<Rightarrow> 'r" and ident :: "'r \<Rightarrow> string"
  assumes onAdd_law: "good c \<Longrightarrow>
      \<exists>c'. onAdd r c = Some c' \<and> good c' \<and> held c' = held c @ [normal r]"
    and onDelete_law: "good c \<Longrightarrow>
      \<exists>c'. onDelete r c = Some c' \<and> good c' \<and> held c' = filter (\<lambda>x. ident x \<noteq> ident r) (held c)"
begin

lemma notify_step:
  assumes f: "\<And>c. good c \<Longrightarrow> \<exists>c'. f c = Some c' \<and> good c' \<and> held c' = g (held c)"
    and "distinct ls" and "\<forall>l \<in> set ls. \<exists>c. h l = Some c \<and> good c"
  shows "\<exists>h'. notify f ls h = Some h'
    \<and> (\<forall>l \<in> set ls. (\<exists>c. h' l = Some c \<and> good c)
         \<and> map_option held (h' l) = map_option (\<lambda>c. g (held c)) (h l))
    \<and> (\<forall>l. l \<notin> set ls \<longrightarrow> h' l = h l)"
  using assms(2,3)
proof (induction ls arbitrary: h)
  case Nil
  then show ?case by simp
next
  case (Cons l ls)
  then obtain c where c: "h l = Some c" "good c" by auto
  with f obtain c' where c': "f c = Some c'" "good c'" "held c' = g (held c)" by blast
  define h1 where "h1 = h(l \<mapsto> c')"
  have ok1: "\<forall>k \<in> set ls. \<exists>c. h1 k = Some c \<and> good c"
    using Cons.prems by (auto simp: h1_def)
  have d: "distinct ls" "l \<notin> set ls" using Cons.prems(1) by auto
  obtain h' where h': "notify f ls h1 = Some h'" "\<forall>k. k \<notin> set ls \<longrightarrow> h' k = h1 k"
    and rest: "\<forall>k \<in> set ls. (\<exists>c. h' k = Some c \<and> good c)
         \<and> map_option held (h' k) = map_option (\<lambda>c. g (held c)) (h1 k)"
    using Cons.IH [OF d(1) ok1] by blast
  have "h1 k = h k" if "k \<in> set ls" for k
    using that d by (auto simp: h1_def)
  moreover have "h' l = Some c'" "\<forall>k. k \<notin> set (l # ls) \<longrightarrow> h' k = h k"
    using h'(2) d by (auto simp: h1_def)
  moreover have "notify f (l # ls) h = Some h'"
    using c c' h'(1) by (simp add: h1_def)
  ultimately show ?case using rest c c' by auto
qed

lemma notify_routes_step:
  assumes f: "\<And>r c. good c \<Longrightarrow> \<exists>c'. f r c = Some c' \<and> good c' \<and> held c' = g r (held c)"
    and "distinct (rls rm)" and "\<forall>l \<in> set (rls rm). \<exists>c. h l = Some c \<and> good c"
  shows "\<exists>h'. notify_routes f rs rm h = Some h'
    \<and> (\<forall>l \<in> set (rls rm). (\<exists>c. h' l = Some c \<and> good c)
         \<and> map_option held (h' l) = map_option (\<lambda>c. fold g rs (held c)) (h l))
    \<and> (\<forall>l. l \<notin> set (rls rm) \<longrightarrow> h' l = h l)"
  using assms(3)
proof (induction rs arbitrary: h)
  case Nil
  then show ?case by simp
next
  case (Cons r rs)
  obtain h1 where h1: "notify (f r) (rls rm) h = Some h1" "\<forall>l. l \<notin> set (rls rm) \<longrightarrow> h1 l = h l"
    and held1: "\<forall>l \<in> set (rls rm). (\<exists>c. h1 l = Some c \<and> good c)
       \<and> map_option held (h1 l) = map_option (\<lambda>c. g r (held c)) (h l)"
    using notify_step [where f = "f r" and g = "g r", OF f assms(2) Cons.prems] by blast
  then have "\<forall>l \<in> set (rls rm). \<exists>c. h1 l = Some c \<and> good c" by blast
  from Cons.IH [OF this] obtain h2 where h2: "notify_routes f rs rm h1 = Some h2"
    "\<forall>l. l \<notin> set (rls rm) \<longrightarrow> h2 l = h1 l"
    and held2: "\<forall>l \<in> set (rls rm). (\<exists>c. h2 l = Some c \<and> good c)
       \<and> map_option held (h2 l) = map_option (\<lambda>c. fold g rs (held c)) (h1 l)"
    by blast
  have "map_option held (h2 l) = map_option (\<lambda>c. fold g (r # rs) (held c)) (h l)"
    if "l \<in> set (rls rm)" for l
    using held1 held2 that by (fastforce simp: map_option_case split: option.splits)
  with h1 h2 held2 show ?case by auto
qed

lemma fold_delete:
  "fold (\<lambda>r. filter (\<lambda>x. ident x \<noteq> ident r)) old rs = filter (\<lambda>x. ident x \<notin> ident ` set old) rs"
proof (induction old arbitrary: rs)
  case (Cons r old)
  then show ?case by (simp add: conj_commute)
qed simp

lemma fold_add: "fold (\<lambda>r rs. rs @ [normal r]) new rs = rs @ map normal new"
  by (induction new arbitrary: rs) simp_all

text \<open>Deleting the old routes and adding the new ones, at every listener.\<close>

lemma replace_routes:
  assumes "distinct (rls rm)" and "\<forall>l \<in> set (rls rm). \<exists>c. h l = Some c \<and> good c"
  shows "\<exists>h1 h2. notify_routes onDelete old rm h = Some h1 \<and> notify_routes onAdd new rm h1 = Some h2
    \<and> (\<forall>l \<in> set (rls rm). (\<exists>c. h2 l = Some c \<and> good c)
         \<and> map_option held (h2 l) = map_option
             (\<lambda>c. filter (\<lambda>x. ident x \<notin> ident ` set old) (held c) @ map normal new) (h l))
    \<and> (\<forall>l. l \<notin> set (rls rm) \<longrightarrow> h2 l = h l)"
proof -
  obtain h1 where h1: "notify_routes onDelete old rm h = Some h1"
    "\<forall>l. l \<notin> set (rls rm) \<longrightarrow> h1 l = h l"
    and held1: "\<forall>l \<in> set (rls rm). (\<exists>c. h1 l = Some c \<and> good c) \<and> map_option held (h1 l) =
       map_option (\<lambda>c. filter (\<lambda>x. ident x \<notin> ident ` set old) (held c)) (h l)"
    using notify_routes_step [where f = onDelete and rs = old, OF onDelete_law assms]
    unfolding fold_delete by blast
  then have "\<forall>l \<in> set (rls rm). \<exists>c. h1 l = Some c \<and> good c" by blast
  with notify_routes_step [where f = onAdd and rs = new, OF onAdd_law assms(1)]
  obtain h2 where h2: "notify_routes onAdd new rm h1 = Some h2"
    "\<forall>l. l \<notin> set (rls rm) \<longrightarrow> h2 l = h1 l"
    and held2: "\<forall>l \<in> set (rls rm). (\<exists>c. h2 l = Some c \<and> good c) \<and> map_option held (h2 l) =
       map_option (\<lambda>c. held c @ map normal new) (h1 l)"
    unfolding fold_add by blast
  have "map_option held (h2 l) = map_option
      (\<lambda>c. filter (\<lambda>x. ident x \<notin> ident ` set old) (held c) @ map normal new) (h l)"
    if "l \<in> set (rls rm)" for l
    using held1 held2 that by (fastforce simp: map_option_case split: option.splits)
  with h1 h2 held2 show ?thesis by auto
qed

end

text \<open>The routes a coordinator will publish, with their expressions compiled.\<close>

definition pending :: "(string \<Rightarrow> 're option) \<Rightarrow> 're RouterCoordinator \<Rightarrow> 're Router list" where
  "pending compile rc = map (initRouter compile) (nextSnapshot rc)"

lemma OnAddRouter_law:
  assumes "cache_ok compile (regexCache c)"
  shows "\<exists>c'. OnAddRouter compile r c = Some c' \<and> cache_ok compile (regexCache c')
      \<and> pending compile c' = pending compile c @ [initRouter compile r]"
  using schedulePublishLocked_ok [of compile "c\<lparr>nextSnapshot := nextSnapshot c @ [r]\<rparr>"] assms
  by (auto simp: OnAddRouter_def pending_def)

lemma OnDeleteRouter_law:
  assumes "cache_ok compile (regexCache c)"
  shows "\<exists>c'. OnDeleteRouter compile r c = Some c' \<and> cache_ok compile (regexCache c')
      \<and> pending compile c' = filter (\<lambda>rr. ID rr \<noteq> ID r) (pending compile c)"
  using schedulePublishLocked_ok
      [of compile "c\<lparr>nextSnapshot := filter (\<lambda>rr. ID rr \<noteq> ID r) (nextSnapshot c)\<rparr>"] assms
  by (auto simp: OnDeleteRouter_def pending_def map_init_filter)

interpretation coordinator_listener: router_listener "OnAddRouter compile" "OnDeleteRouter compile"
  "\<lambda>c. cache_ok compile (regexCache c)" "pending compile" "initRouter compile" ID
  for compile :: "string \<Rightarrow> 're option"
  by unfold_locales (fact OnAddRouter_law OnDeleteRouter_law)+

definition listeners_ok :: "(string \<Rightarrow> 're option) \<Rightarrow> RouterManager \<Rightarrow> 're listeners \<Rightarrow> bool" where
  "listeners_ok compile rm h \<longleftrightarrow> distinct (rls rm)
     \<and> (\<forall>l \<in> set (rls rm). \<exists>c. h l = Some c \<and> cache_ok compile (regexCache c))"

text \<open>The pending routes of the listener at an address.\<close>

definition pending_at ::
    "(string \<Rightarrow> 're option) \<Rightarrow> 're listeners \<Rightarrow> nat \<Rightarrow> 're Router list option" where
  "pending_at compile h l = map_option (pending compile) (h l)"

lemma validate_loop_None:
  "validate_loop ids rs = None \<longleftrightarrow> distinct (map ID rs) \<and> set ids \<inter> ID ` set rs = {}
     \<and> (\<forall>r \<in> set rs. (Prefix (router_Match r) \<noteq> '''' \<or> Path (router_Match r) \<noteq> '''')
          \<and> Cluster (router_Route r) \<noteq> '''')"
  by (induction rs arbitrary: ids) auto

text \<open>
  C19: a bulk update. \<open>UpdateRoutes\<close> accepts the new routes exactly when their IDs are distinct and
  each has a prefix or a path and a cluster; otherwise it returns an error and no listener has
  changed. When it accepts, it does not panic, and every registered coordinator is left with its
  routes whose IDs are not among the old ones, followed by the new routes in order; coordinators
  that are not registered are untouched.
\<close>

theorem UpdateRoutes_effect:
  assumes "listeners_ok compile rm h"
  shows "if distinct (map ID new)
       \<and> (\<forall>r \<in> set new. (Prefix (router_Match r) \<noteq> '''' \<or> Path (router_Match r) \<noteq> '''')
            \<and> Cluster (router_Route r) \<noteq> '''')
    then (\<exists>h'. UpdateRoutes compile old new rm h = Some (None, h') \<and> listeners_ok compile rm h'
      \<and> (\<forall>l \<in> set (rls rm). pending_at compile h' l = map_option
           (\<lambda>rs. filter (\<lambda>rr. ID rr \<notin> ID ` set old) rs @ map (initRouter compile) new)
           (pending_at compile h l))
      \<and> (\<forall>l. l \<notin> set (rls rm) \<longrightarrow> h' l = h l))
    else (\<exists>e. UpdateRoutes compile old new rm h = Some (Some e, h))"
proof (cases "validateRoutes new")
  case None
  from assms obtain h1 h2 where h: "notify_routes (OnDeleteRouter compile) old rm h = Some h1"
    "notify_routes (OnAddRouter compile) new rm h1 = Some h2"
    "\<forall>l. l \<notin> set (rls rm) \<longrightarrow> h2 l = h l"
    and held: "\<forall>l \<in> set (rls rm). (\<exists>c. h2 l = Some c \<and> cache_ok compile (regexCache c))
      \<and> map_option (pending compile) (h2 l) = map_option
          (\<lambda>c. filter (\<lambda>rr. ID rr \<notin> ID ` set old) (pending compile c)
             @ map (initRouter compile) new) (h l)"
    using coordinator_listener.replace_routes [of rm h compile old new]
    unfolding listeners_ok_def by blast
  have "UpdateRoutes compile old new rm h = Some (None, h2)"
    using None h(1,2) by (simp add: UpdateRoutes_def)
  moreover have "listeners_ok compile rm h2" using assms held by (auto simp: listeners_ok_def)
  ultimately show ?thesis
    using None [unfolded validateRoutes_def validate_loop_None] h(3) held
    by (simp add: pending_at_def option.map_comp comp_def)
next
  case (Some e)
  then have "validate_loop [] new \<noteq> None" by (simp add: validateRoutes_def)
  with Some show ?thesis unfolding validate_loop_None by (simp add: UpdateRoutes_def)
qed

theorem UpdateRoutes_effect_witness:
  "\<exists>rc0. CreateRouterCoordinator word_regex True sample_config Map.empty = Some (rc0, True)
     \<and> listeners_ok word_regex \<lparr>rls = [7]\<rparr> (Map.empty(7 \<mapsto> rc0))
     \<and> (\<exists>h'. UpdateRoutes word_regex [] [sample_router ''1'' ''/u'' [] [] ''c''] \<lparr>rls = [7]\<rparr>
              (Map.empty(7 \<mapsto> rc0)) = Some (None, h'))"
proof -
  obtain rc0 where
    c: "CreateRouterCoordinator word_regex True sample_config Map.empty = Some (rc0, True)"
    using sample_coordinator by blast
  have "coord_inv word_regex (Routes sample_config) [] rc0"
    using coord_inv_create [OF cache_ok_empty, of word_regex True sample_config] c by auto
  then have l: "listeners_ok word_regex \<lparr>rls = [7]\<rparr> (Map.empty(7 \<mapsto> rc0))"
    by (simp add: listeners_ok_def coord_inv_def)
  have u: "\<exists>h'. UpdateRoutes word_regex [] [sample_router ''1'' ''/u'' [] [] ''c''] \<lparr>rls = [7]\<rparr>
      (Map.empty(7 \<mapsto> rc0)) = Some (None, h')"
    using UpdateRoutes_effect [OF l, of "[sample_router ''1'' ''/u'' [] [] ''c'']" "[]"]
    by (auto simp: sample_router_def)
  show ?thesis by (rule exI, rule conjI [OF c conjI [OF l u]])
qed

end
