(* ===== verification/Pixiu_SpringCloud.thy ===== *)
theory Pixiu_SpringCloud
  imports Pixiu_ManagerRun Pixiu_Coordinator
begin

text \<open>
  The Spring Cloud adapter (\<open>pkg/adapter/springcloud/cloud.go\<close> and
  \<open>servicediscovery/servicediscovery.go\<close>): it turns service instances of a registry into endpoints of
  clusters and into routes, through the cluster manager and the router manager. The registry is a
  parameter: what its queries return. A nil dereference is \<open>None\<close>.
\<close>

section \<open>Service instances\<close>

record ServiceInstance =
  si_ID :: string
  ServiceName :: string
  si_Host :: string
  si_Port :: int
  si_Healthy :: bool
  CLusterName :: string
  Enable :: bool
  si_Metadata :: "(string \<times> string) list"

definition GetUniqKey :: "ServiceInstance \<Rightarrow> string" where
  "GetUniqKey i = ServiceName i @ si_Host i @ show_int (si_Port i)"

definition ToEndpoint :: "ServiceInstance \<Rightarrow> Endpoint" where
  "ToEndpoint i =
     (let a = \<lparr>sa_Address = si_Host i, sa_Port = si_Port i, ResolverName = '''', Domains = [], CertsDir = ''''\<rparr>
      in \<lparr>ep_ID = si_ID i, ep_Name = ServiceName i, ep_Address = a, ep_Metadata = si_Metadata i,
          UnHealthy = False, ep_LLMMeta = None\<rparr>)"

definition ToRoute :: "ServiceInstance \<Rightarrow> 're Router" where
  "ToRoute i =
     (let rm = NewRouterMatchPrefix (ServiceName i);
          ra = \<lparr>Cluster = ServiceName i, ClusterNotFoundResponseCode = 0\<rparr>
      in \<lparr>ID = ServiceName i, router_Match = rm, router_Route = ra\<rparr>)"

section \<open>The adapter\<close>

text \<open>
  The services known are the keys of a map whose values repeat them. The settings of the configuration
  that only the wiring of the clients and the ticker read are left out.
\<close>

record CloudAdapter =
  Services :: "string list"
  SubscribePolicy :: string
  currentService :: "string list"

record registry =
  QueryAllServices :: "string + ServiceInstance list"
  QueryServicesByName :: "string list \<Rightarrow> string + ServiceInstance list"

record ('h, 're) gateway =
  gw_sys :: "'h system"
  gw_rm :: RouterManager
  gw_listeners :: "'re listeners"

definition CreateAdapter :: CloudAdapter where
  "CreateAdapter = \<lparr>Services = [], SubscribePolicy = '''', currentService = []\<rparr>"

definition checkHasExistService :: "string \<Rightarrow> CloudAdapter \<Rightarrow> bool" where
  "checkHasExistService name a \<longleftrightarrow> name \<in> set (currentService a)"

definition addNewService :: "ServiceInstance \<Rightarrow> CloudAdapter \<Rightarrow> CloudAdapter" where
  "addNewService i a = a\<lparr>currentService := List.insert (ServiceName i) (currentService a)\<rparr>"

definition GetServiceNames :: "CloudAdapter \<Rightarrow> string list" where
  "GetServiceNames a = currentService a"

fun current_services :: "ServiceInstance list \<Rightarrow> string list \<Rightarrow> string list" where
  "current_services [] m = m"
| "current_services (i # is) m =
     (if ServiceName i \<in> set m then current_services is m else current_services is (m @ [ServiceName i]))"

definition clearAndSetCurrentService :: "ServiceInstance list \<Rightarrow> CloudAdapter \<Rightarrow> CloudAdapter" where
  "clearAndSetCurrentService instances a = a\<lparr>currentService := current_services instances []\<rparr>"

text \<open>\<open>strings.EqualFold\<close> with a text of ASCII letters that have no other case forms.\<close>

definition subscribeServiceDefinitely :: "CloudAdapter \<Rightarrow> bool" where
  "subscribeServiceDefinitely a \<longleftrightarrow> lower (SubscribePolicy a) = ''definitely''"

definition fetchServiceByConfig :: "registry \<Rightarrow> CloudAdapter \<Rightarrow> string + ServiceInstance list" where
  "fetchServiceByConfig sd a =
     (if subscribeServiceDefinitely a then
        (if Services a \<noteq> [] then QueryServicesByName sd (Services a) else Inr [])
      else
        (if Services a \<noteq> [] then QueryServicesByName sd (Services a) else QueryAllServices sd))"

subsection \<open>Events of the registry\<close>

definition OnAddServiceInstance ::
    "'h factories \<Rightarrow> (string \<Rightarrow> 're option) \<Rightarrow> ServiceInstance \<Rightarrow> CloudAdapter \<Rightarrow> ('h, 're) gateway
     \<Rightarrow> (CloudAdapter \<times> ('h, 're) gateway) option" where
  "OnAddServiceInstance fs compile i a gw =
     (let endpoint = ToEndpoint i;
          gw = gw\<lparr>gw_sys := SetEndpoint fs (ep_Name endpoint) (Some endpoint) (gw_sys gw)\<rparr>
      in if checkHasExistService (ep_Name endpoint) a then Some (a, gw)
         else
           (let a = addNewService i a
            in case AddRouter compile (ToRoute i) (gw_rm gw) (gw_listeners gw) of
                 None \<Rightarrow> None
               | Some ls \<Rightarrow> Some (a, gw\<lparr>gw_listeners := ls\<rparr>)))"

definition OnDeleteServiceInstance ::
    "'h factories \<Rightarrow> ServiceInstance \<Rightarrow> ('h, 're) gateway \<Rightarrow> ('h, 're) gateway option" where
  "OnDeleteServiceInstance fs i gw =
     (let endpoint = ToEndpoint i
      in map_option (\<lambda>sys. gw\<lparr>gw_sys := sys\<rparr>) (DeleteEndpoint fs (ep_Name endpoint) (ep_ID endpoint) (gw_sys gw)))"

definition OnUpdateServiceInstance ::
    "'h factories \<Rightarrow> ServiceInstance \<Rightarrow> ('h, 're) gateway \<Rightarrow> ('h, 're) gateway" where
  "OnUpdateServiceInstance fs i gw =
     (let endpoint = ToEndpoint i
      in gw\<lparr>gw_sys := SetEndpoint fs (ep_Name endpoint) (Some endpoint) (gw_sys gw)\<rparr>)"

subsection \<open>Queries of the registry\<close>

fun first_fetch ::
    "'h factories \<Rightarrow> (string \<Rightarrow> 're option) \<Rightarrow> ServiceInstance list \<Rightarrow> ('h, 're) gateway \<Rightarrow> ('h, 're) gateway option" where
  "first_fetch fs compile [] gw = Some gw"
| "first_fetch fs compile (i # is) gw =
     (let endpoint = ToEndpoint i;
          gw = gw\<lparr>gw_sys := SetEndpoint fs (ep_Name endpoint) (Some endpoint) (gw_sys gw)\<rparr>
      in case AddRouter compile (ToRoute i) (gw_rm gw) (gw_listeners gw) of
           None \<Rightarrow> None
         | Some ls \<Rightarrow> first_fetch fs compile is (gw\<lparr>gw_listeners := ls\<rparr>))"

definition firstFetch ::
    "'h factories \<Rightarrow> (string \<Rightarrow> 're option) \<Rightarrow> registry \<Rightarrow> CloudAdapter \<Rightarrow> ('h, 're) gateway
     \<Rightarrow> (string option \<times> CloudAdapter \<times> ('h, 're) gateway) option" where
  "firstFetch fs compile sd a gw =
     (case fetchServiceByConfig sd a of
        Inl err \<Rightarrow> Some (Some err, a, gw)
      | Inr instances \<Rightarrow>
          (case first_fetch fs compile instances gw of
             None \<Rightarrow> None
           | Some gw \<Rightarrow> Some (None, clearAndSetCurrentService instances a, gw)))"

text \<open>The loops of \<open>fetchCompareAndSet\<close> over the configurations of a store; \<open>HasCluster\<close> is asked of the other.\<close>

fun delete_routes ::
    "(string \<Rightarrow> 're option) \<Rightarrow> 'h ClusterStore \<Rightarrow> RouterManager \<Rightarrow> 'h ClusterConfig option list \<Rightarrow> 're listeners
     \<Rightarrow> 're listeners option" where
  "delete_routes compile newStore rm [] ls = Some ls"
| "delete_routes compile newStore rm (None # cs) ls = None"
| "delete_routes compile newStore rm (Some c # cs) ls =
     (case store_HasCluster (cc_Name c) newStore of
        None \<Rightarrow> None
      | Some True \<Rightarrow> delete_routes compile newStore rm cs ls
      | Some False \<Rightarrow>
          (case DeleteRouter compile \<lparr>ID = cc_Name c,
                  router_Match = \<lparr>Prefix = '''', Path = '''', Methods = [], Headers = []\<rparr>,
                  router_Route = \<lparr>Cluster = '''', ClusterNotFoundResponseCode = 0\<rparr>\<rparr> rm ls of
             None \<Rightarrow> None
           | Some ls \<Rightarrow> delete_routes compile newStore rm cs ls))"

fun add_routes ::
    "(string \<Rightarrow> 're option) \<Rightarrow> 'h ClusterStore \<Rightarrow> RouterManager \<Rightarrow> 'h ClusterConfig option list \<Rightarrow> 're listeners
     \<Rightarrow> 're listeners option" where
  "add_routes compile oldStore rm [] ls = Some ls"
| "add_routes compile oldStore rm (None # cs) ls = None"
| "add_routes compile oldStore rm (Some c # cs) ls =
     (case store_HasCluster (cc_Name c) oldStore of
        None \<Rightarrow> None
      | Some True \<Rightarrow> add_routes compile oldStore rm cs ls
      | Some False \<Rightarrow>
          (let match = NewRouterMatchPrefix (cc_Name c);
               route = \<lparr>Cluster = cc_Name c, ClusterNotFoundResponseCode = 0\<rparr>;
               added = \<lparr>ID = cc_Name c, router_Match = match, router_Route = route\<rparr>
           in case AddRouter compile added rm ls of
                None \<Rightarrow> None
              | Some ls \<Rightarrow> add_routes compile oldStore rm cs ls))"

text \<open>
  A failed clone leaves \<open>oldStore\<close> nil, and its version is read nevertheless. The subscription of the
  registry (\<open>watch\<close>) does not touch the state. A new store that is swapped in is the store of the
  manager from then on.
\<close>

definition fetchCompareAndSet ::
    "'h factories \<Rightarrow> (string \<Rightarrow> 're option)
     \<Rightarrow> ('h ClusterConfig option list \<times> 32 word \<Rightarrow> string + 'h ClusterConfig option list \<times> 32 word)
     \<Rightarrow> registry \<Rightarrow> CloudAdapter \<Rightarrow> ('h, 're) gateway \<Rightarrow> ('h, 're) gateway option" where
  "fetchCompareAndSet fs compile reread sd a gw =
     (case fetchServiceByConfig sd a of
        Inl err \<Rightarrow> Some gw
      | Inr instances \<Rightarrow>
          (let sys = gw_sys gw
           in case CloneStore reread (mgr sys) of
                Inl err \<Rightarrow> None
              | Inr oldStore \<Rightarrow>
                  (let (p, newStore) = set_endpoints fs (map (\<lambda>i. (ep_Name (ToEndpoint i), ToEndpoint i)) instances)
                         (proc sys) (NewStore (Version oldStore))
                   in case delete_routes compile newStore (gw_rm gw) (st_Config oldStore) (gw_listeners gw) of
                        None \<Rightarrow> None
                      | Some ls \<Rightarrow>
                          (let (ret, sys) = CompareAndSetStore fs (Some newStore) (sys\<lparr>proc := p\<rparr>);
                               gw = gw\<lparr>gw_sys := sys, gw_listeners := ls\<rparr>
                           in if \<not> ret then Some gw
                              else
                                (case add_routes compile oldStore (gw_rm gw) (st_Config (cm_store (mgr sys))) ls of
                                   None \<Rightarrow> None
                                 | Some ls \<Rightarrow> Some (gw\<lparr>gw_listeners := ls\<rparr>))))))"

section \<open>Routes at the listeners\<close>

text \<open>The identities of the routes that the registered listeners hold, under a change of them.\<close>

definition routes_change ::
    "(string \<Rightarrow> 're option) \<Rightarrow> RouterManager \<Rightarrow> (string set \<Rightarrow> string set) \<Rightarrow> 're listeners \<Rightarrow> 're listeners \<Rightarrow> bool" where
  "routes_change compile rm f ls ls' \<longleftrightarrow>
     listeners_ok compile rm ls'
     \<and> (\<forall>l \<in> set (rls rm). \<forall>rs. pending_at compile ls l = Some rs \<longrightarrow>
          (\<exists>rs'. pending_at compile ls' l = Some rs' \<and> ID ` set rs' = f (ID ` set rs)))"

lemma routes_changeD:
  assumes "routes_change compile rm f ls ls'" and "l \<in> set (rls rm)" and "pending_at compile ls l = Some rs"
  shows "\<exists>rs'. pending_at compile ls' l = Some rs' \<and> ID ` set rs' = f (ID ` set rs)"
  using assms unfolding routes_change_def by blast

lemma routes_change_refl: "listeners_ok compile rm ls \<Longrightarrow> routes_change compile rm (\<lambda>ids. ids) ls ls"
  by (simp add: routes_change_def)

lemma routes_change_trans:
  assumes "routes_change compile rm f ls ls1" and "routes_change compile rm g ls1 ls2"
  shows "routes_change compile rm (\<lambda>ids. g (f ids)) ls ls2"
  unfolding routes_change_def
proof (intro conjI ballI allI impI)
  show "listeners_ok compile rm ls2" using assms(2) by (simp add: routes_change_def)
  fix l rs assume l: "l \<in> set (rls rm)" "pending_at compile ls l = Some rs"
  then obtain rs1 where rs1: "pending_at compile ls1 l = Some rs1" "ID ` set rs1 = f (ID ` set rs)"
    using routes_changeD [OF assms(1)] by blast
  then obtain rs2 where "pending_at compile ls2 l = Some rs2" "ID ` set rs2 = g (ID ` set rs1)"
    using routes_changeD [OF assms(2) l(1)] by blast
  with rs1 show "\<exists>rs'. pending_at compile ls2 l = Some rs' \<and> ID ` set rs' = g (f (ID ` set rs))" by auto
qed

lemma notify_routes_change:
  assumes ok: "listeners_ok compile rm ls"
    and f: "\<And>c. cache_ok compile (regexCache c) \<Longrightarrow> \<exists>c'. f c = Some c' \<and> cache_ok compile (regexCache c')
      \<and> pending compile c' = g (pending compile c)"
    and h: "\<And>rs. ID ` set (g rs) = h (ID ` set rs)"
  shows "\<exists>ls'. notify f (rls rm) ls = Some ls' \<and> routes_change compile rm h ls ls'"
proof -
  have d: "distinct (rls rm)" "\<forall>l \<in> set (rls rm). \<exists>c. ls l = Some c \<and> cache_ok compile (regexCache c)"
    using ok by (simp_all add: listeners_ok_def)
  obtain ls' where ls': "notify f (rls rm) ls = Some ls'"
    "\<forall>l \<in> set (rls rm). (\<exists>c. ls' l = Some c \<and> cache_ok compile (regexCache c))
       \<and> map_option (pending compile) (ls' l) = map_option (\<lambda>c. g (pending compile c)) (ls l)"
    using coordinator_listener.notify_step [where f = f and g = g and compile = compile, OF f d] by blast
  have "\<exists>rs'. pending_at compile ls' l = Some rs' \<and> ID ` set rs' = h (ID ` set rs)"
    if l: "l \<in> set (rls rm)" and rs: "pending_at compile ls l = Some rs" for l rs
  proof -
    obtain c where "ls l = Some c" "pending compile c = rs" using rs by (auto simp: pending_at_def)
    then show ?thesis using ls'(2) l h by (auto simp: pending_at_def)
  qed
  moreover have "listeners_ok compile rm ls'" using ls'(2) d by (auto simp: listeners_ok_def)
  ultimately show ?thesis using ls'(1) by (auto simp: routes_change_def)
qed

lemma AddRouter_change:
  assumes "listeners_ok compile rm ls"
  shows "\<exists>ls'. AddRouter compile r rm ls = Some ls' \<and> routes_change compile rm (\<lambda>ids. insert (ID r) ids) ls ls'"
  unfolding AddRouter_def by (rule notify_routes_change [OF assms, where g = "\<lambda>rs. rs @ [initRouter compile r]"])
    (auto intro: OnAddRouter_law)

lemma DeleteRouter_change:
  assumes "listeners_ok compile rm ls"
  shows "\<exists>ls'. DeleteRouter compile r rm ls = Some ls' \<and> routes_change compile rm (\<lambda>ids. ids - {ID r}) ls ls'"
  unfolding DeleteRouter_def by (rule notify_routes_change [OF assms, where g = "filter (\<lambda>x. ID x \<noteq> ID r)"])
    (auto intro: OnDeleteRouter_law)

lemma routes_change_ok: "routes_change compile rm f ls ls' \<Longrightarrow> listeners_ok compile rm ls'"
  by (simp add: routes_change_def)

lemma routes_change_cong: "routes_change compile rm f ls ls' \<Longrightarrow> (\<And>ids. f ids = g ids) \<Longrightarrow> routes_change compile rm g ls ls'"
  by (simp add: routes_change_def)

lemma delete_routes_change:
  assumes "listeners_ok compile rm ls" and has: "\<And>n. store_HasCluster n newStore = Some (n \<in> new)"
  shows "\<exists>ls'. delete_routes compile newStore rm (map Some cs) ls = Some ls'
    \<and> routes_change compile rm (\<lambda>ids. ids - (cc_Name ` set cs - new)) ls ls'"
  using assms(1)
proof (induction cs arbitrary: ls)
  case Nil
  then show ?case by (simp add: routes_change_refl)
next
  case (Cons c cs)
  show ?case
  proof (cases "cc_Name c \<in> new")
    case True
    with Cons.IH [OF Cons.prems] show ?thesis by (auto simp: has intro: routes_change_cong)
  next
    case False
    obtain ls1 where ls1: "DeleteRouter compile \<lparr>ID = cc_Name c,
        router_Match = \<lparr>Prefix = '''', Path = '''', Methods = [], Headers = []\<rparr>,
        router_Route = \<lparr>Cluster = '''', ClusterNotFoundResponseCode = 0\<rparr>\<rparr> rm ls = Some ls1"
      "routes_change compile rm (\<lambda>ids. ids - {cc_Name c}) ls ls1"
      using DeleteRouter_change [OF Cons.prems] by fastforce
    from Cons.IH [OF routes_change_ok [OF ls1(2)]] obtain ls2 where
      ls2: "delete_routes compile newStore rm (map Some cs) ls1 = Some ls2"
      "routes_change compile rm (\<lambda>ids. ids - (cc_Name ` set cs - new)) ls1 ls2" by blast
    have "routes_change compile rm (\<lambda>ids. ids - (cc_Name ` set (c # cs) - new)) ls ls2"
      by (rule routes_change_cong [OF routes_change_trans [OF ls1(2) ls2(2)]]) (use False in auto)
    with ls1(1) ls2(1) False show ?thesis by (simp add: has)
  qed
qed

lemma add_routes_change:
  assumes "listeners_ok compile rm ls" and has: "\<And>n. store_HasCluster n oldStore = Some (n \<in> old)"
  shows "\<exists>ls'. add_routes compile oldStore rm (map Some cs) ls = Some ls'
    \<and> routes_change compile rm (\<lambda>ids. ids \<union> (cc_Name ` set cs - old)) ls ls'"
  using assms(1)
proof (induction cs arbitrary: ls)
  case Nil
  then show ?case by (simp add: routes_change_refl)
next
  case (Cons c cs)
  show ?case
  proof (cases "cc_Name c \<in> old")
    case True
    with Cons.IH [OF Cons.prems] show ?thesis by (auto simp: has intro: routes_change_cong)
  next
    case False
    obtain ls1 where ls1: "AddRouter compile \<lparr>ID = cc_Name c, router_Match = NewRouterMatchPrefix (cc_Name c),
        router_Route = \<lparr>Cluster = cc_Name c, ClusterNotFoundResponseCode = 0\<rparr>\<rparr> rm ls = Some ls1"
      "routes_change compile rm (\<lambda>ids. insert (cc_Name c) ids) ls ls1"
      using AddRouter_change [OF Cons.prems] by fastforce
    from Cons.IH [OF routes_change_ok [OF ls1(2)]] obtain ls2 where
      ls2: "add_routes compile oldStore rm (map Some cs) ls1 = Some ls2"
      "routes_change compile rm (\<lambda>ids. ids \<union> (cc_Name ` set cs - old)) ls1 ls2" by blast
    have "routes_change compile rm (\<lambda>ids. ids \<union> (cc_Name ` set (c # cs) - old)) ls ls2"
      by (rule routes_change_cong [OF routes_change_trans [OF ls1(2) ls2(2)]]) (use False in auto)
    with ls1(1) ls2(1) False show ?thesis by (simp add: has Let_def)
  qed
qed

section \<open>The reconciliation\<close>

text \<open>What is relied on of the YAML round trip: it keeps the version and the names of the clusters.\<close>

definition rereads ::
    "('h ClusterConfig option list \<times> 32 word \<Rightarrow> string + 'h ClusterConfig option list \<times> 32 word) \<Rightarrow> 'h ClusterStore \<Rightarrow> bool" where
  "rereads reread s \<longleftrightarrow>
     (\<exists>cs. reread (st_Config s, Version s) = Inr (map Some cs, Version s) \<and> map cc_Name cs = map cc_Name (configs s))"

text \<open>The clusters become the services; routes of clusters that left go, and those of new ones come.\<close>

definition reconciled ::
    "(string \<Rightarrow> 're option) \<Rightarrow> string set \<Rightarrow> ('h, 're) gateway \<Rightarrow> ('h, 're) gateway \<Rightarrow> bool" where
  "reconciled compile services gw gw' \<longleftrightarrow>
     gw_rm gw' = gw_rm gw \<and> system_ok (gw_sys gw') \<and> names (store_of (gw_sys gw')) = services
     \<and> routes_change compile (gw_rm gw)
          (\<lambda>ids. (ids - (names (store_of (gw_sys gw)) - services)) \<union> (services - names (store_of (gw_sys gw))))
          (gw_listeners gw) (gw_listeners gw')"

lemma reconciled_ids:
  assumes "reconciled compile services gw gw'" and "l \<in> set (rls (gw_rm gw))" and "pending_at compile (gw_listeners gw) l = Some rs"
  shows "\<exists>rs'. pending_at compile (gw_listeners gw') l = Some rs' \<and> ID ` set rs' =
    (ID ` set rs - (names (store_of (gw_sys gw)) - services)) \<union> (services - names (store_of (gw_sys gw)))"
  using routes_changeD [OF _ assms(2,3)] assms(1) unfolding reconciled_def by blast

lemma reconciled_ok: "reconciled compile services gw gw' \<Longrightarrow> listeners_ok compile (gw_rm gw') (gw_listeners gw')"
  unfolding reconciled_def by (metis routes_change_ok)

lemma fetchCompareAndSet_ok:
  assumes ok: "system_ok (gw_sys gw)" and ls: "listeners_ok compile (gw_rm gw) (gw_listeners gw)"
    and rr: "rereads reread (store_of (gw_sys gw))"
    and fetch: "fetchServiceByConfig sd a = Inr instances" and ne: "'''' \<notin> ServiceName ` set instances"
  shows "\<exists>gw'. fetchCompareAndSet fs compile reread sd a gw = Some gw' \<and> reconciled compile (ServiceName ` set instances) gw gw'"
proof -
  let ?sys = "gw_sys gw" and ?rm = "gw_rm gw"
  let ?old = "names (store_of ?sys)" and ?new = "ServiceName ` set instances"
  obtain cs where cs: "reread (st_Config (store_of ?sys), Version (store_of ?sys)) = Inr (map Some cs, Version (store_of ?sys))"
    "map cc_Name cs = map cc_Name (configs (store_of ?sys))" using rr by (auto simp: rereads_def)
  define oldStore where "oldStore = (\<lparr>st_Config = map Some cs, Version = Version (store_of ?sys), clustersMap = []\<rparr> :: 'a ClusterStore)"
  have clone: "CloneStore reread (mgr ?sys) = Inr oldStore" using cs(1) by (simp add: CloneStore_def cloneClusterStore_def oldStore_def)
  have old: "cc_Name ` set cs = ?old" using cs(2) by (metis set_map)
  have hasOld: "store_HasCluster n oldStore = Some (n \<in> ?old)" for n
    unfolding old [symmetric] by (simp add: store_HasCluster_def oldStore_def has_cluster_map)
  define es where "es = map (\<lambda>i. (ep_Name (ToEndpoint i), ToEndpoint i)) instances"
  have es: "fst ` set es = ?new" "'''' \<notin> fst ` set es" using ne by (force simp: es_def ToEndpoint_def)+
  obtain p k where f: "set_endpoints fs es (proc ?sys) (NewStore (Version (store_of ?sys))) = (p, k)" by force
  have "\<forall>c \<in> set (configs (NewStore (Version (store_of ?sys)) :: 'a ClusterStore)). HealthChecks c = []" by (simp add: NewStore_def)
  from set_endpoints_ok [OF NewStore_ok(1) this es(2) f]
  have k: "Pixiu_ClusterStore.store_ok p k" "names k = ?new" by (simp_all add: NewStore_ok(3) es(1) del: set_somes)
  have hasNew: "store_HasCluster n k = Some (n \<in> ?new)" for n using store_HasCluster_ok [OF k(1)] k(2) by simp
  from delete_routes_change [OF ls hasNew, of cs] obtain ls1 where
    ls1: "delete_routes compile k ?rm (st_Config oldStore) (gw_listeners gw) = Some ls1"
    "routes_change compile ?rm (\<lambda>ids. ids - (?old - ?new)) (gw_listeners gw) ls1"
    unfolding old by (auto simp: oldStore_def)
  obtain b sys' where swap: "CompareAndSetStore fs (Some k) (?sys\<lparr>proc := p\<rparr>) = (b, sys')" by force
  then have "swap_in_endpoints fs (Version (store_of ?sys)) es ?sys = (b, sys')" using f by (simp add: swap_in_endpoints_def)
  from swap_in_endpoints_step [OF ok es(2) this] es(1)
  have s': "b" "system_ok sys'" "names (store_of sys') = ?new" by (auto simp del: set_somes)
  have cfg: "st_Config (store_of sys') = map Some (configs (store_of sys'))" using s'(2) by (simp add: system_ok_def Pixiu_ClusterStore.store_ok_def)
  from add_routes_change [OF routes_change_ok [OF ls1(2)] hasOld, of "configs (store_of sys')"] obtain ls2 where
    ls2: "add_routes compile oldStore ?rm (st_Config (store_of sys')) ls1 = Some ls2"
    "routes_change compile ?rm (\<lambda>ids. ids \<union> (?new - ?old)) ls1 ls2"
    unfolding s'(3) cfg [symmetric] by blast
  have "fetchCompareAndSet fs compile reread sd a gw = Some (gw\<lparr>gw_sys := sys', gw_listeners := ls2\<rparr>)"
    using fetch clone f ls1(1) swap s'(1) ls2(1)
    by (simp add: fetchCompareAndSet_def Let_def es_def oldStore_def)
  moreover have "reconciled compile ?new gw (gw\<lparr>gw_sys := sys', gw_listeners := ls2\<rparr>)"
    using s' routes_change_trans [OF ls1(2) ls2(2)] by (simp add: reconciled_def del: set_somes)
  ultimately show ?thesis by blast
qed


text \<open>
  C11: a route that is lost. When a service that the adapter still lists as known has no route any
  more, as a reconciliation without the service leaves it, neither the event of a new instance of the
  service nor the next reconciliation that finds the service brings the route back, although the cluster
  exists: the event skips known services, and the reconciliation adds routes for new clusters only.
\<close>

theorem cloud_route_lost:
  assumes "reachable fs strategies (gw_sys gw)" and "\<forall>n b. strategies n = Some b \<longrightarrow> polite b"
    and "listeners_ok compile (gw_rm gw) (gw_listeners gw)"
    and "rereads reread (store_of (SetEndpoint fs (ServiceName i) (Some (ToEndpoint i)) (gw_sys gw)))"
    and "ServiceName i \<in> set (currentService a)" and "ServiceName i \<noteq> ''''"
    and "\<forall>l \<in> set (rls (gw_rm gw)). \<forall>rs. pending_at compile (gw_listeners gw) l = Some rs \<longrightarrow> ServiceName i \<notin> ID ` set rs"
    and "fetchServiceByConfig sd a = Inr instances" and "i \<in> set instances" and "'''' \<notin> ServiceName ` set instances"
  shows "\<exists>gw1 gw2. OnAddServiceInstance fs compile i a gw = Some (a, gw1)
    \<and> fetchCompareAndSet fs compile reread sd a gw1 = Some gw2
    \<and> ServiceName i \<in> names (store_of (gw_sys gw2)) \<and> gw_rm gw2 = gw_rm gw
    \<and> (\<forall>l \<in> set (rls (gw_rm gw2)). \<forall>rs. pending_at compile (gw_listeners gw2) l = Some rs \<longrightarrow> ServiceName i \<notin> ID ` set rs)"
proof -
  note ok = reachable_ok [OF assms(1,2)]
  let ?n = "ServiceName i" and ?e = "ToEndpoint i"
  have e: "ep_Name ?e = ?n" by (simp add: ToEndpoint_def)
  define gw1 where "gw1 = gw\<lparr>gw_sys := SetEndpoint fs ?n (Some ?e) (gw_sys gw)\<rparr>"
  have on: "OnAddServiceInstance fs compile i a gw = Some (a, gw1)"
    using assms(5) by (simp add: OnAddServiceInstance_def checkHasExistService_def Let_def e gw1_def)
  have ok1: "system_ok (gw_sys gw1)" using SetEndpoint_step [OF ok assms(6)] by (simp add: gw1_def)
  have "findClusterConfig ?n (store_of (gw_sys gw1)) \<noteq> None"
    using SetEndpoint_found [OF ok assms(6), of fs ?e] by (auto simp: gw1_def)
  then have known: "?n \<in> names (store_of (gw_sys gw1))"
    using no_config [of "proc (gw_sys gw1)" "store_of (gw_sys gw1)" ?n] ok1
    by (auto simp: findClusterConfig_def system_ok_def simp del: set_somes split: option.splits)
  have ls1: "listeners_ok compile (gw_rm gw1) (gw_listeners gw1)" using assms(3) by (simp add: gw1_def)
  obtain gw2 where gw2: "fetchCompareAndSet fs compile reread sd a gw1 = Some gw2"
    "reconciled compile (ServiceName ` set instances) gw1 gw2"
    using fetchCompareAndSet_ok [OF ok1 ls1 _ assms(8,10)] assms(4) by (auto simp: gw1_def)
  have "?n \<notin> ID ` set rs2" if l: "l \<in> set (rls (gw_rm gw))" and rs2: "pending_at compile (gw_listeners gw2) l = Some rs2" for l rs2
  proof -
    obtain rs where rs: "pending_at compile (gw_listeners gw) l = Some rs"
      using assms(3) l by (auto simp: listeners_ok_def pending_at_def)
    obtain rs' where "pending_at compile (gw_listeners gw2) l = Some rs'" "ID ` set rs' =
        (ID ` set rs - (names (store_of (gw_sys gw1)) - ServiceName ` set instances)) \<union> (ServiceName ` set instances - names (store_of (gw_sys gw1)))"
      using reconciled_ids [OF gw2(2), of l rs] l rs by (auto simp: gw1_def simp del: set_somes)
    then show ?thesis using assms(7) l rs rs2 known by auto
  qed
  moreover have "?n \<in> names (store_of (gw_sys gw2))" "gw_rm gw2 = gw_rm gw"
    using gw2(2) assms(9) by (auto simp: reconciled_def gw1_def simp del: set_somes)
  ultimately show ?thesis using on gw2(1) by auto
qed

section \<open>Witnesses\<close>

definition sample_instance :: ServiceInstance where
  "sample_instance = \<lparr>si_ID = ''1'', ServiceName = ''s'', si_Host = ''h'', si_Port = 80, si_Healthy = True,
     CLusterName = '''', Enable = True, si_Metadata = []\<rparr>"

definition sample_registry :: registry where
  "sample_registry = \<lparr>QueryAllServices = Inr [sample_instance], QueryServicesByName = (\<lambda>ns. Inr [sample_instance])\<rparr>"

definition sample_adapter :: CloudAdapter where
  "sample_adapter = CreateAdapter\<lparr>currentService := [''s'']\<rparr>"

definition sample_reread :: "unit ClusterConfig option list \<times> 32 word \<Rightarrow> string + unit ClusterConfig option list \<times> 32 word" where
  "sample_reread = (\<lambda>(cs, v). Inr (map Some (somes cs), v))"

definition sample_gateway :: "string RouterCoordinator \<Rightarrow> (unit, string) gateway" where
  "sample_gateway rc = \<lparr>gw_sys = CreateDefaultClusterManager (\<lambda>lb. None) [] \<lparr>clusterIndex = 1, configIDSeq = 0, runtimes = []\<rparr>,
     gw_rm = \<lparr>rls = [7]\<rparr>, gw_listeners = Map.empty(7 \<mapsto> rc)\<rparr>"

lemma sample_gateway_ok:
  "\<exists>rc. CreateRouterCoordinator word_regex True sample_config Map.empty = Some (rc, True)
     \<and> listeners_ok word_regex (gw_rm (sample_gateway rc)) (gw_listeners (sample_gateway rc))
     \<and> pending_at word_regex (gw_listeners (sample_gateway rc)) 7 = Some []"
proof -
  obtain rc where c: "CreateRouterCoordinator word_regex True sample_config Map.empty = Some (rc, True)"
    using sample_coordinator by blast
  have inv: "coord_inv word_regex (Routes sample_config) [] rc"
    using coord_inv_create [OF cache_ok_empty, of word_regex True sample_config] c by auto
  then have "listeners_ok word_regex (gw_rm (sample_gateway rc)) (gw_listeners (sample_gateway rc))"
    by (simp add: listeners_ok_def coord_inv_def sample_gateway_def)
  moreover have "pending word_regex rc = []"
    using inv by (simp add: coord_inv_def pending_def sample_config_def wanted_def)
  ultimately show ?thesis using c by (auto simp: pending_at_def sample_gateway_def)
qed

lemma sample_fetch: "fetchServiceByConfig sample_registry sample_adapter = Inr [sample_instance]"
  by (simp add: fetchServiceByConfig_def subscribeServiceDefinitely_def sample_registry_def sample_adapter_def
      CreateAdapter_def lower_def)

lemma sample_rereads: "rereads sample_reread s"
  by (simp add: rereads_def sample_reread_def)

lemma sample_cloud_reachable: "reachable (\<lambda>lb. None) (\<lambda>n. None) (gw_sys (sample_gateway rc))"
  unfolding sample_gateway_def gateway.simps by (rule start_reachable) simp_all


theorem cloud_route_lost_witness:
  "\<exists>rc gw1 gw2. OnAddServiceInstance (\<lambda>lb. None) word_regex sample_instance sample_adapter (sample_gateway rc) = Some (sample_adapter, gw1)
     \<and> fetchCompareAndSet (\<lambda>lb. None) word_regex sample_reread sample_registry sample_adapter gw1 = Some gw2
     \<and> ''s'' \<in> names (store_of (gw_sys gw2))
     \<and> (\<forall>rs. pending_at word_regex (gw_listeners gw2) 7 = Some rs \<longrightarrow> ''s'' \<notin> ID ` set rs) \<and> rls (gw_rm gw2) = [7]"
proof -
  obtain rc where rc: "listeners_ok word_regex (gw_rm (sample_gateway rc)) (gw_listeners (sample_gateway rc))"
    "pending_at word_regex (gw_listeners (sample_gateway rc)) 7 = Some []" using sample_gateway_ok by blast
  have l: "rls (gw_rm (sample_gateway rc)) = [7]" by (simp add: sample_gateway_def)
  have s: "ServiceName sample_instance = ''s''" by (simp add: sample_instance_def)
  from cloud_route_lost [OF sample_cloud_reachable _ rc(1) sample_rereads _ _ _ sample_fetch, of sample_instance]
  obtain gw1 gw2 where "OnAddServiceInstance (\<lambda>lb. None) word_regex sample_instance sample_adapter (sample_gateway rc) = Some (sample_adapter, gw1)"
    "fetchCompareAndSet (\<lambda>lb. None) word_regex sample_reread sample_registry sample_adapter gw1 = Some gw2"
    "''s'' \<in> names (store_of (gw_sys gw2))" "gw_rm gw2 = gw_rm (sample_gateway rc)"
    "\<forall>rs. pending_at word_regex (gw_listeners gw2) 7 = Some rs \<longrightarrow> ''s'' \<notin> ID ` set rs"
    by (auto simp: s l rc(2) sample_adapter_def CreateAdapter_def simp del: set_somes)
  with l show ?thesis by (intro exI [of _ rc] exI [of _ gw1] exI [of _ gw2]) (simp del: set_somes)
qed

end
