(* ===== verification/Pixiu_Cooldown.thy ===== *)
theory Pixiu_Cooldown
  imports Pixiu_Endpoints
begin

text \<open>
  The cooldown of failed LLM endpoints: \<open>cooldownStore\<close> of \<open>pkg/filter/llm/proxy/filter.go\<close>. The store
  keeps a map from endpoints to elements of a doubly linked list that is ordered by the time of the last
  failure. The elements live in a heap, \<open>elements\<close>; the map and the list hold their addresses. Each
  operation runs under the lock of the store; the readings of the clock are arguments. Times are
  nanoseconds, the zero time of \<open>lastSweep\<close> is \<open>None\<close>.
\<close>

section \<open>The store\<close>

record cooldownKey =
  ck_clusterName :: string
  ck_endpointID :: string
  ck_endpointAddress :: string
  credentialHash :: "8 word list"

record cooldownEntry =
  ce_key :: cooldownKey
  lastFailure :: int
  ttl :: int

record cooldownStore =
  lastFailureByEndpoint :: "(cooldownKey \<times> nat) list"
  recencyOrder :: "nat list"
  lastSweep :: "int option"
  elements :: "cooldownEntry list"

definition maxCooldownStoreEntries :: nat where
  "maxCooldownStoreEntries = 1024"

definition cooldownStoreSweepAt :: nat where
  "cooldownStoreSweepAt = maxCooldownStoreEntries * 90 div 100"

definition cooldownStoreSweepAfter :: int where
  "cooldownStoreSweepAfter = 10 ^ 9"

text \<open>\<open>Time.Sub\<close> saturates.\<close>

definition time_Sub :: "int \<Rightarrow> int \<Rightarrow> int" where
  "time_Sub t u = max (- (2 ^ 63)) (min (2 ^ 63 - 1) (t - u))"

definition newCooldownStore :: cooldownStore where
  "newCooldownStore = \<lparr>lastFailureByEndpoint = [], recencyOrder = [], lastSweep = None, elements = []\<rparr>"

definition endpointCredentialHash :: "Endpoint \<Rightarrow> 8 word list" where
  "endpointCredentialHash endpoint =
     (case ep_LLMMeta endpoint of
        None \<Rightarrow> replicate 32 0
      | Some meta \<Rightarrow> if APIKey meta = '''' then replicate 32 0 else sha256 (APIKey meta))"

definition newCooldownKey :: "string \<Rightarrow> Endpoint \<Rightarrow> cooldownKey" where
  "newCooldownKey n endpoint =
     \<lparr>ck_clusterName = n, ck_endpointID = ep_ID endpoint, ck_endpointAddress = GetAddress (ep_Address endpoint),
      credentialHash = endpointCredentialHash endpoint\<rparr>"

definition endpointCooldownInterval :: "Endpoint \<Rightarrow> int" where
  "endpointCooldownInterval endpoint =
     (case ep_LLMMeta endpoint of None \<Rightarrow> 0 | Some meta \<Rightarrow> wrap64 (10 ^ 6 * HealthCheckInterval meta))"

definition removeLocked :: "cooldownKey \<Rightarrow> nat \<Rightarrow> cooldownStore \<Rightarrow> cooldownStore" where
  "removeLocked key element s =
     s\<lparr>lastFailureByEndpoint := filter (\<lambda>(k, _). k \<noteq> key) (lastFailureByEndpoint s),
       recencyOrder := filter (\<lambda>i. i \<noteq> element) (recencyOrder s)\<rparr>"

text \<open>The loop of \<open>sweepExpiredExceptLocked\<close> over the map, which deletes the entry it is at.\<close>

fun sweep_from :: "int \<Rightarrow> cooldownKey \<Rightarrow> (cooldownKey \<times> nat) list \<Rightarrow> cooldownStore \<Rightarrow> cooldownStore" where
  "sweep_from now current [] s = s"
| "sweep_from now current ((key, element) # m) s =
     (if key = current then sweep_from now current m s
      else
        (let entry = elements s ! element
         in if ttl entry \<le> time_Sub now (lastFailure entry) then sweep_from now current m (removeLocked key element s)
            else sweep_from now current m s))"

definition sweepExpiredExceptLocked :: "int \<Rightarrow> cooldownKey \<Rightarrow> cooldownStore \<Rightarrow> cooldownStore" where
  "sweepExpiredExceptLocked now current s = sweep_from now current (lastFailureByEndpoint s) s"

definition sweepExpiredIfNeededLocked :: "int \<Rightarrow> cooldownKey \<Rightarrow> cooldownStore \<Rightarrow> cooldownStore" where
  "sweepExpiredIfNeededLocked now current s =
     (if length (lastFailureByEndpoint s) < cooldownStoreSweepAt
         \<and> (case lastSweep s of None \<Rightarrow> False | Some before \<Rightarrow> time_Sub now before < cooldownStoreSweepAfter)
      then s
      else sweepExpiredExceptLocked now current (s\<lparr>lastSweep := Some now\<rparr>))"

definition evictOldestIfFullLocked :: "cooldownStore \<Rightarrow> cooldownStore" where
  "evictOldestIfFullLocked s =
     (if length (lastFailureByEndpoint s) < maxCooldownStoreEntries then s
      else
        (case recencyOrder s of
           [] \<Rightarrow> s
         | oldest # _ \<Rightarrow> removeLocked (ce_key (elements s ! oldest)) oldest s))"

text \<open>The answer is the time of the last failure and the cooldown, if there is a failure on record.\<close>

definition lastFailureWithCurrentTTL ::
    "string \<Rightarrow> Endpoint \<Rightarrow> int \<Rightarrow> cooldownStore \<Rightarrow> (int \<times> int) option \<times> cooldownStore" where
  "lastFailureWithCurrentTTL n endpoint now s =
     (let key = newCooldownKey n endpoint;
          s = sweepExpiredIfNeededLocked now key s
      in case map_of (lastFailureByEndpoint s) key of
           None \<Rightarrow> (None, s)
         | Some element \<Rightarrow>
             (let entry = elements s ! element;
                  currentTTL = endpointCooldownInterval endpoint;
                  entry = (if ttl entry \<noteq> currentTTL then entry\<lparr>ttl := currentTTL\<rparr> else entry)
              in (Some (lastFailure entry, ttl entry), s\<lparr>elements := (elements s)[element := entry]\<rparr>)))"

text \<open>\<open>failed\<close> is what \<open>nowFn\<close> returns, \<open>now\<close> the later reading for the sweep.\<close>

definition markFailure :: "string \<Rightarrow> Endpoint \<Rightarrow> int \<Rightarrow> int \<Rightarrow> cooldownStore \<Rightarrow> cooldownStore" where
  "markFailure n endpoint failed now s =
     (let key = newCooldownKey n endpoint;
          s = sweepExpiredIfNeededLocked now key s;
          interval = endpointCooldownInterval endpoint
      in case map_of (lastFailureByEndpoint s) key of
           Some element \<Rightarrow>
             s\<lparr>elements := (elements s)[element := (elements s ! element)\<lparr>lastFailure := failed, ttl := interval\<rparr>],
               recencyOrder := filter (\<lambda>i. i \<noteq> element) (recencyOrder s) @ [element]\<rparr>
         | None \<Rightarrow>
             (let s = evictOldestIfFullLocked s;
                  element = length (elements s)
              in s\<lparr>elements := elements s @ [\<lparr>ce_key = key, lastFailure = failed, ttl = interval\<rparr>],
                   recencyOrder := recencyOrder s @ [element],
                   lastFailureByEndpoint := (key, element) # lastFailureByEndpoint s\<rparr>))"

definition deleteLastFailureIfMatches :: "string \<Rightarrow> Endpoint \<Rightarrow> int \<Rightarrow> cooldownStore \<Rightarrow> bool \<times> cooldownStore" where
  "deleteLastFailureIfMatches n endpoint expected s =
     (let key = newCooldownKey n endpoint
      in case map_of (lastFailureByEndpoint s) key of
           None \<Rightarrow> (False, s)
         | Some element \<Rightarrow>
             if lastFailure (elements s ! element) \<noteq> expected then (False, s)
             else (True, removeLocked key element s))"

section \<open>The failures on record\<close>

text \<open>The abstraction: the entries, the least recent failure first.\<close>

definition record_of :: "cooldownStore \<Rightarrow> cooldownEntry list" where
  "record_of s = map (\<lambda>i. elements s ! i) (recencyOrder s)"

text \<open>Map and list hold the same elements, one per key, within the capacity.\<close>

definition cooldown_ok :: "cooldownStore \<Rightarrow> bool" where
  "cooldown_ok s \<longleftrightarrow>
     distinct (recencyOrder s) \<and> (\<forall>i \<in> set (recencyOrder s). i < length (elements s))
     \<and> distinct (map ce_key (record_of s))
     \<and> distinct (map fst (lastFailureByEndpoint s))
     \<and> set (lastFailureByEndpoint s) = (\<lambda>i. (ce_key (elements s ! i), i)) ` set (recencyOrder s)
     \<and> length (recencyOrder s) \<le> maxCooldownStoreEntries"

definition expired :: "int \<Rightarrow> cooldownEntry \<Rightarrow> bool" where
  "expired now e \<longleftrightarrow> ttl e \<le> time_Sub now (lastFailure e)"

definition entry_for :: "cooldownKey \<Rightarrow> cooldownEntry list \<Rightarrow> cooldownEntry option" where
  "entry_for key es = find (\<lambda>e. ce_key e = key) es"

text \<open>A sweep drops expired entries of other endpoints, or does nothing.\<close>

definition swept :: "int \<Rightarrow> cooldownKey \<Rightarrow> bool \<Rightarrow> cooldownEntry list \<Rightarrow> cooldownEntry list" where
  "swept now key b es = (if b then filter (\<lambda>e. ce_key e = key \<or> \<not> expired now e) es else es)"

definition needs_sweep :: "int \<Rightarrow> cooldownStore \<Rightarrow> bool" where
  "needs_sweep now s \<longleftrightarrow> \<not> (length (recencyOrder s) < cooldownStoreSweepAt
     \<and> (case lastSweep s of None \<Rightarrow> False | Some before \<Rightarrow> time_Sub now before < cooldownStoreSweepAfter))"

lemma element_by_key:
  assumes "cooldown_ok s" and "i \<in> set (recencyOrder s)" and "j \<in> set (recencyOrder s)"
    and "ce_key (elements s ! i) = ce_key (elements s ! j)"
  shows "i = j"
  using assms by (auto simp: cooldown_ok_def record_of_def distinct_map inj_on_def)

lemma keys_ok: "cooldown_ok s \<Longrightarrow> fst ` set (lastFailureByEndpoint s) = ce_key ` set (record_of s)"
  by (simp add: cooldown_ok_def record_of_def image_image)

lemma lookup_element:
  assumes "cooldown_ok s"
  shows "map_of (lastFailureByEndpoint s) key = Some i \<longleftrightarrow> i \<in> set (recencyOrder s) \<and> ce_key (elements s ! i) = key"
  using assms by (auto simp: cooldown_ok_def)

lemma lookup_none:
  assumes "cooldown_ok s"
  shows "map_of (lastFailureByEndpoint s) key = None \<longleftrightarrow> key \<notin> ce_key ` set (record_of s)"
  by (simp add: map_of_eq_None_iff keys_ok [OF assms])

lemma entry_for_element:
  assumes "cooldown_ok s"
  shows "entry_for key (record_of s) = map_option (\<lambda>i. elements s ! i) (map_of (lastFailureByEndpoint s) key)"
proof (cases "map_of (lastFailureByEndpoint s) key")
  case None
  then have "key \<notin> ce_key ` set (record_of s)" using lookup_none [OF assms] by blast
  then have "entry_for key (record_of s) = None" by (auto simp: entry_for_def find_None_iff)
  with None show ?thesis by simp
next
  case (Some i)
  then have i: "i \<in> set (recencyOrder s)" "ce_key (elements s ! i) = key" using lookup_element [OF assms] by auto
  have "entry_for key (record_of s) \<noteq> None" using i by (auto simp: entry_for_def find_None_iff record_of_def)
  then obtain e where e: "entry_for key (record_of s) = Some e" by blast
  then have "e \<in> set (record_of s)" "ce_key e = key" by (auto simp: entry_for_def find_Some_iff)
  then obtain j where "j \<in> set (recencyOrder s)" "e = elements s ! j" "ce_key e = key" by (auto simp: record_of_def)
  then show ?thesis using element_by_key [OF assms i(1)] i(2) e Some by auto
qed

lemma size_ok: "cooldown_ok s \<Longrightarrow> length (lastFailureByEndpoint s) = length (recencyOrder s)"
proof -
  assume ok: "cooldown_ok s"
  have "distinct (lastFailureByEndpoint s)" using ok by (simp add: cooldown_ok_def distinct_map)
  then have "length (lastFailureByEndpoint s) = card (set (lastFailureByEndpoint s))" by (simp add: distinct_card)
  also have "\<dots> = card (set (recencyOrder s))"
    using ok by (auto simp: cooldown_ok_def inj_on_def intro: card_image)
  finally show ?thesis using ok by (simp add: cooldown_ok_def distinct_card)
qed

text \<open>Dropping elements from both structures.\<close>

lemma drop_elements:
  assumes ok: "cooldown_ok s"
    and s': "elements s' = elements s" "recencyOrder s' = filter P (recencyOrder s)"
      "lastFailureByEndpoint s' = filter (\<lambda>(k, i). P i) (lastFailureByEndpoint s)"
  shows "cooldown_ok s' \<and> record_of s' = map (\<lambda>i. elements s ! i) (filter P (recencyOrder s))"
proof -
  have "length (filter P (recencyOrder s)) \<le> maxCooldownStoreEntries"
    using ok by (auto simp: cooldown_ok_def intro: order_trans [OF length_filter_le])
  moreover have "distinct (map fst (filter (\<lambda>(k, i). P i) (lastFailureByEndpoint s)))"
    using ok by (simp add: cooldown_ok_def distinct_map_filter)
  moreover have "distinct (map ce_key (map (\<lambda>i. elements s ! i) (filter P (recencyOrder s))))"
    using ok by (simp add: cooldown_ok_def record_of_def distinct_map_filter o_def)
  ultimately show ?thesis using ok by (auto simp: cooldown_ok_def record_of_def s')
qed

lemma removeLocked_record:
  assumes ok: "cooldown_ok s" and i: "i \<in> set (recencyOrder s)" "ce_key (elements s ! i) = key"
  shows "cooldown_ok (removeLocked key i s)
    \<and> record_of (removeLocked key i s) = filter (\<lambda>e. ce_key e \<noteq> key) (record_of s)"
proof -
  have "filter (\<lambda>(k, _). k \<noteq> key) (lastFailureByEndpoint s) = filter (\<lambda>(k, j). j \<noteq> i) (lastFailureByEndpoint s)"
    using ok i element_by_key [OF ok] by (intro filter_cong) (auto simp: cooldown_ok_def)
  then have "cooldown_ok (removeLocked key i s)
    \<and> record_of (removeLocked key i s) = map (\<lambda>j. elements s ! j) (filter (\<lambda>j. j \<noteq> i) (recencyOrder s))"
    by (intro drop_elements [OF ok]) (simp_all add: removeLocked_def)
  moreover have "filter (\<lambda>j. j \<noteq> i) (recencyOrder s) = filter (\<lambda>j. ce_key (elements s ! j) \<noteq> key) (recencyOrder s)"
    using i element_by_key [OF ok] by (intro filter_cong) auto
  ultimately show ?thesis by (simp add: record_of_def filter_map o_def)
qed

lemma removeLocked_elements [simp]:
  "elements (removeLocked key i s) = elements s" "lastSweep (removeLocked key i s) = lastSweep s"
  by (simp_all add: removeLocked_def)

lemma cooldown_ok_sweep_time [simp]: "cooldown_ok (s\<lparr>lastSweep := x\<rparr>) = cooldown_ok s"
  by (simp add: cooldown_ok_def record_of_def)

lemma sweep_from_record:
  assumes "cooldown_ok s" and "distinct (map fst m)" and "set m \<subseteq> set (lastFailureByEndpoint s)"
  shows "cooldown_ok (sweep_from now current m s)
    \<and> record_of (sweep_from now current m s)
      = filter (\<lambda>e. ce_key e = current \<or> ce_key e \<notin> fst ` set m \<or> \<not> expired now e) (record_of s)"
  using assms
proof (induction m arbitrary: s)
  case Nil
  then show ?case by simp
next
  case (Cons a m)
  obtain key i where a: "a = (key, i)" by (cases a)
  have i: "i \<in> set (recencyOrder s)" "ce_key (elements s ! i) = key"
    using Cons.prems a by (auto simp: cooldown_ok_def)
  have mine: "e = elements s ! i" if "e \<in> set (record_of s)" "ce_key e = key" for e
    using that i element_by_key [OF Cons.prems(1)] by (auto simp: record_of_def)
  show ?case
  proof (cases "key \<noteq> current \<and> expired now (elements s ! i)")
    case True
    note rm = removeLocked_record [OF Cons.prems(1) i]
    have "set m \<subseteq> set (lastFailureByEndpoint (removeLocked key i s))"
      using Cons.prems(2,3) a by (force simp: removeLocked_def)
    with Cons.IH [of "removeLocked key i s"] rm Cons.prems(2)
    have IH: "cooldown_ok (sweep_from now current m (removeLocked key i s))"
      "record_of (sweep_from now current m (removeLocked key i s))
        = filter (\<lambda>e. ce_key e = current \<or> ce_key e \<notin> fst ` set m \<or> \<not> expired now e)
            (filter (\<lambda>e. ce_key e \<noteq> key) (record_of s))" by simp_all
    have "sweep_from now current (a # m) s = sweep_from now current m (removeLocked key i s)"
      using True by (simp add: a expired_def Let_def)
    then show ?thesis using IH True a mine by (auto simp: filter_filter intro!: filter_cong)
  next
    case False
    then have "sweep_from now current (a # m) s = sweep_from now current m s"
      by (auto simp: a expired_def Let_def)
    then show ?thesis using Cons.IH [OF Cons.prems(1)] Cons.prems(2,3) a False mine
      by (auto intro!: filter_cong)
  qed
qed

lemma sweep_record:
  assumes ok: "cooldown_ok s"
  shows "cooldown_ok (sweepExpiredIfNeededLocked now key s)
    \<and> record_of (sweepExpiredIfNeededLocked now key s) = swept now key (needs_sweep now s) (record_of s)"
proof (cases "needs_sweep now s")
  case False
  then show ?thesis using ok size_ok [OF ok] by (simp add: sweepExpiredIfNeededLocked_def needs_sweep_def swept_def)
next
  case True
  let ?s = "s\<lparr>lastSweep := Some now\<rparr>"
  have "cooldown_ok ?s" "distinct (map fst (lastFailureByEndpoint s))" using ok by (simp_all add: cooldown_ok_def record_of_def)
  from sweep_from_record [OF this, where now = now and current = key]
  have sw: "cooldown_ok (sweep_from now key (lastFailureByEndpoint s) ?s)"
    "record_of (sweep_from now key (lastFailureByEndpoint s) ?s)
      = filter (\<lambda>e. ce_key e = key \<or> ce_key e \<notin> fst ` set (lastFailureByEndpoint s) \<or> \<not> expired now e) (record_of s)"
    by (simp_all add: record_of_def)
  have "filter (\<lambda>e. ce_key e = key \<or> ce_key e \<notin> fst ` set (lastFailureByEndpoint s) \<or> \<not> expired now e) (record_of s)
    = filter (\<lambda>e. ce_key e = key \<or> \<not> expired now e) (record_of s)" by (auto simp: keys_ok [OF ok] intro!: filter_cong)
  then show ?thesis using sw True size_ok [OF ok]
    by (auto simp: sweepExpiredIfNeededLocked_def needs_sweep_def swept_def sweepExpiredExceptLocked_def)
qed

text \<open>Capacity: a full record loses its least recent failure.\<close>

definition evicted :: "cooldownEntry list \<Rightarrow> cooldownEntry list" where
  "evicted es = (if length es < maxCooldownStoreEntries then es else tl es)"

lemma evict_record:
  assumes ok: "cooldown_ok s"
  shows "cooldown_ok (evictOldestIfFullLocked s)
    \<and> record_of (evictOldestIfFullLocked s) = evicted (record_of s)
    \<and> length (recencyOrder (evictOldestIfFullLocked s)) < maxCooldownStoreEntries"
proof (cases "length (recencyOrder s) < maxCooldownStoreEntries")
  case True
  then show ?thesis using ok size_ok [OF ok] by (simp add: evictOldestIfFullLocked_def evicted_def record_of_def)
next
  case False
  then obtain i rest where r: "recencyOrder s = i # rest"
    by (cases "recencyOrder s") (auto simp: maxCooldownStoreEntries_def)
  let ?s = "removeLocked (ce_key (elements s ! i)) i s"
  have e: "evictOldestIfFullLocked s = ?s"
    using False r size_ok [OF ok] by (simp add: evictOldestIfFullLocked_def)
  have rm: "cooldown_ok ?s" "record_of ?s = filter (\<lambda>e. ce_key e \<noteq> ce_key (elements s ! i)) (record_of s)"
    using removeLocked_record [OF ok, of i] r by auto
  have "distinct (map ce_key (record_of s))" "record_of s = (elements s ! i) # map (\<lambda>i. elements s ! i) rest"
    using ok r by (simp_all add: cooldown_ok_def record_of_def)
  then have "filter (\<lambda>e. ce_key e \<noteq> ce_key (elements s ! i)) (record_of s) = tl (record_of s)"
    by (auto simp: filter_id_conv image_iff)
  moreover have "length (record_of ?s) = length (recencyOrder ?s)" "length (record_of s) = length (recencyOrder s)"
    by (simp_all add: record_of_def)
  moreover have "length (recencyOrder s) \<le> maxCooldownStoreEntries" using ok by (simp add: cooldown_ok_def)
  ultimately show ?thesis using rm False r by (auto simp: e evicted_def)
qed

text \<open>Overwriting the element of a key.\<close>

lemma set_element_record:
  assumes ok: "cooldown_ok s" and i: "i \<in> set (recencyOrder s)" and e: "ce_key e = ce_key (elements s ! i)"
  shows "cooldown_ok (s\<lparr>elements := (elements s)[i := e]\<rparr>)
    \<and> record_of (s\<lparr>elements := (elements s)[i := e]\<rparr>)
      = map (\<lambda>x. if ce_key x = ce_key e then e else x) (record_of s)"
proof -
  have l: "i < length (elements s)" using ok i by (simp add: cooldown_ok_def)
  have k: "ce_key ((elements s)[i := e] ! j) = ce_key (elements s ! j)" for j
    using l e by (cases "j = i") simp_all
  have "(elements s)[i := e] ! j = (if ce_key (elements s ! j) = ce_key e then e else elements s ! j)"
    if "j \<in> set (recencyOrder s)" for j
    using that l e element_by_key [OF ok i that] by (cases "j = i") auto
  then have r: "record_of (s\<lparr>elements := (elements s)[i := e]\<rparr>)
      = map (\<lambda>x. if ce_key x = ce_key e then e else x) (record_of s)" by (simp add: record_of_def)
  show ?thesis unfolding r using ok by (simp add: cooldown_ok_def r [symmetric]) (simp add: record_of_def k o_def)
qed

text \<open>Moving an element to the back of the list.\<close>

lemma move_record:
  assumes ok: "cooldown_ok s" and i: "i \<in> set (recencyOrder s)"
  defines "s' \<equiv> s\<lparr>recencyOrder := filter (\<lambda>j. j \<noteq> i) (recencyOrder s) @ [i]\<rparr>"
  shows "cooldown_ok s' \<and> record_of s'
      = filter (\<lambda>x. ce_key x \<noteq> ce_key (elements s ! i)) (record_of s) @ [elements s ! i]"
proof -
  have f: "filter (\<lambda>x. ce_key x \<noteq> ce_key (elements s ! i)) (record_of s)
      = map (\<lambda>j. elements s ! j) (filter (\<lambda>j. j \<noteq> i) (recencyOrder s))"
    using element_by_key [OF ok _ i] by (auto simp: record_of_def filter_map intro!: arg_cong [where f = "map _"] filter_cong)
  have r: "record_of s' = filter (\<lambda>x. ce_key x \<noteq> ce_key (elements s ! i)) (record_of s) @ [elements s ! i]"
    by (simp add: f) (simp add: s'_def record_of_def)
  have set': "set (recencyOrder s') = set (recencyOrder s)" using i by (auto simp: s'_def)
  have d: "distinct (recencyOrder s')" using ok by (simp add: s'_def cooldown_ok_def)
  then have "length (recencyOrder s') = length (recencyOrder s)"
    using set' ok by (metis cooldown_ok_def distinct_card)
  moreover have "distinct (map ce_key (record_of s'))"
    using ok by (auto simp: r cooldown_ok_def distinct_map_filter)
  ultimately show ?thesis using ok d set' r by (simp add: cooldown_ok_def s'_def)
qed

text \<open>A new element at the back of the list.\<close>

lemma push_record:
  assumes ok: "cooldown_ok s" and new: "ce_key e \<notin> ce_key ` set (record_of s)"
    and room: "length (recencyOrder s) < maxCooldownStoreEntries"
  defines "s' \<equiv> s\<lparr>elements := elements s @ [e], recencyOrder := recencyOrder s @ [length (elements s)],
    lastFailureByEndpoint := (ce_key e, length (elements s)) # lastFailureByEndpoint s\<rparr>"
  shows "cooldown_ok s' \<and> record_of s' = record_of s @ [e]"
proof -
  have f: "elements s' = elements s @ [e]" "recencyOrder s' = recencyOrder s @ [length (elements s)]"
    "lastFailureByEndpoint s' = (ce_key e, length (elements s)) # lastFailureByEndpoint s" by (simp_all add: s'_def)
  have l: "i < length (elements s)" if "i \<in> set (recencyOrder s)" for i using ok that by (simp add: cooldown_ok_def)
  then have fresh: "length (elements s) \<notin> set (recencyOrder s)" by blast
  have r: "record_of s' = record_of s @ [e]" using l by (simp add: record_of_def f nth_append)
  have "(\<lambda>i. (ce_key (elements s' ! i), i)) ` set (recencyOrder s) = (\<lambda>i. (ce_key (elements s ! i), i)) ` set (recencyOrder s)"
    using l by (intro image_cong) (simp_all add: f nth_append)
  then have "set (lastFailureByEndpoint s') = (\<lambda>i. (ce_key (elements s' ! i), i)) ` set (recencyOrder s')"
    using ok by (simp add: f cooldown_ok_def)
  moreover have "distinct (map fst (lastFailureByEndpoint s'))" "distinct (map ce_key (record_of s'))"
    using ok new keys_ok [OF ok] by (simp_all add: f r cooldown_ok_def)
  moreover have "distinct (recencyOrder s')" "length (recencyOrder s') \<le> maxCooldownStoreEntries"
    "\<forall>i \<in> set (recencyOrder s'). i < length (elements s')"
    using ok fresh room l by (auto simp: f cooldown_ok_def less_Suc_eq)
  ultimately show ?thesis using r by (simp add: cooldown_ok_def)
qed

section \<open>The operations on the record\<close>

definition looked :: "cooldownKey \<Rightarrow> int \<Rightarrow> cooldownEntry list \<Rightarrow> cooldownEntry list" where
  "looked key interval es = map (\<lambda>e. if ce_key e = key then e\<lparr>ttl := interval\<rparr> else e) es"

definition marked :: "cooldownKey \<Rightarrow> int \<Rightarrow> int \<Rightarrow> cooldownEntry list \<Rightarrow> cooldownEntry list" where
  "marked key failed interval es =
     (if key \<in> ce_key ` set es then filter (\<lambda>e. ce_key e \<noteq> key) es else evicted es)
     @ [\<lparr>ce_key = key, lastFailure = failed, ttl = interval\<rparr>]"

definition forgotten :: "cooldownKey \<Rightarrow> int \<Rightarrow> cooldownEntry list \<Rightarrow> cooldownEntry list" where
  "forgotten key expected es = filter (\<lambda>e. ce_key e \<noteq> key \<or> lastFailure e \<noteq> expected) es"

lemma entry_for_eqD: "distinct (map ce_key es) \<Longrightarrow> entry_for key es = Some e \<Longrightarrow> x \<in> set es \<Longrightarrow> ce_key x = key \<Longrightarrow> x = e"
  by (auto simp: entry_for_def find_Some_iff distinct_map inj_on_def)

lemma entry_for_in: "entry_for key es = Some e \<Longrightarrow> e \<in> set es \<and> ce_key e = key"
  by (auto simp: entry_for_def find_Some_iff)

lemma entry_for_None: "entry_for key es = None \<longleftrightarrow> key \<notin> ce_key ` set es"
  by (auto simp: entry_for_def find_None_iff)

lemma distinct_record: "cooldown_ok s \<Longrightarrow> distinct (map ce_key (record_of s))"
  by (simp add: cooldown_ok_def)

lemma look_record:
  fixes n and e :: Endpoint and now :: int
  assumes ok: "cooldown_ok s"
  defines "key \<equiv> newCooldownKey n e" and "interval \<equiv> endpointCooldownInterval e"
  defines "es \<equiv> swept now (newCooldownKey n e) (needs_sweep now s) (record_of s)"
  shows "cooldown_ok (snd (lastFailureWithCurrentTTL n e now s))
    \<and> record_of (snd (lastFailureWithCurrentTTL n e now s)) = looked key interval es
    \<and> fst (lastFailureWithCurrentTTL n e now s) = map_option (\<lambda>x. (lastFailure x, interval)) (entry_for key es)"
proof -
  let ?s = "sweepExpiredIfNeededLocked now key s"
  have ok': "cooldown_ok ?s" and es: "record_of ?s = es"
    using sweep_record [OF ok] by (simp_all add: key_def es_def)
  note ent = entry_for_element [OF ok', of key, unfolded es]
  show ?thesis
  proof (cases "map_of (lastFailureByEndpoint ?s) key")
    case None
    then have "looked key interval es = es" using ent entry_for_None [of key es] by (auto simp: looked_def intro!: map_idI)
    with None ent ok' es show ?thesis by (simp add: lastFailureWithCurrentTTL_def Let_def flip: key_def)
  next
    case (Some i)
    let ?e = "(elements ?s ! i)\<lparr>ttl := interval\<rparr>"
    have i: "i \<in> set (recencyOrder ?s)" "ce_key (elements ?s ! i) = key" using Some lookup_element [OF ok'] by auto
    have e: "entry_for key es = Some (elements ?s ! i)" using ent Some by simp
    have upd: "(elements ?s ! i)\<lparr>ttl := interval\<rparr> = elements ?s ! i" if "ttl (elements ?s ! i) = interval"
      using that by (cases "elements ?s ! i") simp
    have l: "lastFailureWithCurrentTTL n e now s
        = (Some (lastFailure ?e, interval), ?s\<lparr>elements := (elements ?s)[i := ?e]\<rparr>)"
      using Some by (cases "ttl (elements ?s ! i) = interval")
        (simp_all add: lastFailureWithCurrentTTL_def Let_def upd flip: key_def interval_def)
    have "map (\<lambda>x. if ce_key x = key then ?e else x) es = looked key interval es"
      using entry_for_eqD [OF distinct_record [OF ok', unfolded es] e] by (auto simp: looked_def)
    then show ?thesis using set_element_record [OF ok' i(1), of ?e] i(2) e by (simp add: l es)
  qed
qed

lemma mark_record:
  fixes n and e :: Endpoint and now :: int
  assumes ok: "cooldown_ok s"
  defines "key \<equiv> newCooldownKey n e" and "interval \<equiv> endpointCooldownInterval e"
  defines "es \<equiv> swept now (newCooldownKey n e) (needs_sweep now s) (record_of s)"
  shows "cooldown_ok (markFailure n e failed now s) \<and> record_of (markFailure n e failed now s) = marked key failed interval es"
proof -
  let ?s = "sweepExpiredIfNeededLocked now key s"
  have ok': "cooldown_ok ?s" and es: "record_of ?s = es"
    using sweep_record [OF ok] by (simp_all add: key_def es_def)
  show ?thesis
  proof (cases "map_of (lastFailureByEndpoint ?s) key")
    case None
    let ?t = "evictOldestIfFullLocked ?s" and ?e = "\<lparr>ce_key = key, lastFailure = failed, ttl = interval\<rparr>"
    have new: "key \<notin> ce_key ` set es" using None lookup_none [OF ok', of key] es by simp
    have ev: "cooldown_ok ?t" "record_of ?t = evicted es" "length (recencyOrder ?t) < maxCooldownStoreEntries"
      using evict_record [OF ok'] es by simp_all
    have "key \<notin> ce_key ` set (evicted es)" using new by (cases es) (auto simp: evicted_def)
    with push_record [OF ev(1), of ?e] ev show ?thesis
      using None new by (simp add: markFailure_def Let_def marked_def flip: key_def interval_def)
  next
    case (Some i)
    let ?e = "(elements ?s ! i)\<lparr>lastFailure := failed, ttl := interval\<rparr>"
    let ?t = "?s\<lparr>elements := (elements ?s)[i := ?e]\<rparr>"
    have i: "i \<in> set (recencyOrder ?s)" "ce_key (elements ?s ! i) = key" using Some lookup_element [OF ok'] by auto
    have t: "cooldown_ok ?t" "record_of ?t = map (\<lambda>x. if ce_key x = key then ?e else x) es"
      using set_element_record [OF ok' i(1), of ?e] i(2) es by simp_all
    have ti: "i \<in> set (recencyOrder ?t)" "elements ?t ! i = ?e"
      using i(1) ok' by (simp_all add: cooldown_ok_def)
    have e: "?e = \<lparr>ce_key = key, lastFailure = failed, ttl = interval\<rparr>" using i(2) by (cases "elements ?s ! i") simp
    have "key \<in> ce_key ` set es" using Some lookup_none [OF ok', of key] es by (metis option.distinct(1))
    moreover have "filter (\<lambda>x. ce_key x \<noteq> key) (map (\<lambda>x. if ce_key x = key then ?e else x) es) = filter (\<lambda>x. ce_key x \<noteq> key) es"
      using i(2) by (induction es) auto
    moreover have "markFailure n e failed now s = ?t\<lparr>recencyOrder := filter (\<lambda>j. j \<noteq> i) (recencyOrder ?t) @ [i]\<rparr>"
      using Some by (simp add: markFailure_def Let_def flip: key_def interval_def)
    ultimately show ?thesis using move_record [OF t(1) ti(1)] ti(2) t(2) i(2) e by (simp add: marked_def)
  qed
qed

lemma delete_record:
  fixes n and e :: Endpoint
  assumes ok: "cooldown_ok s"
  defines "key \<equiv> newCooldownKey n e"
  shows "cooldown_ok (snd (deleteLastFailureIfMatches n e expected s))
    \<and> record_of (snd (deleteLastFailureIfMatches n e expected s)) = forgotten key expected (record_of s)
    \<and> fst (deleteLastFailureIfMatches n e expected s) = (map_option lastFailure (entry_for key (record_of s)) = Some expected)"
proof (cases "map_of (lastFailureByEndpoint s) key")
  case None
  then have n: "entry_for key (record_of s) = None" using entry_for_element [OF ok] by simp
  then have "forgotten key expected (record_of s) = record_of s"
    using entry_for_None [of key "record_of s"] by (auto simp: forgotten_def filter_id_conv)
  with n None ok show ?thesis by (simp add: deleteLastFailureIfMatches_def flip: key_def)
next
  case (Some i)
  have i: "i \<in> set (recencyOrder s)" "ce_key (elements s ! i) = key" using Some lookup_element [OF ok] by auto
  have e: "entry_for key (record_of s) = Some (elements s ! i)" using Some entry_for_element [OF ok] by simp
  have "forgotten key expected (record_of s) = (if lastFailure (elements s ! i) = expected
      then filter (\<lambda>x. ce_key x \<noteq> key) (record_of s) else record_of s)"
    using entry_for_eqD [OF distinct_record [OF ok] e] by (auto simp: forgotten_def filter_id_conv intro!: filter_cong)
  then show ?thesis using Some e ok removeLocked_record [OF ok i]
    by (simp add: deleteLastFailureIfMatches_def flip: key_def)
qed

section \<open>Runs of the store\<close>

text \<open>
  \<open>endpointInCooldown\<close> and \<open>markEndpointCooldown\<close> of a request, which has no store in tests only; \<open>now\<close> and
  \<open>since\<close> are the readings of the clock.
\<close>

definition endpointInCooldown ::
    "string \<Rightarrow> Endpoint \<Rightarrow> int \<Rightarrow> int \<Rightarrow> cooldownStore option \<Rightarrow> bool \<times> cooldownStore option" where
  "endpointInCooldown n endpoint now since store =
     (case store of
        None \<Rightarrow> (False, None)
      | Some s \<Rightarrow>
          (case lastFailureWithCurrentTTL n endpoint now s of
             (None, s) \<Rightarrow> (False, Some s)
           | (Some (failed, interval), s) \<Rightarrow>
               if time_Sub since failed < interval then (True, Some s)
               else (False, Some (snd (deleteLastFailureIfMatches n endpoint failed s)))))"

definition markEndpointCooldown :: "string \<Rightarrow> Endpoint \<Rightarrow> int \<Rightarrow> int \<Rightarrow> cooldownStore option \<Rightarrow> cooldownStore option" where
  "markEndpointCooldown n endpoint failed now store = map_option (markFailure n endpoint failed now) store"

text \<open>The sections under the lock, which concurrent requests run in any order.\<close>

datatype cooldown_op = Mark string Endpoint int int | Look string Endpoint int | Forget string Endpoint int

fun cooldown_step :: "cooldown_op \<Rightarrow> cooldownStore \<Rightarrow> cooldownStore" where
  "cooldown_step (Mark n e failed now) s = markFailure n e failed now s"
| "cooldown_step (Look n e now) s = snd (lastFailureWithCurrentTTL n e now s)"
| "cooldown_step (Forget n e expected) s = snd (deleteLastFailureIfMatches n e expected s)"

definition cooldown_run :: "cooldown_op list \<Rightarrow> cooldownStore \<Rightarrow> cooldownStore" where
  "cooldown_run ops s = fold cooldown_step ops s"

lemma newCooldownStore_ok: "cooldown_ok newCooldownStore"
  by (simp add: cooldown_ok_def newCooldownStore_def record_of_def)

lemma cooldown_step_ok: "cooldown_ok s \<Longrightarrow> cooldown_ok (cooldown_step op s)"
  using look_record mark_record delete_record by (cases op) simp_all

lemma cooldown_run_ok: "cooldown_ok s \<Longrightarrow> cooldown_ok (cooldown_run ops s)"
  by (induction ops arbitrary: s) (simp_all add: cooldown_run_def cooldown_step_ok)

text \<open>
  C13: the store is a bounded record of failures, whatever concurrent requests do. After any sequence of
  the sections that requests run under the lock, the map and the list of the store describe the same
  at most 1024 failures, one per endpoint. A look-up answers with the failure on record and the current
  cooldown of the endpoint, a failure goes to the end of the record and displaces the oldest one only if
  the record is full, and a deletion drops the failure of the endpoint only if it is the expected one.
  The sweeps of the first two drop expired failures of other endpoints only.
\<close>

theorem cooldown_store_refines:
  fixes ops and n and e :: Endpoint
  defines "s \<equiv> cooldown_run ops newCooldownStore" and "key \<equiv> newCooldownKey n e" and "interval \<equiv> endpointCooldownInterval e"
  shows "length (record_of s) \<le> 1024 \<and> distinct (map ce_key (record_of s))
    \<and> fst ` set (lastFailureByEndpoint s) = ce_key ` set (record_of s)
    \<and> length (lastFailureByEndpoint s) = length (record_of s)
    \<and> (\<exists>b. fst (lastFailureWithCurrentTTL n e now s)
          = map_option (\<lambda>x. (lastFailure x, interval)) (entry_for key (record_of s))
        \<and> record_of (snd (lastFailureWithCurrentTTL n e now s)) = looked key interval (swept now key b (record_of s)))
    \<and> (\<exists>b. record_of (markFailure n e failed now s) = marked key failed interval (swept now key b (record_of s)))
    \<and> fst (deleteLastFailureIfMatches n e expected s) = (map_option lastFailure (entry_for key (record_of s)) = Some expected)
    \<and> record_of (snd (deleteLastFailureIfMatches n e expected s)) = forgotten key expected (record_of s)"
proof -
  have ok: "cooldown_ok s" unfolding s_def by (rule cooldown_run_ok [OF newCooldownStore_ok])
  have "entry_for key (swept now key b es) = entry_for key es" for b es
    by (auto simp: entry_for_def swept_def find_filter intro!: arg_cong [where f = "\<lambda>P. find P es"])
  then show ?thesis
    using look_record [OF ok, of n e now] mark_record [OF ok, of n e failed now] delete_record [OF ok, of n e expected]
      distinct_record [OF ok] keys_ok [OF ok] size_ok [OF ok] ok
    by (auto simp: cooldown_ok_def maxCooldownStoreEntries_def record_of_def simp flip: key_def interval_def)
qed

section \<open>A failure is remembered\<close>

text \<open>What may happen to the record between a failure at \<open>t\<close> and a look at \<open>t'\<close>.\<close>

fun meanwhile :: "int \<Rightarrow> int \<Rightarrow> cooldownKey \<Rightarrow> int \<Rightarrow> cooldown_op \<Rightarrow> bool" where
  "meanwhile t t' key interval (Mark n e failed now) \<longleftrightarrow>
     t \<le> failed \<and> failed \<le> t' \<and> now \<le> t' \<and> (newCooldownKey n e = key \<longrightarrow> endpointCooldownInterval e = interval)"
| "meanwhile t t' key interval (Look n e now) \<longleftrightarrow>
     now \<le> t' \<and> (newCooldownKey n e = key \<longrightarrow> endpointCooldownInterval e = interval)"
| "meanwhile t t' key interval (Forget n e expected) \<longleftrightarrow> (newCooldownKey n e = key \<longrightarrow> expected + interval \<le> t')"

fun failing :: "cooldown_op \<Rightarrow> cooldownKey list" where
  "failing (Mark n e failed now) = [newCooldownKey n e]"
| "failing op = []"

definition remembered :: "int \<Rightarrow> int \<Rightarrow> cooldownKey \<Rightarrow> int \<Rightarrow> cooldownKey set \<Rightarrow> cooldownEntry list \<Rightarrow> bool" where
  "remembered t t' key interval others es \<longleftrightarrow>
     (\<exists>pre x post. es = pre @ x # post \<and> ce_key x = key \<and> t \<le> lastFailure x \<and> lastFailure x \<le> t'
        \<and> ttl x = interval \<and> ce_key ` set post \<subseteq> others - {key})"

lemma rememberedI:
  "es = pre @ x # post \<Longrightarrow> ce_key x = key \<Longrightarrow> t \<le> lastFailure x \<Longrightarrow> lastFailure x \<le> t' \<Longrightarrow> ttl x = interval \<Longrightarrow>
   ce_key ` set post \<subseteq> others - {key} \<Longrightarrow> remembered t t' key interval others es"
  unfolding remembered_def by blast

lemma rememberedE:
  assumes "remembered t t' key interval others es"
  obtains pre x post where "es = pre @ x # post" "ce_key x = key" "t \<le> lastFailure x" "lastFailure x \<le> t'"
    "ttl x = interval" "ce_key ` set post \<subseteq> others - {key}"
  using assms unfolding remembered_def by blast

lemma in_time: "t \<le> f \<Longrightarrow> now \<le> t' \<Longrightarrow> t' - t < interval \<Longrightarrow> 0 < interval \<Longrightarrow> time_Sub now f < interval"
  by (simp add: time_Sub_def)

lemma swept_remembered:
  assumes "remembered t t' key interval others es" and "t' - t < interval" and "0 < interval" and "now \<le> t' \<or> k = key"
  shows "remembered t t' key interval others (swept now k b es)"
proof -
  obtain pre x post where x: "es = pre @ x # post" "ce_key x = key" "t \<le> lastFailure x" "lastFailure x \<le> t'"
    "ttl x = interval" "ce_key ` set post \<subseteq> others - {key}" by (rule rememberedE [OF assms(1)])
  let ?f = "filter (\<lambda>e. ce_key e = k \<or> \<not> expired now e)"
  have "ce_key x = k \<or> \<not> expired now x"
    using assms(2-4) x in_time [OF x(3), of now t' interval] by (auto simp: expired_def)
  then have "?f es = ?f pre @ x # ?f post" by (simp add: x(1))
  moreover have "ce_key ` set (?f post) \<subseteq> others - {key}" using x(6) by auto
  ultimately have "remembered t t' key interval others (?f es)" using rememberedI [OF _ x(2-5)] by blast
  then show ?thesis using assms(1) by (simp add: swept_def)
qed

lemma looked_remembered:
  assumes "remembered t t' key interval others es" and "k = key \<longrightarrow> i = interval"
  shows "remembered t t' key interval others (looked k i es)"
proof -
  obtain pre x post where x: "es = pre @ x # post" "ce_key x = key" "t \<le> lastFailure x" "lastFailure x \<le> t'"
    "ttl x = interval" "ce_key ` set post \<subseteq> others - {key}" by (rule rememberedE [OF assms(1)])
  let ?u = "\<lambda>e. if ce_key e = k then e\<lparr>ttl := i\<rparr> else e"
  have "looked k i es = map ?u pre @ ?u x # map ?u post" by (simp add: looked_def x(1))
  moreover have "ce_key (?u x) = key" "t \<le> lastFailure (?u x)" "lastFailure (?u x) \<le> t'" "ttl (?u x) = interval"
    using x assms(2) by auto
  moreover have "ce_key ` set (map ?u post) \<subseteq> others - {key}" using x(6) by auto
  ultimately show ?thesis by (rule rememberedI)
qed

lemma forgotten_remembered:
  assumes "remembered t t' key interval others es" and "t' - t < interval" and "k = key \<longrightarrow> expected + interval \<le> t'"
  shows "remembered t t' key interval others (forgotten k expected es)"
proof -
  obtain pre x post where x: "es = pre @ x # post" "ce_key x = key" "t \<le> lastFailure x" "lastFailure x \<le> t'"
    "ttl x = interval" "ce_key ` set post \<subseteq> others - {key}" by (rule rememberedE [OF assms(1)])
  have "forgotten k expected es = forgotten k expected pre @ x # forgotten k expected post"
    using x assms(2,3) by (auto simp: forgotten_def)
  moreover have "ce_key ` set (forgotten k expected post) \<subseteq> others - {key}" using x(6) by (auto simp: forgotten_def)
  ultimately show ?thesis using rememberedI [OF _ x(2-5)] by blast
qed

lemma evicted_remembered:
  assumes r: "remembered t t' key interval others es" and k: "k \<in> others - {key}" "k \<notin> ce_key ` set es"
    and len: "distinct (map ce_key es)" "length es \<le> maxCooldownStoreEntries"
    and few: "finite others" "card (others - {key}) < maxCooldownStoreEntries"
  shows "remembered t t' key interval others (evicted es)"
proof (cases "length es < maxCooldownStoreEntries")
  case True
  then show ?thesis using r by (simp add: evicted_def)
next
  case False
  obtain pre x post where x: "es = pre @ x # post" "ce_key x = key" "t \<le> lastFailure x" "lastFailure x \<le> t'"
    "ttl x = interval" "ce_key ` set post \<subseteq> others - {key}" by (rule rememberedE [OF r])
  have "ce_key ` set post \<subseteq> (others - {key}) - {k}" using x(1,6) k(2) by auto
  then have "card (ce_key ` set post) < card (others - {key})"
    using few(1) k(1) by (intro psubset_card_mono) auto
  moreover have "card (ce_key ` set post) = length post" using len(1) x(1) distinct_card [of "map ce_key post"] by simp
  ultimately have "length post + 1 < length es" using few(2) False by simp
  then obtain y pre' where "pre = y # pre'" using x(1) by (cases pre) auto
  then have "evicted es = pre' @ x # post" using False x(1) by (simp add: evicted_def)
  then show ?thesis using rememberedI [OF _ x(2-6)] by blast
qed

lemma marked_remembered:
  assumes r: "remembered t t' key interval others es" and k: "k \<in> others"
    and f: "t \<le> failed" "failed \<le> t'" "k = key \<longrightarrow> i = interval"
    and len: "distinct (map ce_key es)" "length es \<le> maxCooldownStoreEntries"
    and few: "finite others" "card (others - {key}) < maxCooldownStoreEntries"
  shows "remembered t t' key interval others (marked k failed i es)"
proof (cases "k = key")
  case True
  have "marked k failed i es = butlast (marked k failed i es) @ \<lparr>ce_key = k, lastFailure = failed, ttl = i\<rparr> # []"
    by (simp add: marked_def)
  then show ?thesis by (rule rememberedI) (use f True in auto)
next
  case False
  let ?es = "if k \<in> ce_key ` set es then filter (\<lambda>e. ce_key e \<noteq> k) es else evicted es"
  have "remembered t t' key interval others ?es"
  proof (cases "k \<in> ce_key ` set es")
    case True
    obtain pre x post where x: "es = pre @ x # post" "ce_key x = key" "t \<le> lastFailure x" "lastFailure x \<le> t'"
      "ttl x = interval" "ce_key ` set post \<subseteq> others - {key}" by (rule rememberedE [OF r])
    let ?f = "filter (\<lambda>e. ce_key e \<noteq> k)"
    have "?es = ?f pre @ x # ?f post" using True False x(1,2) by simp
    moreover have "ce_key ` set (?f post) \<subseteq> others - {key}" using x(6) by auto
    ultimately show ?thesis using rememberedI [OF _ x(2-5)] by blast
  next
    case False
    then show ?thesis using evicted_remembered [OF r _ False len few] k \<open>k \<noteq> key\<close> by simp
  qed
  then obtain pre x post where x: "?es = pre @ x # post" "ce_key x = key" "t \<le> lastFailure x" "lastFailure x \<le> t'"
    "ttl x = interval" "ce_key ` set post \<subseteq> others - {key}" by (rule rememberedE)
  have "marked k failed i es = pre @ x # (post @ [\<lparr>ce_key = k, lastFailure = failed, ttl = i\<rparr>])"
    unfolding marked_def x(1) by simp
  moreover have "ce_key ` set (post @ [\<lparr>ce_key = k, lastFailure = failed, ttl = i\<rparr>]) \<subseteq> others - {key}"
    using x(6) k False by auto
  ultimately show ?thesis using rememberedI [OF _ x(2-5)] by blast
qed

lemma swept_bounds:
  assumes "cooldown_ok s"
  shows "distinct (map ce_key (swept now k b (record_of s)))" "length (swept now k b (record_of s)) \<le> maxCooldownStoreEntries"
proof -
  have "length (record_of s) \<le> maxCooldownStoreEntries" using assms by (simp add: cooldown_ok_def record_of_def)
  then show "length (swept now k b (record_of s)) \<le> maxCooldownStoreEntries"
    by (auto simp: swept_def intro: order_trans [OF length_filter_le])
  show "distinct (map ce_key (swept now k b (record_of s)))"
    using distinct_record [OF assms] by (simp add: swept_def distinct_map_filter)
qed

lemma step_remembered:
  assumes ok: "cooldown_ok s" and r: "remembered t t' key interval others (record_of s)"
    and time: "t' - t < interval" "0 < interval" and op: "meanwhile t t' key interval op" "set (failing op) \<subseteq> others"
    and few: "finite others" "card (others - {key}) < maxCooldownStoreEntries"
  shows "remembered t t' key interval others (record_of (cooldown_step op s))"
proof (cases op)
  case (Mark n e failed now)
  let ?k = "newCooldownKey n e"
  have "remembered t t' key interval others (swept now ?k (needs_sweep now s) (record_of s))"
    by (rule swept_remembered [OF r time]) (use op Mark in simp)
  from marked_remembered [OF this _ _ _ _ swept_bounds [OF ok] few] show ?thesis
    using mark_record [OF ok, of n e failed now] op Mark by simp
next
  case (Look n e now)
  have "remembered t t' key interval others (swept now (newCooldownKey n e) (needs_sweep now s) (record_of s))"
    by (rule swept_remembered [OF r time]) (use op Look in simp)
  from looked_remembered [OF this] show ?thesis using look_record [OF ok, of n e now] op Look by simp
next
  case (Forget n e expected)
  then show ?thesis using delete_record [OF ok, of n e expected] forgotten_remembered [OF r time(1)] op by simp
qed

lemma run_remembered:
  assumes "cooldown_ok s" and "remembered t t' key interval others (record_of s)"
    and "t' - t < interval" "0 < interval" and "\<forall>op \<in> set ops. meanwhile t t' key interval op"
    and "set (concat (map failing ops)) \<subseteq> others" and "finite others" "card (others - {key}) < maxCooldownStoreEntries"
  shows "remembered t t' key interval others (record_of (cooldown_run ops s))"
  using assms
proof (induction ops arbitrary: s)
  case Nil
  then show ?case by (simp add: cooldown_run_def)
next
  case (Cons op ops)
  have "remembered t t' key interval others (record_of (cooldown_step op s))"
    by (rule step_remembered [OF Cons.prems(1-4)]) (use Cons.prems in auto)
  from Cons.IH [OF cooldown_step_ok [OF Cons.prems(1)] this Cons.prems(3,4)] Cons.prems(5-8) show ?case
    by (simp add: cooldown_run_def)
qed

text \<open>
  C12: a failed endpoint stays in its cooldown. Let an endpoint fail at time \<open>t\<close>, and let concurrent
  requests record failures, look up and delete up to a time \<open>t'\<close> that is less than the cooldown later,
  at clock readings up to \<open>t'\<close>, deleting only failures of the endpoint that they found expired. If fewer
  than 1024 other endpoints failed meanwhile, the endpoint is found to be in its cooldown at \<open>t'\<close>: neither
  a sweep, nor the limit of the store, nor a late deletion of an earlier failure releases it.
\<close>

theorem cooldown_remembers:
  assumes "t \<le> t'" and "t' - t < endpointCooldownInterval e"
    and "\<forall>op \<in> set ops. meanwhile t t' (newCooldownKey n e) (endpointCooldownInterval e) op"
    and "card (set (concat (map failing ops)) - {newCooldownKey n e}) < 1024"
  shows "fst (endpointInCooldown n e t' t'
    (Some (cooldown_run ops (markFailure n e t now (cooldown_run before newCooldownStore)))))"
proof -
  let ?key = "newCooldownKey n e" and ?i = "endpointCooldownInterval e"
  let ?start = "cooldown_run before newCooldownStore"
  let ?s = "cooldown_run ops (markFailure n e t now ?start)" and ?o = "set (concat (map failing ops))"
  have pos: "0 < ?i" using assms(1,2) by simp
  have ok0: "cooldown_ok ?start" by (rule cooldown_run_ok [OF newCooldownStore_ok])
  note m = mark_record [OF ok0, of n e t now]
  have "remembered t t' ?key ?i ?o (record_of (markFailure n e t now ?start))"
    by (rule rememberedI [where post = "[]", OF conjunct2 [OF m, unfolded marked_def]]) (use assms(1) in simp_all)
  then have r: "remembered t t' ?key ?i ?o (record_of ?s)"
    by (rule run_remembered [OF conjunct1 [OF m] _ assms(2) pos assms(3)])
      (use assms(4) in \<open>simp_all add: maxCooldownStoreEntries_def\<close>)
  have ok: "cooldown_ok ?s" using m by (simp add: cooldown_run_ok)
  let ?es = "swept t' ?key (needs_sweep t' ?s) (record_of ?s)"
  have "remembered t t' ?key ?i ?o ?es" by (rule swept_remembered [OF r assms(2) pos]) simp
  then obtain pre x post where x: "?es = pre @ x # post" "ce_key x = ?key" "t \<le> lastFailure x" by (rule rememberedE)
  then have "entry_for ?key ?es \<noteq> None" by (auto simp: entry_for_None)
  then obtain y where y: "entry_for ?key ?es = Some y" by blast
  then have "x = y" using entry_for_eqD [OF swept_bounds(1) [OF ok] y, of x] x by simp
  then have "fst (lastFailureWithCurrentTTL n e t' ?s) = Some (lastFailure x, ?i)"
    using look_record [OF ok, of n e t'] y by simp
  moreover have "time_Sub t' (lastFailure x) < ?i" using in_time [OF x(3) _ assms(2) pos] by simp
  ultimately show ?thesis by (auto simp: endpointInCooldown_def split: prod.split)
qed

section \<open>Witnesses\<close>

definition cooled_endpoint :: "string \<Rightarrow> Endpoint" where
  "cooled_endpoint i = (plain_endpoint i ''h'' 80)\<lparr>ep_LLMMeta := Some \<lparr>Provider = ''p'', APIKey = '''',
     llm_RetryPolicy = \<lparr>rp_Name = ''NoRetry'', rp_Config = []\<rparr>, Fallback = True, HealthCheckInterval = 5\<rparr>\<rparr>"

theorem cooldown_remembers_witness:
  "fst (endpointInCooldown ''c'' (cooled_endpoint ''a'') 4000000 4000000
     (Some (cooldown_run [Mark ''c'' (cooled_endpoint ''b'') 2000000 2000000, Look ''c'' (cooled_endpoint ''a'') 3000000,
        Forget ''c'' (cooled_endpoint ''a'') (- 1000000)]
       (markFailure ''c'' (cooled_endpoint ''a'') 1000000 1000000 (cooldown_run [] newCooldownStore)))))"
proof -
  have i: "endpointCooldownInterval (cooled_endpoint x) = 5000000" for x
    by (simp add: endpointCooldownInterval_def cooled_endpoint_def in_int64_def)
  show ?thesis
    by (rule cooldown_remembers) (simp_all add: i insert_Diff_if)
qed

end
