(* ===== verification/Spec2Isabelle.thy ===== *)
theory Spec2Isabelle
  imports Pixiu_Retry Pixiu_SpringCloud Pixiu_Cooldown
begin

text \<open>
  A verification development for the routing and upstream side of the Pixiu gateway.

  \<^bold>\<open>The program.\<close> A listener of the gateway hands each request to a router coordinator, which finds a route
  on an immutable snapshot of the configured routes; the route names a cluster; the cluster manager
  picks an endpoint of the cluster through a load balancer, on an immutable snapshot of the healthy
  endpoints; the proxy retries according to a retry policy. Meanwhile routes are added and deleted
  (router manager, coordinator), clusters and endpoints change (cluster manager, xDS, registries), and
  health checkers report which addresses answer. The development models these parts and their
  composition, one theory or a chain of theories per part.

  \<^bold>\<open>Theories and the code they model\<close> (paths under \<open>src/\<close>):

  \<^item> \<open>Pixiu_Prelude\<close>: the operations of Go's standard library that the code is written with, on lists
    and association lists, and the shared lemmas.
  \<^item> \<open>Pixiu_Paths\<close>: \<open>pkg/common/util/stringutil/stringutil.go\<close>. Splitting of paths, classes of
    segments, trie keys.
  \<^item> \<open>Pixiu_Trie\<close>: \<open>pkg/common/router/trie/trie.go\<close>. The trie of routes: \<open>Put\<close>, \<open>PutOrUpdate\<close>, \<open>Get\<close>,
    \<open>Remove\<close>, \<open>Match\<close>, \<open>MatchWithPredicate\<close>. The abstraction of a trie is its table of entries.
  \<^item> \<open>Pixiu_Routes\<close>: \<open>pkg/model/router.go\<close>, \<open>router_snapshot.go\<close> and the matching part of
    \<open>pkg/common/router/router.go\<close>. Compilation of routes to snapshots and routing on snapshots.
  \<^item> \<open>Pixiu_Coordinator\<close>: the dynamic part of \<open>pkg/common/router/router.go\<close>, with
    \<open>pkg/server/router_manager.go\<close>. Debounced publication as a step relation between the callers, the
    timer and the waiting goroutine; the registry of listeners.
  \<^item> \<open>Pixiu_Endpoints\<close>: \<open>pkg/model/cluster.go\<close> and its neighbours. Endpoints, addresses, generated
    identities, copies.
  \<^item> \<open>Pixiu_Retry\<close>: \<open>pkg/cluster/retry\<close>. The policies and their registry.
  \<^item> \<open>Pixiu_HealthCheck\<close>: \<open>pkg/cluster/healthcheck\<close>. Checkers, sessions, thresholds, the numbers that
    tell late answers, the addresses that probes dial.
  \<^item> \<open>Pixiu_Snapshots\<close>: \<open>pkg/cluster/cluster.go\<close>. Endpoint snapshots with their indexes, health changes,
    and their publication by compare-and-swap.
  \<^item> \<open>Pixiu_Maglev\<close>: \<open>pkg/cluster/loadbalancer/maglev/permutation.go\<close>. The lookup table.
  \<^item> \<open>Pixiu_Balancers\<close>: \<open>pkg/cluster/loadbalancer\<close>. The five balancers and the pick that rechecks what
    they return.
  \<^item> \<open>Pixiu_ClusterStore\<close>, \<open>Pixiu_StoreRepair\<close>: \<open>ClusterStore\<close> of \<open>pkg/server/cluster_manager.go\<close>.
  \<^item> \<open>Pixiu_ClusterManager\<close>: \<open>ClusterManager\<close> of the same file; \<open>Pixiu_ManagerSteps\<close>, \<open>Pixiu_XDSSteps\<close>,
    \<open>Pixiu_SwapSteps\<close> show what its operations do, and \<open>Pixiu_ManagerRun\<close> makes a transition system of
    them.
  \<^item> \<open>Pixiu_SpringCloud\<close>: \<open>pkg/adapter/springcloud\<close>. The adapter that drives the cluster manager and
    the router manager from a registry.
  \<^item> \<open>Pixiu_Cooldown\<close>: the store of failed endpoints of \<open>pkg/filter/llm/proxy/filter.go\<close>, which keeps the
    LLM proxy from endpoints that failed lately.

  \<^bold>\<open>How state and operations correspond.\<close> A struct is a record with the fields of the struct, a
  method a function from the receiver and the arguments to the new receiver and the results. Go strings
  are lists of characters, slices are lists, a slice of pointers is a list of options, a map is an
  association list with distinct keys whose order stands for an iteration order, fixed-width counters are
  words. An error is an \<open>Inl\<close>, a panic (a nil dereference, a closed channel) is \<open>None\<close> where one can
  happen. Pointers matter for the runtimes of clusters only: \<open>runtimes\<close> is a heap of them that never
  shrinks, and a store maps names to addresses of the heap, so that a runtime that is given up without
  being stopped stays visible. An operation under a lock is one step; code that runs without one is split
  into its atomic steps (the coordinator's timer, the swap of snapshots, the probes of health checks).

  \<^bold>\<open>What the lemmas show.\<close>

  \<^item> Tries and routes: every operation of the trie acts on the table of entries as its name says; a
    match is the most preferred matching pattern; routing on a compiled snapshot equals a reference
    routing function on the list of routes (\<open>route_snapshot\<close>).
  \<^item> Coordinator: invariant over all interleavings, bounded number of steps to publication.
  \<^item> Health checks, retries, balancers: thresholds, budgets, waits, fairness of round robin, weights
    and Maglev, and that a pick is always a healthy endpoint whatever the balancer does.
  \<^item> Snapshots: all indexes agree with the list of endpoints, and the concurrent updates linearize.
  \<^item> Cluster manager: \<open>system_ok\<close> holds in every \<open>reachable\<close> state and every \<open>admissible\<close> operation
    returns; picks are healthy members of the current configuration; the events that handlers receive
    describe the addresses of the clusters; xDS changes leave other clusters alone.
  \<^item> Spring Cloud: a reconciliation makes clusters and routes agree with the registry, and a sequence of
    events after which a route stays lost.
  \<^item> Cooldown: the map and the list of the store are one bounded record of failures, and an endpoint that
    failed is skipped until its cooldown is over, under all interleavings of concurrent requests.

  Four contracts are locales: \<open>snapshot_balancer\<close> (what a balancer owes the pick), \<open>host_factories\<close>
  (consistent hashes that depend on the hosts only), \<open>router_listener\<close> (what the router manager expects
  of its listeners) and \<open>retry_contract\<close> (budget of attempts). Each is interpreted on the model's
  own definitions.

  \<^bold>\<open>Bounds.\<close> No definition takes fuel. The search for a free endpoint identity is a total function, as
  finitely many identities are taken. The loop that fills a Maglev table is a partial function, whose
  value is \<open>None\<close> where it does not end; \<open>maglev_populates\<close> shows that it ends. Fairness of Maglev is shown
  for prime sizes up to 65536. Counters of 32 and 64 bits wrap as in Go, and the theorems say where this
  matters.

  \<^bold>\<open>Parameters.\<close> Third-party code is a parameter: compilation and matching of regular expressions, the
  hash functions BLAKE2b and xxHash, the ring of the ring hash, decoding of configuration values, copying
  a store through YAML, external balancers, the answers of registries and of dialled addresses, random
  numbers.

  \<^bold>\<open>Admissible operations.\<close> The invariant of the manager needs that a cluster is not added under an
  existing name, that one call does not remove a name twice, that endpoints are set under a non-empty
  name and deleted from lists without nil entries, that a store that is swapped in has distinct
  non-empty names, and that a balancer leaves the configuration it is given alone (\<open>polite\<close>, shown for those of
  the tree). What the code does outside these limits is left open by the theorems.

  \<^bold>\<open>Not modelled.\<close> Sockets, listeners, HTTP and gRPC contexts, the filters apart from the cooldown
  store, backend clients, registry clients, tracing and metrics are input and output through third-party
  packages. The administration
  console and the Kubernetes controllers are separate programs. The configuration loader and the xDS
  client are conversions of generated structures; what they call of the managers is modelled.
\<close>

section \<open>The cluster manager\<close>

text \<open>
  C2: the manager is well-formed in every reachable state. Starting from the configured clusters, any
  sequence of admissible operations (adding, changing and removing clusters, setting and deleting
  endpoints, all xDS operations, swaps of the store, picks, health events and registrations of
  handlers) leads to a state in which clusters have distinct non-empty names and uniquely identified
  endpoints, each cluster has exactly one runtime of its own that serves its current configuration with
  one health check session per address if checks are configured, every other runtime ever created
  has no session left, and xDS owns existing clusters only. In each of these states every admissible
  operation returns.
\<close>

theorem manager_well_formed:
  assumes "reachable fs strategies sys" and "\<forall>n b. strategies n = Some b \<longrightarrow> polite b" and "admissible op sys"
  shows "system_ok sys
    \<and> (\<exists>sys'. run_op fs strategies op sys = Some sys' \<and> reachable fs strategies sys' \<and> system_ok sys')"
  using reachable_ok [OF assms(1,2)] run_op_ok [OF _ assms(3,2), of fs] reachable_step [OF assms(1,3)] by blast

text \<open>
  C3: a pick of the manager is a healthy endpoint of the current configuration. In every reachable
  state the endpoint picked for a cluster is one that its configuration lists, as it lists it, and
  healthy; and once a failed health check of an address has reached the runtime of the cluster, no
  endpoint of this address is picked.
\<close>

theorem manager_pick_safe:
  assumes "reachable fs strategies sys" and "\<forall>n b. strategies n = Some b \<longrightarrow> polite b"
  shows "(\<forall>e. fst (PickEndpoint fs strategies n sys) = Some e \<longrightarrow>
      (\<exists>c e'. findClusterConfig n (store_of sys) = Some c \<and> Some e' \<in> set (Endpoints c)
        \<and> declared e = declared e' \<and> \<not> UnHealthy e))
    \<and> (\<forall>r ev e. getRuntimeCluster n sys = Some r \<and> \<not> ev_Healthy ev
        \<and> fst (PickEndpoint fs strategies n (HealthEvent r ev sys)) = Some e \<longrightarrow>
      address_of e \<noteq> ev_EndpointAddress ev)"
  using picked_endpoint [OF reachable_ok [OF assms]] picked_after_failure [OF reachable_ok [OF assms]] by blast


text \<open>
  C8: \<open>SetEndpoint\<close> by identity. In every reachable state, setting an endpoint with an explicit
  identity leaves exactly one endpoint with this identity in the cluster, with the content that was set,
  creates the cluster if there is none, keeps the other endpoints in order and all other clusters, and
  doing it again changes no endpoint.
\<close>

theorem SetEndpoint_by_id:
  assumes "reachable fs strategies sys" and "\<forall>n b. strategies n = Some b \<longrightarrow> polite b"
    and "n \<noteq> ''''" and "ep_ID e \<noteq> ''''" and "distinct (map fst (ep_Metadata e))"
    and "sys' = SetEndpoint fs n (Some e) sys"
  shows "\<exists>c e'. findClusterConfig n (store_of sys') = Some c
    \<and> only_one (ep_ID e) e' (case findClusterConfig n (store_of sys) of None \<Rightarrow> [] | Some c0 \<Rightarrow> Endpoints c0) (Endpoints c)
    \<and> endpointContentEqualForSet e' e
    \<and> (\<forall>m. m \<noteq> n \<longrightarrow> findClusterConfig m (store_of sys') = findClusterConfig m (store_of sys))
    \<and> (\<exists>c'. findClusterConfig n (store_of (SetEndpoint fs n (Some e) sys')) = Some c' \<and> Endpoints c' = Endpoints c)"
proof -
  note ok = reachable_ok [OF assms(1,2)]
  let ?es = "case findClusterConfig n (store_of sys) of None \<Rightarrow> [] | Some c0 \<Rightarrow> Endpoints c0"
  have es: "assembled ?es"
    using found_assembled [of "proc sys" "store_of sys" n] ok by (auto simp: system_ok_def split: option.split)
  have ok': "system_ok sys'" using SetEndpoint_step [OF ok assms(3), of fs "Some e"] assms(6) by simp
  obtain c where c: "findClusterConfig n (store_of sys') = Some c" "Endpoints c = endpoints_after n e ?es"
      "\<forall>m. m \<noteq> n \<longrightarrow> findClusterConfig m (store_of sys') = findClusterConfig m (store_of sys)"
    using SetEndpoint_found [OF ok assms(3), of fs e] assms(6) by auto
  from endpoints_after_id [OF es assms(4,5), of n] c SetEndpoint_found [OF ok' assms(3), of fs e]
  show ?thesis by (auto simp: c(1,2))
qed

text \<open>
  C9: \<open>ReplaceXDSClusters\<close> touches what xDS owns only. In every reachable state it refuses exactly the
  lists with a nil or unnamed cluster, a name that occurs twice, or a name of a cluster that xDS does
  not own, and then nothing changes. Otherwise the clusters that xDS owns are the given ones,
  and every other cluster keeps its configuration and its runtime, which is not touched at all.
\<close>

theorem ReplaceXDSClusters_isolated:
  assumes "reachable fs strategies sys" and "\<forall>n b. strategies n = Some b \<longrightarrow> polite b"
    and "ReplaceXDSClusters fs clusters sys = (res, sys')"
  shows "(\<forall>u. res = Inr u \<longleftrightarrow> None \<notin> set clusters \<and> '''' \<notin> cc_Name ` set (somes clusters)
        \<and> distinct (map cc_Name (somes clusters))
        \<and> cc_Name ` set (somes clusters) \<inter> cc_Name ` set (static_configs (mgr sys)) = {})
    \<and> (\<forall>err. res = Inl err \<longrightarrow> sys' = sys)
    \<and> (\<forall>u. res = Inr u \<longrightarrow> xds_replaced clusters sys sys')"
  using ReplaceXDSClusters_accepts [OF assms(3)] ReplaceXDSClusters_step [OF reachable_ok [OF assms(1,2)] assms(3)]
  by (auto split: sum.splits simp del: set_somes)

section \<open>Witnesses\<close>

text \<open>A manager that starts with one cluster of two endpoints, and the balancers of the tree.\<close>

definition sample_cluster :: "unit lb_hash ClusterConfig" where
  "sample_cluster = (new_cluster ''web'')\<lparr>Endpoints := [Some (plain_endpoint ''a'' ''h'' 1), Some (plain_endpoint ''b'' ''i'' 2)]\<rparr>"

definition sample_strategies :: "string \<Rightarrow> unit lb_hash load_balancer option" where
  "sample_strategies = LoadBalancerStrategy sample_ops (\<lambda>n. 0) None"

definition sample_system :: "unit lb_hash system" where
  "sample_system = CreateDefaultClusterManager (\<lambda>lb. None) [sample_cluster] \<lparr>clusterIndex = 1, configIDSeq = 0, runtimes = []\<rparr>"

lemma sample_polite: "\<forall>n b. sample_strategies n = Some b \<longrightarrow> polite b"
  by (auto simp: sample_strategies_def in_tree_polite)

lemma sample_reachable: "reachable (\<lambda>lb. None) sample_strategies sample_system"
  unfolding sample_system_def by (rule start_reachable) (simp_all add: sample_cluster_def new_cluster_def)

lemma sample_found:
  "map_option Endpoints (findClusterConfig ''web'' (store_of sample_system)) =
     Some [Some ((plain_endpoint ''a'' ''h'' 1)\<lparr>ep_Name := ''endpoint-1''\<rparr>),
           Some ((plain_endpoint ''b'' ''i'' 2)\<lparr>ep_Name := ''endpoint-2''\<rparr>)]"
  by code_simp

lemma sample_pick:
  "fst (PickEndpoint (\<lambda>lb. None) sample_strategies ''web'' sample_system) =
     Some ((plain_endpoint ''a'' ''h'' 1)\<lparr>ep_Name := ''endpoint-1''\<rparr>)"
  by code_simp

theorem manager_well_formed_witness:
  "\<exists>sys'. run_op (\<lambda>lb. None) sample_strategies (OpSet ''web'' (Some (plain_endpoint ''a'' ''j'' 3))) sample_system = Some sys'
     \<and> system_ok sys'"
  using manager_well_formed [OF sample_reachable sample_polite, of "OpSet ''web'' (Some (plain_endpoint ''a'' ''j'' 3))"]
  by (simp add: admissible_def) blast

definition sample_failure :: EndpointHealthEvent where
  "sample_failure = \<lparr>ev_EndpointID = '''', ev_EndpointAddress = ''h:1'', ev_Healthy = False\<rparr>"

lemma sample_pick_after:
  "getRuntimeCluster ''web'' sample_system = Some 0"
  "fst (PickEndpoint (\<lambda>lb. None) sample_strategies ''web'' (HealthEvent 0 sample_failure sample_system)) =
     Some ((plain_endpoint ''b'' ''i'' 2)\<lparr>ep_Name := ''endpoint-2''\<rparr>)"
  by (code_simp, code_simp)

theorem manager_pick_safe_witness:
  "(\<exists>c e'. findClusterConfig ''web'' (store_of sample_system) = Some c \<and> Some e' \<in> set (Endpoints c)
      \<and> declared ((plain_endpoint ''a'' ''h'' 1)\<lparr>ep_Name := ''endpoint-1''\<rparr>) = declared e')
   \<and> address_of ((plain_endpoint ''b'' ''i'' 2)\<lparr>ep_Name := ''endpoint-2''\<rparr>) \<noteq> ev_EndpointAddress sample_failure"
proof -
  note safe = manager_pick_safe [OF sample_reachable sample_polite, of "''web''"]
  have "\<not> ev_Healthy sample_failure" by (simp add: sample_failure_def)
  with safe sample_pick sample_pick_after show ?thesis by blast
qed

definition sample_handled :: "unit lb_hash system" where
  "sample_handled = sample_system\<lparr>mgr := snd (AddEndpointStateHandler (mgr sample_system))\<rparr>"

lemma sample_handled_reachable: "reachable (\<lambda>lb. None) sample_strategies sample_handled"
  by (rule reachable_step [OF sample_reachable, of OpAddState]) (simp_all add: admissible_def run_op_def sample_handled_def)

lemma sample_handlers: "endpointStateHandlers (mgr sample_handled) = [1]"
  by code_simp


theorem SetEndpoint_by_id_witness:
  "\<exists>c e'. findClusterConfig ''web'' (store_of
       (SetEndpoint (\<lambda>lb. None) ''web'' (Some (plain_endpoint ''a'' ''j'' 3)) sample_system)) = Some c
     \<and> filter (\<lambda>x. ep_ID x = ''a'') (somes (Endpoints c)) = [e']
     \<and> endpointContentEqualForSet e' (plain_endpoint ''a'' ''j'' 3)"
proof -
  have "''web'' \<noteq> ''''" "ep_ID (plain_endpoint ''a'' ''j'' 3) \<noteq> ''''" "distinct (map fst (ep_Metadata (plain_endpoint ''a'' ''j'' 3)))"
    "ep_ID (plain_endpoint ''a'' ''j'' 3) = ''a''"
    by (simp_all add: plain_endpoint_def)
  with SetEndpoint_by_id [OF sample_reachable sample_polite this(1-3) refl] show ?thesis
    by (auto simp: only_one_def)
qed

theorem ReplaceXDSClusters_isolated_witness:
  "snd (ReplaceXDSClusters (\<lambda>lb. None) [Some (new_cluster ''web'')] sample_system) = sample_system
   \<and> xds_replaced [Some (new_cluster ''x'')] sample_system
       (snd (ReplaceXDSClusters (\<lambda>lb. None) [Some (new_cluster ''x'')] sample_system))"
proof -
  note iso = ReplaceXDSClusters_isolated [OF sample_reachable sample_polite prod.collapse [symmetric]]
  have "map cc_Name (static_configs (mgr sample_system)) = [''web'']" by code_simp
  then have web: "cc_Name ` set (static_configs (mgr sample_system)) = {''web''}" by (metis list.set(1,2) set_map)
  show ?thesis
    using iso [of "[Some (new_cluster ''web'')]"] iso [of "[Some (new_cluster ''x'')]"]
    by (cases "fst (ReplaceXDSClusters (\<lambda>lb. None) [Some (new_cluster ''web'')] sample_system)")
      (auto simp: web new_cluster_def)
qed

end
